(* ===== verification/Prelude.thy ===== *)
theory Prelude
  imports Main "HOL-Library.Word" "HOL-Library.List_Lexorder"
begin

text \<open>
  Shared vocabulary of the development: the machine types of the Go sources, big-endian
  byte strings, fixed-size byte arrays (hashes and addresses) and the generic lemmas on
  lists and words that the component theories use.

  A Go \<open>byte\<close> is an \<open>8 word\<close>, a \<open>uint64\<close> a \<open>64 word\<close> whose
  arithmetic wraps around, a slice of bytes a list. A Go \<open>int\<close> that counts or indexes
  (a slice length, an offset) is a \<open>nat\<close>; a \<open>*big.Int\<close> is an \<open>int\<close>.
\<close>

unbundle bit_operations_syntax

type_synonym byte = "8 word"
type_synonym bytes = "byte list"
type_synonym u64 = "64 word"
type_synonym u32 = "32 word"
type_synonym u256 = "256 word"

text \<open>\<open>common.Hash\<close> and \<open>common.Address\<close> are arrays of 32 and 20 bytes.
  The order on byte lists is the one of \<open>bytes.Compare\<close> (lexicographic, a proper
  prefix is smaller).\<close>

type_synonym hash = bytes
type_synonym address = bytes

named_theorems byte_simps \<open>byte strings and big-endian numbers\<close>

subsection \<open>Words and numbers\<close>

lemma unat_of_nat_small [byte_simps]:
  "n < 2 ^ 64 \<Longrightarrow> unat (of_nat n :: u64) = n"
  by (simp add: unat_of_nat take_bit_nat_eq_self)

lemma of_nat_less_u64 [byte_simps]:
  "m < 2 ^ 64 \<Longrightarrow> n < 2 ^ 64 \<Longrightarrow> (of_nat m :: u64) < of_nat n \<longleftrightarrow> m < n"
  by (simp add: word_less_nat_alt unat_of_nat_small)

lemma unat_byte_less [simp]: "unat (b :: byte) < 256"
  using unsigned_less [of b, where ?'a = nat] by simp

lemma unat_u64_less: "unat (w :: u64) < 2 ^ 64"
  using unsigned_less [of w, where ?'a = nat] by simp

lemma unat_ucast_byte [simp]: "unat (ucast (b :: byte) :: u64) = unat b"
proof -
  have "unat b < 2 ^ 64" by (rule less_trans [OF unat_byte_less]) simp
  then show ?thesis by (simp add: unsigned_ucast_eq take_bit_nat_eq_self)
qed

lemma unat_ucast_low_byte: "unat (ucast (w :: u64) :: byte) = unat w mod 256"
  by (simp add: unsigned_ucast_eq take_bit_eq_mod)

lemma unat_drop_bit: "unat (drop_bit n (w :: u64)) = unat w div 2 ^ n"
  unfolding unat_drop_bit_eq by (rule drop_bit_eq_div)

subsection \<open>Big-endian byte strings\<close>

text \<open>The number a byte string denotes: \<open>big.Int.SetBytes\<close> and, for eight bytes,
  \<open>binary.BigEndian.Uint64\<close>.\<close>

definition be_nat :: "bytes \<Rightarrow> nat" where
  "be_nat bs = foldl (\<lambda>a b. 256 * a + unat b) 0 bs"

lemma foldl_be:
  "foldl (\<lambda>a b. 256 * a + unat (b :: byte)) a bs = a * 256 ^ length bs + be_nat bs"
proof (induction bs arbitrary: a)
  case Nil
  then show ?case by (simp add: be_nat_def)
next
  case (Cons b bs)
  have "be_nat (b # bs) = unat b * 256 ^ length bs + be_nat bs"
    using Cons.IH [of "unat b"] by (simp add: be_nat_def)
  then show ?case using Cons.IH [of "256 * a + unat b"] by (simp add: algebra_simps)
qed

lemma be_nat_Nil [simp]: "be_nat [] = 0"
  by (simp add: be_nat_def)

lemma be_nat_Cons: "be_nat (b # bs) = unat b * 256 ^ length bs + be_nat bs"
  using foldl_be [of "unat b" bs] by (simp add: be_nat_def)

lemma be_nat_append: "be_nat (xs @ ys) = be_nat xs * 256 ^ length ys + be_nat ys"
  using foldl_be [of "be_nat xs" ys] by (simp add: be_nat_def)

lemma be_nat_snoc: "be_nat (xs @ [b]) = 256 * be_nat xs + unat b"
  by (simp add: be_nat_append be_nat_Cons)

lemma be_nat_bound: "be_nat bs < 256 ^ length bs"
proof (induction bs rule: rev_induct)
  case Nil
  then show ?case by simp
next
  case (snoc b bs)
  have "256 * be_nat bs + unat b < 256 * be_nat bs + 256" by simp
  also have "\<dots> \<le> 256 * 256 ^ length bs" using snoc.IH by simp
  finally show ?case by (simp add: be_nat_snoc)
qed

lemma be_nat_replicate_0 [simp]: "be_nat (replicate n 0) = 0"
  by (induction n) (simp_all add: be_nat_Cons)

lemma be_nat_inj:
  "length xs = length ys \<Longrightarrow> be_nat xs = be_nat ys \<Longrightarrow> xs = ys"
proof (induction xs arbitrary: ys rule: rev_induct)
  case Nil
  then show ?case by simp
next
  case (snoc x xs)
  from snoc.prems(1) obtain y zs where ys: "ys = zs @ [y]"
    by (cases ys rule: rev_cases) auto
  from snoc.prems(2) ys have eq: "256 * be_nat xs + unat x = 256 * be_nat zs + unat y"
    by (simp add: be_nat_snoc)
  have "unat x = (256 * be_nat xs + unat x) mod 256" by simp
  also have "\<dots> = unat y" by (subst eq) simp
  finally have xy: "unat x = unat y" .
  with eq have "be_nat xs = be_nat zs" by simp
  with snoc.IH snoc.prems(1) ys xy show ?case by (simp add: word_unat_eq_iff)
qed

end
