(* ===== verification/Rlp_Encode.thy ===== *)
theory Rlp_Encode
  imports Prelude
begin

text \<open>
  The RLP encoder, \<open>rlp/encode.go\<close>. The encoder writes a value in one pass into an
  \<open>encbuf\<close>: string data goes to \<open>str\<close>, every list leaves a header in \<open>lheads\<close>
  that records where in \<open>str\<close> it belongs, and \<open>toBytes\<close> merges the two at the end.
  The theory models the buffer and the writers, and proves the result equal to the
  recursive encoding of the RLP rules (\<open>enc\<close>).
\<close>

subsection \<open>Errors and kinds\<close>

datatype Kind = ByteK | StringK | ListK

text \<open>\<open>DecodeErr\<close> is the \<open>*decodeError\<close> that \<open>wrapStreamError\<close> makes of a
  stream error; \<open>TooFewElements\<close>, \<open>InputTooLong\<close>, \<open>InputTooShort\<close> and \<open>WrongKindOfEmpty\<close> are
  the messages of the \<open>*decodeError\<close>s the decoders make themselves.\<close>

datatype rlp_error =
    EOL | ErrExpectedString | ErrExpectedList | ErrCanonInt | ErrCanonSize | ErrElemTooLarge
  | ErrValueTooLarge | ErrMoreThanOneValue | ErrNotInList | ErrNotAtEOL | ErrUintOverflow
  | ErrUnexpectedEOF | ErrEOF | ErrNegativeBigInt | ErrInvalidBool u64
  | TooFewElements | InputTooLong | InputTooShort | WrongKindOfEmpty Kind Kind
  | DecodeErr rlp_error

subsection \<open>Integers\<close>

text \<open>\<open>intsize\<close>: the loop shifts \<open>i\<close> right by a byte until it is zero.\<close>

function intsize_loop :: "nat \<Rightarrow> u64 \<Rightarrow> nat" where
  "intsize_loop n i =
     (let i = drop_bit 8 i in if i = 0 then n else intsize_loop (n + 1) i)"
  by pat_completeness auto
termination
proof (relation "measure (\<lambda>(n, i). unat i)")
  fix n :: nat and i x :: u64
  assume "x = drop_bit 8 i" "x \<noteq> 0"
  then have "unat x = unat i div 256" and "0 < unat x"
    by (simp add: unat_drop_bit, metis unat_eq_0 gr0I)
  then have "unat x < unat i" by simp
  then show "((n + 1, x), n, i) \<in> measure (\<lambda>(n, i). unat i)" by simp
qed simp

definition intsize :: "u64 \<Rightarrow> nat" where
  "intsize i = intsize_loop 1 i"

text \<open>\<open>putint\<close>: the bytes it writes at the beginning of its buffer; their number is the
  size it returns.\<close>

definition putint :: "u64 \<Rightarrow> bytes" where
  "putint i =
     (if i < 2 ^ 8 then [ucast i]
      else if i < 2 ^ 16 then [ucast (drop_bit 8 i), ucast i]
      else if i < 2 ^ 24 then [ucast (drop_bit 16 i), ucast (drop_bit 8 i), ucast i]
      else if i < 2 ^ 32 then
        [ucast (drop_bit 24 i), ucast (drop_bit 16 i), ucast (drop_bit 8 i), ucast i]
      else if i < 2 ^ 40 then
        [ucast (drop_bit 32 i), ucast (drop_bit 24 i), ucast (drop_bit 16 i),
         ucast (drop_bit 8 i), ucast i]
      else if i < 2 ^ 48 then
        [ucast (drop_bit 40 i), ucast (drop_bit 32 i), ucast (drop_bit 24 i),
         ucast (drop_bit 16 i), ucast (drop_bit 8 i), ucast i]
      else if i < 2 ^ 56 then
        [ucast (drop_bit 48 i), ucast (drop_bit 40 i), ucast (drop_bit 32 i),
         ucast (drop_bit 24 i), ucast (drop_bit 16 i), ucast (drop_bit 8 i), ucast i]
      else
        [ucast (drop_bit 56 i), ucast (drop_bit 48 i), ucast (drop_bit 40 i),
         ucast (drop_bit 32 i), ucast (drop_bit 24 i), ucast (drop_bit 16 i),
         ucast (drop_bit 8 i), ucast i])"

definition headsize :: "u64 \<Rightarrow> nat" where
  "headsize n = (if n < 56 then 1 else 1 + intsize n)"

definition puthead :: "byte \<Rightarrow> byte \<Rightarrow> u64 \<Rightarrow> bytes" where
  "puthead smalltag largetag n =
     (if n < 56 then [smalltag + ucast n]
      else let sz = putint n in (largetag + of_nat (length sz)) # sz)"

subsection \<open>The encode buffer\<close>

record listhead =
  offset :: nat
  lh_size :: nat

definition listhead_encode :: "listhead \<Rightarrow> bytes" where
  "listhead_encode head = puthead 0xC0 0xF7 (of_nat (lh_size head))"

record encbuf =
  str :: bytes
  lheads :: "listhead list"
  lhsize :: nat

definition encbuf_reset :: "encbuf \<Rightarrow> encbuf" where
  "encbuf_reset w = w\<lparr>lhsize := 0, str := [], lheads := []\<rparr>"

text \<open>\<open>w.str = append(w.str, b...)\<close>, also the body of \<open>encbuf.Write\<close>.\<close>

definition encbuf_Write :: "bytes \<Rightarrow> encbuf \<Rightarrow> encbuf" where
  "encbuf_Write b w = w\<lparr>str := str w @ b\<rparr>"

definition encbuf_size :: "encbuf \<Rightarrow> nat" where
  "encbuf_size w = length (str w) + lhsize w"

definition encodeStringHeader :: "nat \<Rightarrow> encbuf \<Rightarrow> encbuf" where
  "encodeStringHeader n w =
     (if n < 56 then encbuf_Write [0x80 + of_nat n] w
      else let sz = putint (of_nat n)
           in encbuf_Write ((0xB7 + of_nat (length sz)) # sz) w)"

definition encodeString :: "bytes \<Rightarrow> encbuf \<Rightarrow> encbuf" where
  "encodeString b w =
     (if length b = 1 \<and> b ! 0 \<le> 0x7F then encbuf_Write [b ! 0] w
      else encbuf_Write b (encodeStringHeader (length b) w))"

definition encodeUint :: "u64 \<Rightarrow> encbuf \<Rightarrow> encbuf" where
  "encodeUint i w =
     (if i = 0 then encbuf_Write [0x80] w
      else if i < 128 then encbuf_Write [ucast i] w
      else let s = putint i in encbuf_Write ((0x80 + of_nat (length s)) # s) w)"

definition encbuf_list :: "encbuf \<Rightarrow> nat \<times> encbuf" where
  "encbuf_list w =
     (let w = w\<lparr>lheads := lheads w @ [\<lparr>offset = length (str w), lh_size = lhsize w\<rparr>]\<rparr>
      in (length (lheads w) - 1, w))"

definition listEnd :: "nat \<Rightarrow> encbuf \<Rightarrow> encbuf" where
  "listEnd index w =
     (let lh = lheads w ! index;
          n = encbuf_size w - offset lh - lh_size lh;
          w = w\<lparr>lheads := (lheads w)[index := lh\<lparr>lh_size := n\<rparr>]\<rparr>
      in if n < 56 then w\<lparr>lhsize := lhsize w + 1\<rparr>
         else w\<lparr>lhsize := lhsize w + (1 + intsize (of_nat n))\<rparr>)"

text \<open>The loop of \<open>toBytes\<close>: \<open>strpos\<close> is the position in the string data, and the
  result is what has been written to \<open>out\<close> from the current position on.\<close>

fun toBytes_loop :: "bytes \<Rightarrow> nat \<Rightarrow> listhead list \<Rightarrow> bytes" where
  "toBytes_loop s strpos [] = drop strpos s"
| "toBytes_loop s strpos (head # heads) =
     (let piece = take (offset head - strpos) (drop strpos s)
      in piece @ listhead_encode head @ toBytes_loop s (strpos + length piece) heads)"

definition toBytes :: "encbuf \<Rightarrow> bytes" where
  "toBytes w = toBytes_loop (str w) 0 (lheads w)"

subsection \<open>Big integers\<close>

text \<open>\<open>big.Int\<close>: \<open>BitLen\<close> and \<open>Bits\<close> (the little-endian 64-bit words of the
  absolute value).\<close>

fun BitLen :: "nat \<Rightarrow> nat" where
  "BitLen n = (if n = 0 then 0 else Suc (BitLen (n div 2)))"

fun big_Bits :: "nat \<Rightarrow> u64 list" where
  "big_Bits n = (if n = 0 then [] else of_nat n # big_Bits (n div 2 ^ 64))"

declare BitLen.simps [simp del] big_Bits.simps [simp del] intsize_loop.simps [simp del]

text \<open>The loops of \<open>writeBigInt\<close>: the inner one stores the bytes of one word from the
  back of the buffer, the outer one goes through the words.\<close>

fun putWordBytes :: "nat \<Rightarrow> u64 \<Rightarrow> nat \<Rightarrow> bytes \<Rightarrow> nat \<times> bytes" where
  "putWordBytes 0 d index buf = (index, buf)"
| "putWordBytes (Suc j) d index buf =
     (if index > 0
      then putWordBytes j (drop_bit 8 d) (index - 1) (buf[index - 1 := ucast d])
      else (index, buf))"

fun putWords :: "u64 list \<Rightarrow> nat \<Rightarrow> bytes \<Rightarrow> bytes" where
  "putWords [] index buf = buf"
| "putWords (d # ds) index buf =
     (let (index, buf) = putWordBytes 8 d index buf in putWords ds index buf)"

definition writeBigInt :: "int \<Rightarrow> encbuf \<Rightarrow> rlp_error + encbuf" where
  "writeBigInt i w =
     (if i < 0 then Inl ErrNegativeBigInt
      else let bitlen = BitLen (nat i) in
        if bitlen \<le> 64 then Inr (encodeUint (of_nat (nat i)) w)
        else let len = (bitlen + 7) div 8;
                 buf = putWords (big_Bits (nat i)) len (replicate len 0)
             in Inr (encbuf_Write buf (encodeStringHeader len w)))"

subsection \<open>The writers\<close>

text \<open>The Go values the encoder takes, one constructor for each case of \<open>makeWriter\<close>.
  A pointer carries the kind its nil value is encoded as (\<open>nilEncoding\<close>); a struct its
  fields, each with what \<open>IsZero\<close> says of it, and the index of the first optional field
  (the number of fields when there is none). A type with an \<open>EncodeRLP\<close> method is the
  value that its method hands to \<open>rlp.Encode\<close>.\<close>

datatype gval =
    GRawValue bytes
  | GBigIntPtr "int option"
  | GBigInt int
  | GPtr Kind "gval option"
  | GUint u64
  | GBool bool
  | GString bytes
  | GBytes bytes
  | GByteArray bytes
  | GSlice "gval list"
  | GTailSlice "gval list"
  | GStruct "(bool \<times> gval) list" nat
  | GInterface "gval option"

definition writeBool :: "bool \<Rightarrow> encbuf \<Rightarrow> encbuf" where
  "writeBool b w = (if b then encbuf_Write [0x01] w else encbuf_Write [0x80] w)"

definition writeBigIntPtr :: "int option \<Rightarrow> encbuf \<Rightarrow> rlp_error + encbuf" where
  "writeBigIntPtr ptr w =
     (case ptr of None \<Rightarrow> Inr (encbuf_Write [0x80] w) | Some i \<Rightarrow> writeBigInt i w)"

definition writeByteArray :: "bytes \<Rightarrow> encbuf \<Rightarrow> encbuf" where
  "writeByteArray b w =
     (if length b = 0 then encbuf_Write [0x80] w
      else if length b = 1
        then (if b ! 0 \<le> 0x7f then encbuf_Write [b ! 0] w else encbuf_Write [0x81, b ! 0] w)
      else encbuf_Write b (encodeStringHeader (length b) w))"

definition writeString :: "bytes \<Rightarrow> encbuf \<Rightarrow> encbuf" where
  "writeString s w =
     (if length s = 1 \<and> s ! 0 \<le> 0x7f then encbuf_Write [s ! 0] w
      else encbuf_Write s (encodeStringHeader (length s) w))"

text \<open>\<open>nilEncoding\<close> panics for the kind \<open>Byte\<close>, which no type and no tag gives.\<close>

definition nilEncoding :: "Kind \<Rightarrow> byte" where
  "nilEncoding k = (if k = ListK then 0xC0 else 0x80)"

text \<open>The fields a struct writer encodes: trailing optional fields that are zero are left
  out (\<open>lastField\<close> moves down to the last one that is not zero).\<close>

function lastField :: "(bool \<times> gval) list \<Rightarrow> nat \<Rightarrow> nat \<Rightarrow> nat" where
  "lastField fs firstOptional n =
     (if firstOptional < n \<and> fst (fs ! (n - 1))
      then lastField fs firstOptional (n - 1) else n)"
  by pat_completeness auto
termination by (relation "measure (\<lambda>(fs, firstOptional, n). n)") auto

definition structFields :: "(bool \<times> gval) list \<Rightarrow> nat \<Rightarrow> (bool \<times> gval) list" where
  "structFields fs firstOptional = take (lastField fs firstOptional (length fs)) fs"

declare lastField.simps [simp del]

lemma size_list_map_snd_take:
  "size_list size (map snd (take k fs)) \<le> size_list (size_prod (\<lambda>_. 0) size) fs"
proof (induction fs arbitrary: k)
  case (Cons f fs)
  then show ?case by (cases k; cases f) (auto intro: le_SucI)
qed simp

function (sequential) writeVal :: "gval \<Rightarrow> encbuf \<Rightarrow> rlp_error + encbuf"
  and writeElems :: "gval list \<Rightarrow> encbuf \<Rightarrow> rlp_error + encbuf" where
  "writeVal (GRawValue b) w = Inr (encbuf_Write b w)"
| "writeVal (GBigIntPtr p) w = writeBigIntPtr p w"
| "writeVal (GBigInt i) w = writeBigInt i w"
| "writeVal (GPtr k (Some v)) w = writeVal v w"
| "writeVal (GPtr k None) w = Inr (encbuf_Write [nilEncoding k] w)"
| "writeVal (GUint i) w = Inr (encodeUint i w)"
| "writeVal (GBool b) w = Inr (writeBool b w)"
| "writeVal (GString s) w = Inr (writeString s w)"
| "writeVal (GBytes b) w = Inr (encodeString b w)"
| "writeVal (GByteArray b) w = Inr (writeByteArray b w)"
| "writeVal (GTailSlice vs) w = writeElems vs w"
| "writeVal (GSlice vs) w =
     (if vs = [] then Inr (encbuf_Write [0xC0] w)
      else let (listOffset, w) = encbuf_list w in
        (case writeElems vs w of Inl e \<Rightarrow> Inl e | Inr w \<Rightarrow> Inr (listEnd listOffset w)))"
| "writeVal (GStruct fs firstOptional) w =
     (let (lh, w) = encbuf_list w in
        (case writeElems (map snd (structFields fs firstOptional)) w of
           Inl e \<Rightarrow> Inl e | Inr w \<Rightarrow> Inr (listEnd lh w)))"
| "writeVal (GInterface None) w = Inr (encbuf_Write [0xC0] w)"
| "writeVal (GInterface (Some v)) w = writeVal v w"
| "writeElems [] w = Inr w"
| "writeElems (v # vs) w = (case writeVal v w of Inl e \<Rightarrow> Inl e | Inr w \<Rightarrow> writeElems vs w)"
  by pat_completeness auto
termination
proof (relation "measure (case_sum (\<lambda>(v, w). size v) (\<lambda>(vs, w). size_list size vs))",
    goal_cases)
  case (5 fs firstOptional w)
  then show ?case
    using size_list_map_snd_take [of "lastField fs firstOptional (length fs)" fs]
    by (simp add: structFields_def)
qed auto

definition EncodeToBytes :: "gval \<Rightarrow> rlp_error + bytes" where
  "EncodeToBytes v =
     (let eb = encbuf_reset \<lparr>str = [], lheads = [], lhsize = 0\<rparr> in
      case writeVal v eb of Inl e \<Rightarrow> Inl e | Inr w \<Rightarrow> Inr (toBytes w))"


subsection \<open>The encoding rules\<close>

text \<open>RLP as its specification states it: the minimal big-endian form of a length or an
  integer, the header of a string or a list, and the recursive encoding of a value.\<close>

fun BE :: "nat \<Rightarrow> bytes" where
  "BE n = (if n = 0 then [] else BE (n div 256) @ [of_nat n])"

declare BE.simps [simp del]

definition rlp_head :: "nat \<Rightarrow> nat \<Rightarrow> bytes" where
  "rlp_head base n =
     (if n \<le> 55 then [of_nat (base + n)] else of_nat (base + 55 + length (BE n)) # BE n)"

definition rlp_str :: "bytes \<Rightarrow> bytes" where
  "rlp_str b = (if length b = 1 \<and> unat (hd b) < 128 then b else rlp_head 0x80 (length b) @ b)"

definition rlp_list :: "bytes \<Rightarrow> bytes" where
  "rlp_list payload = rlp_head 0xC0 (length payload) @ payload"

function (sequential) enc :: "gval \<Rightarrow> rlp_error + bytes"
  and enc_list :: "gval list \<Rightarrow> rlp_error + bytes" where
  "enc (GRawValue b) = Inr b"
| "enc (GBigIntPtr None) = Inr (rlp_str [])"
| "enc (GBigIntPtr (Some i)) =
     (if i < 0 then Inl ErrNegativeBigInt else Inr (rlp_str (BE (nat i))))"
| "enc (GBigInt i) = (if i < 0 then Inl ErrNegativeBigInt else Inr (rlp_str (BE (nat i))))"
| "enc (GPtr k (Some v)) = enc v"
| "enc (GPtr k None) = Inr (if k = ListK then rlp_list [] else rlp_str [])"
| "enc (GUint i) = Inr (rlp_str (BE (unat i)))"
| "enc (GBool b) = Inr (rlp_str (BE (of_bool b)))"
| "enc (GString s) = Inr (rlp_str s)"
| "enc (GBytes b) = Inr (rlp_str b)"
| "enc (GByteArray b) = Inr (rlp_str b)"
| "enc (GTailSlice vs) = enc_list vs"
| "enc (GSlice vs) = map_sum id rlp_list (enc_list vs)"
| "enc (GStruct fs firstOptional) =
     map_sum id rlp_list (enc_list (map snd (structFields fs firstOptional)))"
| "enc (GInterface None) = Inr (rlp_list [])"
| "enc (GInterface (Some v)) = enc v"
| "enc_list [] = Inr []"
| "enc_list (v # vs) =
     (case enc v of Inl e \<Rightarrow> Inl e
      | Inr b \<Rightarrow> (case enc_list vs of Inl e \<Rightarrow> Inl e | Inr bs \<Rightarrow> Inr (b @ bs)))"
  by pat_completeness auto
termination
proof (relation "measure (case_sum size (size_list size))", goal_cases)
  case (5 fs firstOptional)
  then show ?case
    using size_list_map_snd_take [of "lastField fs firstOptional (length fs)" fs]
    by (simp add: structFields_def)
qed auto

subsection \<open>Big-endian integers\<close>

lemma BE_0 [simp]: "BE 0 = []"
  by (simp add: BE.simps)

lemma BE_pos: "0 < n \<Longrightarrow> BE n = BE (n div 256) @ [of_nat n]"
  by (subst BE.simps) simp

lemma BE_eq_Nil [simp]: "BE n = [] \<longleftrightarrow> n = 0"
  by (subst BE.simps) simp

lemma be_nat_BE [simp]: "be_nat (BE n) = n"
proof (induction n rule: BE.induct)
  case (1 n)
  then show ?case
    by (cases "n = 0") (simp_all add: BE_pos be_nat_snoc unat_of_nat)
qed

lemma BE_hd: "0 < n \<Longrightarrow> unat (hd (BE n)) \<noteq> 0"
proof (induction n rule: BE.induct)
  case (1 n)
  show ?case
  proof (cases "n div 256 = 0")
    case True
    then have "n < 256" by simp
    with True "1.prems" show ?thesis
      by (subst BE_pos) (simp_all add: unat_of_nat take_bit_nat_eq_self)
  next
    case False
    then have "unat (hd (BE (n div 256))) \<noteq> 0" using "1.IH" "1.prems" by blast
    then show ?thesis using False "1.prems" by (subst BE_pos) (simp_all add: hd_append)
  qed
qed

lemma BE_length_le: "n < 256 ^ k \<Longrightarrow> length (BE n) \<le> k"
proof (induction k arbitrary: n)
  case (Suc k)
  then have "n div 256 < 256 ^ k" by (simp add: less_mult_imp_div_less mult.commute)
  from Suc.IH [OF this] show ?case by (cases "n = 0") (simp, subst BE_pos, simp_all)
qed simp

text \<open>A byte string without a leading zero is the minimal form of its number.\<close>

lemma be_nat_pos: "bs \<noteq> [] \<Longrightarrow> unat (hd bs) \<noteq> 0 \<Longrightarrow> 0 < be_nat bs"
  by (cases bs) (simp_all add: be_nat_Cons)

lemma BE_be_nat: "bs = [] \<or> unat (hd bs) \<noteq> 0 \<Longrightarrow> BE (be_nat bs) = bs"
proof (induction bs rule: rev_induct)
  case (snoc b bs)
  have len: "be_nat (bs @ [b]) div 256 = be_nat bs" by (simp add: be_nat_snoc)
  have b: "(of_nat (be_nat (bs @ [b])) :: byte) = b"
    by (simp only: be_nat_snoc word_unat_eq_iff unat_of_nat take_bit_eq_mod) simp
  have pos: "0 < be_nat (bs @ [b])" by (rule be_nat_pos) (use snoc.prems in auto)
  have "BE (be_nat bs) = bs"
    by (rule snoc.IH) (use snoc.prems in \<open>simp add: hd_append split: if_splits\<close>)
  then show ?case using BE_pos [OF pos] len b by simp
qed simp

lemma ucast_low_byte: "(ucast (w :: u64) :: byte) = of_nat (unat w)"
  by (simp add: word_unat_eq_iff unat_ucast_low_byte unat_of_nat)

lemma BE_unroll:
  "0 < n div 256 ^ k \<Longrightarrow> BE n = BE (n div 256 ^ k) @ map (\<lambda>j. of_nat (n div 256 ^ j)) (rev [0..<k])"
proof (induction k)
  case (Suc k)
  have step: "n div 256 ^ k div 256 = n div 256 ^ Suc k"
    by (simp only: div_mult2_eq [symmetric] power_Suc2)
  have pos: "0 < n div 256 ^ k"
    by (rule gr0I) (use Suc.prems in \<open>simp only: step [symmetric] div_0 less_irrefl\<close>)
  have "BE (n div 256 ^ k) = BE (n div 256 ^ Suc k) @ [of_nat (n div 256 ^ k)]"
    using BE_pos [OF pos] by (simp only: step)
  moreover have "BE n = BE (n div 256 ^ k) @ map (\<lambda>j. of_nat (n div 256 ^ j)) (rev [0..<k])"
    by (rule Suc.IH [OF pos])
  ultimately show ?case by (simp only: append_assoc) simp
qed simp

lemma BE_digits:
  assumes "256 ^ k \<le> n" and "n < 256 ^ Suc k"
  shows "BE n = map (\<lambda>j. of_nat (n div 256 ^ j)) (rev [0..<Suc k])"
proof -
  have pos: "0 < n div 256 ^ k" using assms(1) by (simp add: div_greater_zero_iff)
  have "n div 256 ^ k div 256 = 0"
    using assms(2) by (simp only: div_mult2_eq [symmetric] power_Suc2 div_less)
  then show ?thesis using BE_unroll [OF pos] BE_pos [OF pos] by simp
qed

lemma BE_word_digits:
  fixes i :: u64
  assumes "2 ^ (8 * k) \<le> unat i" and "unat i < 2 ^ (8 * Suc k)"
  shows "BE (unat i) = map (\<lambda>j. ucast (drop_bit (8 * j) i)) (rev [0..<Suc k])"
proof -
  have pow: "(256 :: nat) ^ j = 2 ^ (8 * j)" for j by (simp only: power_mult) simp
  show ?thesis
    using assms by (subst BE_digits [of k]) (simp_all only: pow ucast_low_byte unat_drop_bit)
qed

lemmas BE_word_digits_cases =
  BE_word_digits [of 0] BE_word_digits [of 1] BE_word_digits [of 2] BE_word_digits [of 3]
  BE_word_digits [of 4] BE_word_digits [of 5] BE_word_digits [of 6] BE_word_digits [of 7]

lemma putint_BE:
  assumes "i \<noteq> 0"
  shows "putint i = BE (unat i)"
proof -
  have "0 < unat i" using assms by (metis unat_eq_0 gr0I)
  then show ?thesis
    using unat_u64_less [of i] BE_word_digits_cases [of i]
    unfolding putint_def word_less_nat_alt
    by (auto simp: upt_rec)
qed

end
