(* ===== verification/Rlp_Encode_Correct.thy ===== *)
theory Rlp_Encode_Correct
  imports Rlp_Encode
begin

text \<open>
  The one-pass encoder computes the RLP encoding. A writer leaves in the buffer a
  \<^emph>\<open>fragment\<close>: string data and list headers whose offsets count from where the
  fragment begins. \<open>wrote w w' bs\<close> says that going from \<open>w\<close> to \<open>w'\<close> appended
  a fragment that \<open>toBytes\<close> merges to \<open>bs\<close>, with the sizes accounted for.
\<close>

subsection \<open>Headers\<close>

lemma unat_of_nat_byte: "n < 256 \<Longrightarrow> unat (of_nat n :: byte) = n"
  by (simp add: unat_of_nat take_bit_nat_eq_self)

lemma of_nat_less_56: "n < 2 ^ 64 \<Longrightarrow> (of_nat n :: u64) < 56 \<longleftrightarrow> n < 56"
  using of_nat_less_u64 [of n 56] by simp

lemma of_nat_eq_0_u64: "n < 2 ^ 64 \<Longrightarrow> (of_nat n :: u64) = 0 \<longleftrightarrow> n = 0"
  using unat_of_nat_small [of n] unat_eq_0 [of "of_nat n :: u64"] by simp

lemma putint_of_nat: "0 < n \<Longrightarrow> n < 2 ^ 64 \<Longrightarrow> putint (of_nat n) = BE n"
  by (subst putint_BE) (simp_all add: of_nat_eq_0_u64 unat_of_nat_small)

lemma ucast_of_nat_byte: "n < 2 ^ 64 \<Longrightarrow> (ucast (of_nat n :: u64) :: byte) = of_nat n"
  by (simp add: ucast_low_byte unat_of_nat_small)

lemma puthead_rlp_head:
  "n < 2 ^ 64 \<Longrightarrow> puthead t (t + 55) (of_nat n) = rlp_head (unat t) n"
  by (simp add: puthead_def rlp_head_def of_nat_less_56 putint_of_nat ucast_of_nat_byte Let_def)

lemma rlp_head_length: "length (rlp_head base n) = (if n \<le> 55 then 1 else 1 + length (BE n))"
  by (simp add: rlp_head_def)

subsection \<open>The size of an integer\<close>

lemma intsize_loop_BE:
  "intsize_loop n i = n + length (BE (unat (drop_bit 8 i)))"
proof (induction n i rule: intsize_loop.induct)
  case (1 n i)
  show ?case
  proof (cases "drop_bit 8 i = 0")
    case True
    then show ?thesis by (subst intsize_loop.simps) (simp add: Let_def)
  next
    case False
    then have "unat (drop_bit 8 i) \<noteq> 0" by (metis unat_eq_0)
    then have "length (BE (unat (drop_bit 8 i))) = Suc (length (BE (unat (drop_bit 8 (drop_bit 8 i)))))"
      by (subst BE_pos) (simp_all add: unat_drop_bit div_mult2_eq [symmetric])
    with False "1.IH" show ?thesis by (subst intsize_loop.simps) (simp add: Let_def)
  qed
qed

lemma intsize_BE: "i \<noteq> 0 \<Longrightarrow> intsize i = length (BE (unat i))"
proof -
  assume "i \<noteq> 0"
  then have "0 < unat i" by (metis unat_eq_0 gr0I)
  then show ?thesis by (subst BE_pos) (simp_all add: intsize_def intsize_loop_BE unat_drop_bit)
qed

lemma intsize_of_nat: "0 < n \<Longrightarrow> n < 2 ^ 64 \<Longrightarrow> intsize (of_nat n) = length (BE n)"
  by (subst intsize_BE) (simp_all add: of_nat_eq_0_u64 unat_of_nat_small)

lemma headsize_rlp_head: "n < 2 ^ 64 \<Longrightarrow> headsize (of_nat n) = length (rlp_head base n)"
  by (auto simp: headsize_def rlp_head_length of_nat_less_56 intsize_of_nat)

subsection \<open>Merging strings and headers\<close>

definition shift :: "nat \<Rightarrow> listhead \<Rightarrow> listhead" where
  "shift k h = h\<lparr>offset := offset h + k\<rparr>"

lemma shift_simps [simp]:
  "offset (shift k h) = offset h + k" "lh_size (shift k h) = lh_size h" "shift 0 h = h"
  "shift j (shift k h) = shift (k + j) h" "listhead_encode (shift k h) = listhead_encode h"
  by (simp_all add: shift_def listhead_encode_def add.assoc)

lemma map_shift_0 [simp]: "map (shift 0) hs = hs"
  by (simp add: map_idI)

definition frag_ok :: "bytes \<Rightarrow> listhead list \<Rightarrow> bool" where
  "frag_ok ds hs \<longleftrightarrow> sorted (map offset hs) \<and> (\<forall>h\<in>set hs. offset h \<le> length ds)"

lemma frag_ok_Nil [simp]: "frag_ok ds []"
  by (simp add: frag_ok_def)

lemma frag_ok_append:
  assumes "frag_ok xs gs" and "frag_ok ys hs"
  shows "frag_ok (xs @ ys) (gs @ map (shift (length xs)) hs)"
proof -
  have "sorted (map (\<lambda>h. offset h + length xs) hs)"
    using assms(2) by (simp add: frag_ok_def sorted_iff_nth_mono_less)
  then show ?thesis
    using assms by (fastforce simp: frag_ok_def sorted_append o_def)
qed

lemma toBytes_loop_skip:
  "toBytes_loop (s @ t) (length s + q) (map (shift (length s)) hs) = toBytes_loop t q hs"
proof (induction hs arbitrary: q)
  case Nil
  then show ?case by simp
next
  case (Cons h hs)
  have "offset h + length s - (length s + q) = offset h - q" by simp
  with Cons [of "q + length (take (offset h - q) (drop q t))"] show ?case
    by (simp add: Let_def add.assoc)
qed

lemma toBytes_loop_append0:
  "p \<le> length s \<Longrightarrow> frag_ok t hs \<Longrightarrow>
   toBytes_loop (s @ t) p (map (shift (length s)) hs) = drop p s @ toBytes_loop t 0 hs"
proof (cases hs)
  case (Cons h hs')
  assume p: "p \<le> length s" and ok: "frag_ok t hs"
  have "offset h \<le> length t" using ok Cons by (simp add: frag_ok_def)
  moreover have "offset h + length s - p = (length s - p) + offset h" using p by simp
  ultimately show ?thesis
    using p Cons toBytes_loop_skip [of s t "offset h" hs'] by (simp add: Let_def)
qed simp

lemma toBytes_loop_append:
  "frag_ok t hs \<Longrightarrow> sorted (p # map offset gs) \<Longrightarrow> \<forall>g\<in>set gs. offset g \<le> length s \<Longrightarrow> p \<le> length s \<Longrightarrow>
   toBytes_loop (s @ t) p (gs @ map (shift (length s)) hs)
     = toBytes_loop s p gs @ toBytes_loop t 0 hs"
proof (induction gs arbitrary: p)
  case Nil
  then show ?case by (simp add: toBytes_loop_append0)
next
  case (Cons g gs)
  have "toBytes_loop (s @ t) (offset g) (gs @ map (shift (length s)) hs)
      = toBytes_loop s (offset g) gs @ toBytes_loop t 0 hs"
    by (rule Cons.IH) (use Cons.prems in auto)
  moreover have "p + min (length s - p) (offset g - p) = offset g"
    using Cons.prems by (simp add: min_def) linarith
  ultimately show ?case using Cons.prems by (simp add: Let_def)
qed

definition wrote :: "encbuf \<Rightarrow> encbuf \<Rightarrow> bytes \<Rightarrow> bool" where
  "wrote w w' bs \<longleftrightarrow>
     (\<exists>ds hs. str w' = str w @ ds \<and> lheads w' = lheads w @ map (shift (length (str w))) hs
        \<and> frag_ok ds hs \<and> toBytes_loop ds 0 hs = bs
        \<and> lhsize w' + length ds = lhsize w + length bs)"

lemma wrote_refl: "wrote w w []"
  unfolding wrote_def by (rule exI [of _ "[]"], rule exI [of _ "[]"]) simp

lemma wrote_Write: "wrote w (encbuf_Write b w) b"
  unfolding wrote_def by (rule exI [of _ b], rule exI [of _ "[]"]) (simp add: encbuf_Write_def)

lemma wrote_trans:
  assumes "wrote w w1 xs" and "wrote w1 w2 ys"
  shows "wrote w w2 (xs @ ys)"
proof -
  from assms(1) obtain ds1 hs1 where 1: "str w1 = str w @ ds1"
      "lheads w1 = lheads w @ map (shift (length (str w))) hs1" "frag_ok ds1 hs1"
      "toBytes_loop ds1 0 hs1 = xs" "lhsize w1 + length ds1 = lhsize w + length xs"
    by (auto simp: wrote_def)
  from assms(2) obtain ds2 hs2 where 2: "str w2 = str w1 @ ds2"
      "lheads w2 = lheads w1 @ map (shift (length (str w1))) hs2" "frag_ok ds2 hs2"
      "toBytes_loop ds2 0 hs2 = ys" "lhsize w2 + length ds2 = lhsize w1 + length ys"
    by (auto simp: wrote_def)
  let ?hs = "hs1 @ map (shift (length ds1)) hs2"
  have "toBytes_loop (ds1 @ ds2) 0 ?hs = xs @ ys"
    using toBytes_loop_append [OF 2(3), of 0 hs1 ds1] 1(3,4) 2(4) by (simp add: frag_ok_def)
  moreover have "lheads w2 = lheads w @ map (shift (length (str w))) ?hs"
    using 1 2 by (simp add: add.commute)
  moreover have "frag_ok (ds1 @ ds2) ?hs" using 1(3) 2(3) by (rule frag_ok_append)
  moreover have "str w2 = str w @ ds1 @ ds2" using 1 2 by simp
  moreover have "lhsize w2 + length (ds1 @ ds2) = lhsize w + length (xs @ ys)"
    using 1(5) 2(5) by simp
  ultimately show ?thesis unfolding wrote_def by blast
qed

lemma wrote_list:
  assumes "encbuf_list w = (index, w1)" and "wrote w1 w2 payload" and "length payload < 2 ^ 63"
  shows "wrote w (listEnd index w2) (rlp_list payload)"
proof -
  from assms(1) have w1: "str w1 = str w" "lhsize w1 = lhsize w" "index = length (lheads w)"
      "lheads w1 = lheads w @ [\<lparr>offset = length (str w), lh_size = lhsize w\<rparr>]"
    by (auto simp: encbuf_list_def Let_def)
  from assms(2) obtain ds hs where w2: "str w2 = str w @ ds"
      "lheads w2 = lheads w1 @ map (shift (length (str w))) hs" "frag_ok ds hs"
      "toBytes_loop ds 0 hs = payload" "lhsize w2 + length ds = lhsize w + length payload"
    by (auto simp: wrote_def w1)
  let ?n = "length payload"
  let ?h = "\<lparr>offset = 0, lh_size = ?n\<rparr>"
  have n: "encbuf_size w2 - (length (str w) + lhsize w) = ?n"
    using w2 by (simp add: encbuf_size_def)
  have lh: "lheads w2 ! index = \<lparr>offset = length (str w), lh_size = lhsize w\<rparr>"
    using w1 w2 by (simp add: nth_append)
  have upd: "(lheads w2)[index := \<lparr>offset = length (str w), lh_size = ?n\<rparr>]
      = lheads w @ map (shift (length (str w))) (?h # hs)"
    using w1 w2 by (simp add: list_update_append shift_def)
  have head: "listhead_encode ?h = rlp_head 0xC0 ?n"
    using puthead_rlp_head [of ?n "0xC0"] assms(3) by (simp add: listhead_encode_def)
  have size: "lhsize (listEnd index w2) = lhsize w2 + length (rlp_head 0xC0 ?n)"
  proof (cases "?n < 56")
    case True
    then show ?thesis by (simp add: listEnd_def Let_def lh n rlp_head_length)
  next
    case False
    then have "intsize (of_nat ?n) = length (BE ?n)"
      by (intro intsize_of_nat) (use assms(3) in auto)
    with False show ?thesis by (simp add: listEnd_def Let_def lh n rlp_head_length)
  qed
  have "frag_ok ds (?h # hs)" using w2(3) by (simp add: frag_ok_def)
  moreover have "toBytes_loop ds 0 (?h # hs) = rlp_list payload"
    using w2(4) head by (simp add: rlp_list_def Let_def)
  moreover have "lhsize (listEnd index w2) + length ds = lhsize w + length (rlp_list payload)"
    using w2(5) size by (simp add: rlp_list_def)
  moreover have "str (listEnd index w2) = str w @ ds" using w2(1) by (simp add: listEnd_def Let_def)
  moreover have "lheads (listEnd index w2) = lheads w @ map (shift (length (str w))) (?h # hs)"
    using upd by (simp add: listEnd_def Let_def lh n)
  ultimately show ?thesis unfolding wrote_def by blast
qed


subsection \<open>Big integers\<close>

lemma BitLen_less: "n < 2 ^ k \<Longrightarrow> BitLen n \<le> k"
proof (induction k arbitrary: n)
  case (Suc k)
  then have "BitLen (n div 2) \<le> k" by (intro Suc.IH) simp
  then show ?case by (subst BitLen.simps) simp
qed (simp add: BitLen.simps)

lemma BitLen_ge: "2 ^ k \<le> n \<Longrightarrow> BitLen n = k + BitLen (n div 2 ^ k)"
proof (induction k arbitrary: n)
  case (Suc k)
  then have "2 ^ k \<le> n div 2" by (simp add: less_eq_div_iff_mult_less_eq mult.commute)
  then have "BitLen (n div 2) = k + BitLen (n div 2 div 2 ^ k)" by (rule Suc.IH)
  moreover have "n div 2 div 2 ^ k = n div 2 ^ Suc k" by (simp add: div_mult2_eq [symmetric])
  moreover have "n \<noteq> 0" using Suc.prems by (intro notI) simp
  ultimately show ?case by (subst BitLen.simps) simp
qed simp

lemma BitLen_pos: "0 < n \<Longrightarrow> 0 < BitLen n"
  by (subst BitLen.simps) simp

lemma BitLen_le_64: "BitLen n \<le> 64 \<longleftrightarrow> n < 2 ^ 64"
proof
  assume le: "BitLen n \<le> 64"
  show "n < 2 ^ 64"
  proof (rule ccontr)
    assume "\<not> n < 2 ^ 64"
    then have ge: "2 ^ 64 \<le> n" by (simp only: not_less)
    then have "0 < BitLen (n div 2 ^ 64)" by (intro BitLen_pos) (simp add: div_greater_zero_iff)
    with BitLen_ge [OF ge] le show False by linarith
  qed
qed (rule BitLen_less)

lemma length_BE: "length (BE n) = (BitLen n + 7) div 8"
proof (induction n rule: BE.induct)
  case (1 n)
  show ?case
  proof (cases "n < 256")
    case True
    then have "BitLen n \<le> 8" using BitLen_less [of n 8] by simp
    moreover have "n div 256 = 0" using True by simp
    ultimately show ?thesis
      using BitLen_pos [of n] by (cases "n = 0") (simp add: BitLen.simps, subst BE_pos, simp_all)
  next
    case False
    then have "BitLen n = 8 + BitLen (n div 256)" using BitLen_ge [of 8 n] by simp
    with False "1.IH" show ?thesis by (subst BE_pos) simp_all
  qed
qed

text \<open>The bytes of a word from the lowest one up.\<close>

fun leb :: "nat \<Rightarrow> u64 \<Rightarrow> bytes" where
  "leb 0 d = []"
| "leb (Suc j) d = ucast d # leb j (drop_bit 8 d)"

lemma length_leb [simp]: "length (leb j d) = j"
  by (induction j arbitrary: d) simp_all

lemma leb_nth: "t < j \<Longrightarrow> leb j d ! t = of_nat (unat d div 256 ^ t)"
proof (induction j arbitrary: d t)
  case (Suc j)
  show ?case
  proof (cases t)
    case 0
    then show ?thesis by simp
  next
    case (Suc t')
    have "leb j (drop_bit 8 d) ! t' = of_nat (unat (drop_bit 8 d) div 256 ^ t')"
      by (rule Suc.IH) (use Suc Suc.prems in simp)
    also have "unat (drop_bit 8 d) div 256 ^ t' = unat d div 256 ^ Suc t'"
      unfolding unat_drop_bit power_Suc div_mult2_eq by simp
    finally show ?thesis unfolding Suc leb.simps nth_Cons_Suc .
  qed
qed simp

lemma leb_digits: "leb j d = map (\<lambda>t. of_nat (unat d div 256 ^ t)) [0..<j]"
  by (rule nth_equalityI) (simp_all add: leb_nth)

lemma putWordBytes_leb:
  "index \<le> length buf \<Longrightarrow>
   putWordBytes j d index buf =
     (index - min j index,
      take (index - min j index) buf @ rev (take (min j index) (leb j d)) @ drop index buf)"
proof (induction j arbitrary: d index buf)
  case (Suc j)
  show ?case
  proof (cases index)
    case (Suc i)
    have "i < length buf" using Suc.prems Suc by simp
    then have "drop i (buf[i := ucast d]) = ucast d # drop index buf"
      using Suc by (simp add: Cons_nth_drop_Suc [symmetric])
    with Suc Suc.IH [of i "buf[i := ucast d]" "drop_bit 8 d"] \<open>i < length buf\<close> show ?thesis by simp
  qed simp
qed simp

lemma putWords_leb:
  "index \<le> length buf \<Longrightarrow> index \<le> 8 * length ds \<Longrightarrow>
   putWords ds index buf = rev (take index (concat (map (leb 8) ds))) @ drop index buf"
proof (induction ds arbitrary: index buf)
  case (Cons d ds)
  define m where "m = min 8 index"
  define buf' where "buf' = take (index - m) buf @ rev (take m (leb 8 d)) @ drop index buf"
  have step: "putWordBytes 8 d index buf = (index - m, buf')"
    using putWordBytes_leb [OF Cons.prems(1), of 8 d] by (simp only: m_def buf'_def)
  have "putWords ds (index - m) buf'
      = rev (take (index - m) (concat (map (leb 8) ds))) @ drop (index - m) buf'"
    by (rule Cons.IH) (use Cons.prems in \<open>auto simp: buf'_def m_def\<close>)
  moreover have "drop (index - m) buf' = rev (take m (leb 8 d)) @ drop index buf"
    using Cons.prems by (simp add: buf'_def)
  moreover have "take index (leb 8 d @ concat (map (leb 8) ds))
      = take m (leb 8 d) @ take (index - m) (concat (map (leb 8) ds))"
    by (simp add: m_def min_def)
  ultimately show ?case by (simp add: step)
qed simp

lemma low_byte_mod: "j \<le> 7 \<Longrightarrow> (of_nat (n mod 2 ^ 64 div 256 ^ j) :: byte) = of_nat (n div 256 ^ j)"
proof -
  assume j: "j \<le> 7"
  have "n mod 2 ^ 64 div 256 ^ j mod 256 = n div 256 ^ j mod 256"
  proof -
    have p: "(2 :: nat) ^ 64 = 256 ^ j * 256 ^ (8 - j)" using j by (simp flip: power_add)
    have q: "(256 :: nat) ^ (8 - j) = 256 * 256 ^ (7 - j)"
      using j by (simp flip: power_Suc)
    have "n mod 2 ^ 64 div 256 ^ j = n div 256 ^ j mod 256 ^ (8 - j)"
      unfolding p by (simp add: mod_mult2_eq)
    then show ?thesis by (simp add: q mod_mult2_eq)
  qed
  then show ?thesis by (simp add: word_unat_eq_iff unat_of_nat take_bit_eq_mod)
qed

lemma big_Bits_leb:
  "concat (map (leb 8) (big_Bits n)) = map (\<lambda>t. of_nat (n div 256 ^ t)) [0..<8 * length (big_Bits n)]"
proof (induction n rule: big_Bits.induct)
  case (1 n)
  show ?case
  proof (cases "n = 0")
    case False
    let ?n' = "n div 2 ^ 64" and ?k = "8 * length (big_Bits (n div 2 ^ 64))"
    have bits: "big_Bits n = of_nat n # big_Bits ?n'" using False by (subst big_Bits.simps) simp
    have "leb 8 (of_nat n) = map (\<lambda>t. of_nat (n div 256 ^ t)) [0..<8]"
    proof -
      have "unat (of_nat n :: u64) = n mod 2 ^ 64" by (simp add: unat_of_nat take_bit_eq_mod)
      then show ?thesis by (simp only: leb_digits) (rule map_cong [OF refl], rule low_byte_mod, simp)
    qed
    moreover have "map (\<lambda>t. of_nat (?n' div 256 ^ t)) [0..<?k]
        = (map (\<lambda>t. of_nat (n div 256 ^ t)) [8..<8 + ?k] :: bytes)"
      by (rule nth_equalityI) (simp_all add: div_mult2_eq [symmetric] power_add)
    moreover have "[0..<8 + ?k] = [0..<8] @ [8..<8 + ?k]" by (rule upt_add_eq_append) simp
    ultimately show ?thesis using "1.IH" False by (simp add: bits)
  qed (simp add: big_Bits.simps)
qed

lemma big_Bits_bound: "n < 256 ^ (8 * length (big_Bits n))"
proof (induction n rule: big_Bits.induct)
  case (1 n)
  show ?case
  proof (cases "n = 0")
    case False
    then have "n div 2 ^ 64 < 256 ^ (8 * length (big_Bits (n div 2 ^ 64)))" using "1.IH" by simp
    then have "n < 256 ^ (8 * length (big_Bits (n div 2 ^ 64))) * 2 ^ 64"
      by (simp add: div_less_iff_less_mult)
    with False show ?thesis by (subst big_Bits.simps) (simp add: power_add mult.commute)
  qed (simp add: big_Bits.simps)
qed

lemma putWords_BE: "0 < n \<Longrightarrow> putWords (big_Bits n) (length (BE n)) (replicate (length (BE n)) 0) = BE n"
proof -
  assume pos: "0 < n"
  let ?k = "length (BE n)"
  have le: "?k \<le> 8 * length (big_Bits n)" by (rule BE_length_le) (rule big_Bits_bound)
  have "putWords (big_Bits n) ?k (replicate ?k 0) = rev (map (\<lambda>t. of_nat (n div 256 ^ t)) [0..<?k])"
    using le by (simp add: putWords_leb big_Bits_leb take_map)
  also have "\<dots> = BE n"
  proof -
    obtain k where k: "?k = Suc k" using pos by (cases ?k) auto
    have "256 ^ k \<le> n"
    proof (rule ccontr)
      assume "\<not> 256 ^ k \<le> n"
      then have "?k \<le> k" by (intro BE_length_le) simp
      with k show False by simp
    qed
    moreover have "n < 256 ^ Suc k" using be_nat_bound [of "BE n"] k by simp
    ultimately show ?thesis using BE_digits [of k n] k by (simp add: rev_map)
  qed
  finally show ?thesis .
qed


subsection \<open>The writers\<close>

lemma Write_Write [simp]: "encbuf_Write b (encbuf_Write a w) = encbuf_Write (a @ b) w"
  by (simp add: encbuf_Write_def)

lemma encodeStringHeader_head:
  "n < 2 ^ 64 \<Longrightarrow> encodeStringHeader n w = encbuf_Write (rlp_head 0x80 n) w"
  by (simp add: encodeStringHeader_def rlp_head_def putint_of_nat Let_def)

lemma byte_le_7F: "b \<le> (0x7F :: byte) \<longleftrightarrow> unat b < 128"
  by (simp add: word_le_nat_alt less_Suc_eq_le flip: less_Suc_eq_le)

lemma encodeString_rlp_str:
  "length b < 2 ^ 64 \<Longrightarrow> encodeString b w = encbuf_Write (rlp_str b) w"
  by (cases b) (auto simp: encodeString_def rlp_str_def encodeStringHeader_head byte_le_7F)

lemma writeString_encodeString: "writeString = encodeString"
  by (intro ext) (simp add: writeString_def encodeString_def)

lemma rlp_str_Nil [simp]: "rlp_str [] = [0x80]"
  by (simp add: rlp_str_def rlp_head_def)

lemma rlp_str_1 [simp]: "rlp_str [1] = [1]"
  by (simp add: rlp_str_def)

lemma rlp_list_Nil [simp]: "rlp_list [] = [0xC0]"
  by (simp add: rlp_list_def rlp_head_def)

lemma writeByteArray_rlp_str:
  "length b < 2 ^ 64 \<Longrightarrow> writeByteArray b w = encbuf_Write (rlp_str b) w"
proof (cases b)
  case (Cons x xs)
  assume "length b < 2 ^ 64"
  with Cons show ?thesis
    by (cases xs)
      (auto simp: writeByteArray_def rlp_str_def encodeStringHeader_head byte_le_7F rlp_head_def)
qed (simp add: writeByteArray_def)

lemma BE_small: "0 < n \<Longrightarrow> n < 256 \<Longrightarrow> BE n = [of_nat n]"
  by (subst BE_pos) simp_all

lemma encodeUint_rlp_str: "encodeUint i w = encbuf_Write (rlp_str (BE (unat i))) w"
proof -
  have len: "length (BE (unat i)) \<le> 8"
    using BE_length_le [of "unat i" 8] unat_u64_less [of i] by simp
  consider "i = 0" | "i \<noteq> 0" "unat i < 128" | "\<not> unat i < 128" by blast
  then show ?thesis
  proof cases
    case 1
    then show ?thesis by (simp add: encodeUint_def)
  next
    case 2
    then have "0 < unat i" by (metis unat_eq_0 gr0I)
    with 2 have "BE (unat i) = [ucast i]" by (simp add: BE_small)
    with 2 show ?thesis
      by (simp add: encodeUint_def rlp_str_def word_less_nat_alt unat_ucast_low_byte)
  next
    case 3
    then have "i \<noteq> 0" by auto
    have "\<not> (length (BE (unat i)) = 1 \<and> unat (hd (BE (unat i))) < 128)"
    proof
      assume a: "length (BE (unat i)) = 1 \<and> unat (hd (BE (unat i))) < 128"
      then obtain b where b: "BE (unat i) = [b]" by (auto simp: length_Suc_conv)
      then have "unat i = unat b" using be_nat_BE [of "unat i"] by (simp add: be_nat_Cons)
      with a b 3 show False by simp
    qed
    with 3 len \<open>i \<noteq> 0\<close> show ?thesis
      by (auto simp: encodeUint_def rlp_str_def rlp_head_def word_less_nat_alt putint_BE Let_def)
  qed
qed

lemma writeBigInt_rlp_str:
  assumes "0 \<le> i" and "length (BE (nat i)) < 2 ^ 63"
  shows "writeBigInt i w = Inr (encbuf_Write (rlp_str (BE (nat i))) w)"
proof (cases "nat i < 2 ^ 64")
  case True
  then have "unat (of_nat (nat i) :: u64) = nat i" by (rule unat_of_nat_small)
  with True assms(1) show ?thesis
    by (simp add: writeBigInt_def BitLen_le_64 encodeUint_rlp_str)
next
  case False
  let ?n = "nat i" and ?k = "length (BE (nat i))"
  have "1 < ?k"
  proof (rule ccontr)
    assume "\<not> 1 < ?k"
    then have "?n < 256 ^ 1" using be_nat_bound [of "BE ?n"]
      by (metis be_nat_BE le_less_trans less_le_trans not_less one_le_numeral power_increasing)
    with False show False by simp
  qed
  then have "0 < ?n" by (cases "?n = 0") auto
  have "writeBigInt i w = Inr (encbuf_Write (BE ?n) (encodeStringHeader ?k w))"
    using False assms(1) putWords_BE [OF \<open>0 < ?n\<close>]
    by (simp add: writeBigInt_def BitLen_le_64 Let_def flip: length_BE)
  with \<open>1 < ?k\<close> assms(2) show ?thesis
    by (simp add: encodeStringHeader_head rlp_str_def)
qed

lemma writeBigInt_Inl: "i < 0 \<Longrightarrow> writeBigInt i w = Inl ErrNegativeBigInt"
  by (simp add: writeBigInt_def)


text \<open>What a writer does to the buffer, against the encoding of its value.\<close>

definition writes :: "(rlp_error + encbuf) \<Rightarrow> encbuf \<Rightarrow> (rlp_error + bytes) \<Rightarrow> bool" where
  "writes r w e = (case e of
       Inl err \<Rightarrow> r = Inl err
     | Inr bs \<Rightarrow> (\<exists>w'. r = Inr w' \<and> (length bs < 2 ^ 63 \<longrightarrow> wrote w w' bs)))"

lemma writes_WriteI:
  "(length bs < 2 ^ 63 \<Longrightarrow> w' = encbuf_Write bs w) \<Longrightarrow> writes (Inr w') w (Inr bs)"
  by (simp add: writes_def wrote_Write)

lemma writes_list:
  assumes "encbuf_list w = (index, w1)" and "writes r w1 e"
  shows "writes (case r of Inl err \<Rightarrow> Inl err | Inr w2 \<Rightarrow> Inr (listEnd index w2)) w
     (map_sum id rlp_list e)"
proof (cases e)
  case (Inr bs)
  with assms(2) obtain w2 where w2: "r = Inr w2" "length bs < 2 ^ 63 \<longrightarrow> wrote w1 w2 bs"
    by (auto simp: writes_def)
  have "wrote w (listEnd index w2) (rlp_list bs)" if "length (rlp_list bs) < 2 ^ 63"
    by (rule wrote_list [OF assms(1)]) (use that w2 in \<open>auto simp: rlp_list_def\<close>)
  with Inr w2 show ?thesis by (simp add: writes_def)
qed (use assms in \<open>simp add: writes_def\<close>)

lemma rlp_str_length: "length b \<le> length (rlp_str b)"
  by (simp add: rlp_str_def)

lemma writes_str: "(length b < 2 ^ 63 \<Longrightarrow> w' = encbuf_Write (rlp_str b) w) \<Longrightarrow>
   writes (Inr w') w (Inr (rlp_str b))"
  using rlp_str_length [of b] by (intro writes_WriteI) simp

lemma writes_BigInt:
  "writes (writeBigInt i w) w
     (if i < 0 then Inl ErrNegativeBigInt else Inr (rlp_str (BE (nat i))))"
proof (cases "i < 0")
  case False
  then obtain w' where "writeBigInt i w = Inr w'" by (cases "BitLen (nat i) \<le> 64") (auto simp: writeBigInt_def Let_def)
  moreover have "writes (Inr w') w (Inr (rlp_str (BE (nat i))))"
    by (rule writes_str) (use calculation False writeBigInt_rlp_str [of i w] in simp)
  ultimately show ?thesis using False by simp
qed (simp add: writes_def writeBigInt_Inl)

lemma BE_of_bool [simp]: "BE (of_bool b) = (if b then [1] else [])"
  by (simp add: BE_small)

lemma writeVal_writes:
  "writes (writeVal v w) w (enc v)"
  "writes (writeElems vs w) w (enc_list vs)"
proof (induction v and vs arbitrary: w and w rule: enc_enc_list.induct)
  case (13 vs)
  show ?case
  proof (cases "vs = []")
    case True
    then show ?thesis by (simp add: writes_WriteI)
  next
    case False
    obtain index w1 where "encbuf_list w = (index, w1)" by fastforce
    with False writes_list [OF this 13] show ?thesis by simp
  qed
next
  case (14 fs firstOptional)
  obtain index w1 where "encbuf_list w = (index, w1)" by fastforce
  with writes_list [OF this 14] show ?case by simp
next
  case 17
  then show ?case by (simp add: writes_def wrote_refl)
next
  case (18 v vs)
  note v = 18(1) [of w]
  show ?case
  proof (cases "enc v")
    case (Inr b)
    with v obtain w1 where w1: "writeVal v w = Inr w1" "length b < 2 ^ 63 \<longrightarrow> wrote w w1 b"
      by (auto simp: writes_def)
    from 18(2) [OF Inr, of w1] w1 Inr show ?thesis
      by (auto simp: writes_def intro: wrote_trans split: sum.splits)
  qed (use v in \<open>simp add: writes_def\<close>)
qed (auto simp: writes_WriteI writes_BigInt writeBigIntPtr_def writeBool_def nilEncoding_def
    encodeUint_rlp_str writeString_encodeString encodeString_rlp_str writeByteArray_rlp_str
    split: option.splits intro!: writes_str)

lemma enc_list_map: "enc_list vs = Inr b \<longleftrightarrow> (\<exists>bs. map enc vs = map Inr bs \<and> b = concat bs)"
proof (induction vs arbitrary: b)
  case (Cons v vs)
  show ?case
  proof (cases "enc v")
    case (Inr c)
    show ?thesis
    proof (cases "enc_list vs")
      case (Inr d)
      with \<open>enc v = Inr c\<close> Cons [of d] show ?thesis
        by (auto simp: Cons_eq_map_conv)
    next
      case (Inl e)
      then have "\<not> (\<exists>bs. map enc vs = map Inr bs)" using Cons by auto
      with Inl \<open>enc v = Inr c\<close> show ?thesis by (auto simp: Cons_eq_map_conv)
    qed
  qed (auto simp: Cons_eq_map_conv)
qed auto

lemma rlp_head_length_le: "n < 2 ^ 32 \<Longrightarrow> length (rlp_head k n) \<le> 5"
  using BE_length_le [of n 4] by (simp add: rlp_head_length)

lemma rlp_str_length_le: "length b < 2 ^ 32 \<Longrightarrow> length (rlp_str b) \<le> length b + 5"
  using rlp_head_length_le [of "length b" "0x80"] by (simp add: rlp_str_def)

lemma EncodeToBytes_enc:
  assumes "\<forall>bs. enc v = Inr bs \<longrightarrow> length bs < 2 ^ 63"
  shows "EncodeToBytes v = enc v"
proof -
  let ?w = "encbuf_reset \<lparr>str = [], lheads = [], lhsize = 0\<rparr>"
  have "writes (writeVal v ?w) ?w (enc v)" by (rule writeVal_writes)
  with assms show ?thesis
    by (auto simp: EncodeToBytes_def writes_def wrote_def toBytes_def encbuf_reset_def
        split: sum.splits)
qed

text \<open>C1: \<open>EncodeToBytes\<close> computes the recursive RLP encoding of every serialisable
  value (or returns its error), as long as the encoding fits a Go slice: the single pass over
  an \<open>encbuf\<close> with patched list headers is equivalent to the specification.\<close>

theorem EncodeToBytes_correct:
  assumes "\<forall>bs. enc v = Inr bs \<longrightarrow> length bs < 2 ^ 63"
  shows "EncodeToBytes v = enc v"
  using assms by (rule EncodeToBytes_enc)

theorem EncodeToBytes_correct_witness:
  "EncodeToBytes (GSlice [GUint 5, GString [0x80], GBigInt 1024, GInterface None])
    = Inr [0xC7, 5, 0x81, 0x80, 0x82, 4, 0, 0xC0]"
proof -
  have BE: "BE 5 = [5]" "BE 1024 = [4, 0]"
    by (simp_all add: BE_small, subst BE_pos, simp_all add: BE_small)
  then have "enc (GSlice [GUint 5, GString [0x80], GBigInt 1024, GInterface None])
    = Inr [0xC7, 5, 0x81, 0x80, 0x82, 4, 0, 0xC0]"
    by (simp add: rlp_str_def rlp_list_def rlp_head_def)
  then show ?thesis using EncodeToBytes_correct by simp
qed

end
