(* ===== verification/Rlp_Raw.thy ===== *)
theory Rlp_Raw
  imports Rlp_Encode_Correct
begin

text \<open>
  \<open>rlp/raw.go\<close> and \<open>rlp/iterator.go\<close>: splitting encoded values without decoding
  them. The lemmas show that \<open>Split\<close> accepts exactly the canonical encodings: what the
  encoder writes is split into its content and the rest, and whatever is split was the
  encoder's output.
\<close>

subsection \<open>Sizes\<close>

definition ListSize :: "u64 \<Rightarrow> u64" where
  "ListSize contentSize = of_nat (headsize contentSize) + contentSize"

definition IntSize :: "u64 \<Rightarrow> nat" where
  "IntSize x = (if x < 0x80 then 1 else 1 + intsize x)"

text \<open>\<open>uint64(b[i]) << k\<close>.\<close>

abbreviation byte_at :: "bytes \<Rightarrow> nat \<Rightarrow> nat \<Rightarrow> u64" where
  "byte_at b i k \<equiv> push_bit k (ucast (b ! i))"

definition readSize :: "bytes \<Rightarrow> byte \<Rightarrow> rlp_error + u64" where
  "readSize b slen =
     (if unat slen > length b then Inl ErrUnexpectedEOF
      else let s =
        (if slen = 1 then byte_at b 0 0
         else if slen = 2 then byte_at b 0 8 OR byte_at b 1 0
         else if slen = 3 then byte_at b 0 16 OR byte_at b 1 8 OR byte_at b 2 0
         else if slen = 4 then byte_at b 0 24 OR byte_at b 1 16 OR byte_at b 2 8 OR byte_at b 3 0
         else if slen = 5 then
           byte_at b 0 32 OR byte_at b 1 24 OR byte_at b 2 16 OR byte_at b 3 8 OR byte_at b 4 0
         else if slen = 6 then
           byte_at b 0 40 OR byte_at b 1 32 OR byte_at b 2 24 OR byte_at b 3 16 OR byte_at b 4 8
             OR byte_at b 5 0
         else if slen = 7 then
           byte_at b 0 48 OR byte_at b 1 40 OR byte_at b 2 32 OR byte_at b 3 24 OR byte_at b 4 16
             OR byte_at b 5 8 OR byte_at b 6 0
         else if slen = 8 then
           byte_at b 0 56 OR byte_at b 1 48 OR byte_at b 2 40 OR byte_at b 3 32 OR byte_at b 4 24
             OR byte_at b 5 16 OR byte_at b 6 8 OR byte_at b 7 0
         else 0)
      in if s < 56 \<or> b ! 0 = 0 then Inl ErrCanonSize else Inr s)"

subsection \<open>Splitting\<close>

text \<open>The last check compares with \<open>uint64(len(buf)) - tagsize\<close>, an unsigned
  subtraction.\<close>

definition checkSize :: "bytes \<Rightarrow> Kind \<Rightarrow> u64 \<Rightarrow> u64 \<Rightarrow> rlp_error + (Kind \<times> u64 \<times> u64)" where
  "checkSize buf k tagsize contentsize =
     (if contentsize > of_nat (length buf) - tagsize then Inl ErrValueTooLarge
      else Inr (k, tagsize, contentsize))"

definition raw_readKind :: "bytes \<Rightarrow> rlp_error + (Kind \<times> u64 \<times> u64)" where
  "raw_readKind buf =
     (if length buf = 0 then Inl ErrUnexpectedEOF
      else let b = buf ! 0 in
        if b < 0x80 then checkSize buf ByteK 0 1
        else if b < 0xB8 then
          (let contentsize = ucast (b - 0x80) :: u64 in
           if contentsize = 1 \<and> length buf > 1 \<and> buf ! 1 < 128 then Inl ErrCanonSize
           else checkSize buf StringK 1 contentsize)
        else if b < 0xC0 then
          (case readSize (drop 1 buf) (b - 0xB7) of Inl e \<Rightarrow> Inl e
           | Inr contentsize \<Rightarrow> checkSize buf StringK (ucast (b - 0xB7) + 1) contentsize)
        else if b < 0xF8 then checkSize buf ListK 1 (ucast (b - 0xC0))
        else
          (case readSize (drop 1 buf) (b - 0xF7) of Inl e \<Rightarrow> Inl e
           | Inr contentsize \<Rightarrow> checkSize buf ListK (ucast (b - 0xF7) + 1) contentsize))"

definition Split :: "bytes \<Rightarrow> rlp_error + (Kind \<times> bytes \<times> bytes)" where
  "Split b =
     (case raw_readKind b of Inl e \<Rightarrow> Inl e
      | Inr (k, ts, cs) \<Rightarrow> Inr (k, take (unat cs) (drop (unat ts) b), drop (unat (ts + cs)) b))"

definition SplitString :: "bytes \<Rightarrow> rlp_error + (bytes \<times> bytes)" where
  "SplitString b =
     (case Split b of Inl e \<Rightarrow> Inl e
      | Inr (k, content, rest) \<Rightarrow> if k = ListK then Inl ErrExpectedString else Inr (content, rest))"

definition SplitUint64 :: "bytes \<Rightarrow> rlp_error + (u64 \<times> bytes)" where
  "SplitUint64 b =
     (case SplitString b of Inl e \<Rightarrow> Inl e
      | Inr (content, rest) \<Rightarrow>
          if length content = 0 then Inr (0, rest)
          else if length content = 1 then
            (if content ! 0 = 0 then Inl ErrCanonInt else Inr (ucast (content ! 0), rest))
          else if length content > 8 then Inl ErrUintOverflow
          else (case readSize content (of_nat (length content)) of
                  Inl e \<Rightarrow> Inl ErrCanonInt | Inr x \<Rightarrow> Inr (x, rest)))"

definition SplitList :: "bytes \<Rightarrow> rlp_error + (bytes \<times> bytes)" where
  "SplitList b =
     (case Split b of Inl e \<Rightarrow> Inl e
      | Inr (k, content, rest) \<Rightarrow> if k \<noteq> ListK then Inl ErrExpectedList else Inr (content, rest))"

definition AppendUint64 :: "bytes \<Rightarrow> u64 \<Rightarrow> bytes" where
  "AppendUint64 b i =
     (if i = 0 then b @ [0x80]
      else if i < 128 then b @ [ucast i]
      else if i < 2 ^ 8 then b @ [0x81, ucast i]
      else if i < 2 ^ 16 then b @ [0x82, ucast (drop_bit 8 i), ucast i]
      else if i < 2 ^ 24 then b @ [0x83, ucast (drop_bit 16 i), ucast (drop_bit 8 i), ucast i]
      else if i < 2 ^ 32 then
        b @ [0x84, ucast (drop_bit 24 i), ucast (drop_bit 16 i), ucast (drop_bit 8 i), ucast i]
      else if i < 2 ^ 40 then
        b @ [0x85, ucast (drop_bit 32 i), ucast (drop_bit 24 i), ucast (drop_bit 16 i),
             ucast (drop_bit 8 i), ucast i]
      else if i < 2 ^ 48 then
        b @ [0x86, ucast (drop_bit 40 i), ucast (drop_bit 32 i), ucast (drop_bit 24 i),
             ucast (drop_bit 16 i), ucast (drop_bit 8 i), ucast i]
      else if i < 2 ^ 56 then
        b @ [0x87, ucast (drop_bit 48 i), ucast (drop_bit 40 i), ucast (drop_bit 32 i),
             ucast (drop_bit 24 i), ucast (drop_bit 16 i), ucast (drop_bit 8 i), ucast i]
      else
        b @ [0x88, ucast (drop_bit 56 i), ucast (drop_bit 48 i), ucast (drop_bit 40 i),
             ucast (drop_bit 32 i), ucast (drop_bit 24 i), ucast (drop_bit 16 i),
             ucast (drop_bit 8 i), ucast i])"

subsection \<open>Reading big-endian sizes\<close>

lemma or_byte:
  assumes "unat x < 2 ^ 56"
  shows "unat (push_bit 8 x OR ucast (b :: byte) :: u64) = 256 * unat x + unat b"
proof -
  have "push_bit 8 x AND ucast b = 0"
    by (rule bit_word_eqI) (auto simp: bit_simps dest: bit_imp_le_length)
  then have "push_bit 8 x OR ucast b = push_bit 8 x + ucast b"
    by (simp add: disjunctive_add_eq_or)
  moreover have "unat (push_bit 8 x) = 256 * unat x"
    using assms by (simp add: push_bit_eq_mult unat_word_ariths mult.commute)
  moreover have "256 * unat x + unat b < 2 ^ 64"
  proof -
    have "unat x < 72057594037927936" using assms by simp
    then have "256 * unat x + unat b < 18446744073709551616"
      using unat_byte_less [of b] by linarith
    then show ?thesis by simp
  qed
  ultimately show ?thesis by (simp add: unat_word_ariths)
qed

definition or_bytes :: "bytes \<Rightarrow> u64" where
  "or_bytes bs = foldl (\<lambda>a b. push_bit 8 a OR ucast b) 0 bs"

lemma unat_or_bytes: "length bs \<le> 8 \<Longrightarrow> unat (or_bytes bs) = be_nat bs"
proof (induction bs rule: rev_induct)
  case (snoc b bs)
  have "be_nat bs < 256 ^ length bs" by (rule be_nat_bound)
  also have "\<dots> \<le> (256 :: nat) ^ 7" using snoc.prems by (intro power_increasing) simp_all
  finally have "unat (or_bytes bs) < 2 ^ 56" using snoc by simp
  with snoc or_byte [of "or_bytes bs" b] show ?case by (simp add: or_bytes_def be_nat_snoc)
qed (simp add: or_bytes_def)

lemma take_nths: "k \<le> length b \<Longrightarrow> take k b = map ((!) b) [0..<k]"
  by (rule nth_equalityI) simp_all

lemma take_explicit:
  "1 \<le> length b \<Longrightarrow> take 1 b = [b ! 0]"
  "2 \<le> length b \<Longrightarrow> take 2 b = [b ! 0, b ! 1]"
  "3 \<le> length b \<Longrightarrow> take 3 b = [b ! 0, b ! 1, b ! 2]"
  "4 \<le> length b \<Longrightarrow> take 4 b = [b ! 0, b ! 1, b ! 2, b ! 3]"
  "5 \<le> length b \<Longrightarrow> take 5 b = [b ! 0, b ! 1, b ! 2, b ! 3, b ! 4]"
  "6 \<le> length b \<Longrightarrow> take 6 b = [b ! 0, b ! 1, b ! 2, b ! 3, b ! 4, b ! 5]"
  "7 \<le> length b \<Longrightarrow> take 7 b = [b ! 0, b ! 1, b ! 2, b ! 3, b ! 4, b ! 5, b ! 6]"
  "8 \<le> length b \<Longrightarrow> take 8 b = [b ! 0, b ! 1, b ! 2, b ! 3, b ! 4, b ! 5, b ! 6, b ! 7]"
  by (simp_all add: take_nths upt_rec eval_nat_numeral)

lemma or_bytes_explicit:
  "or_bytes [a] =
     push_bit 0 (ucast a)"
  "or_bytes [a, b] =
     push_bit 8 (ucast a) OR push_bit 0 (ucast b)"
  "or_bytes [a, b, c] =
     push_bit 16 (ucast a) OR push_bit 8 (ucast b) OR push_bit 0 (ucast c)"
  "or_bytes [a, b, c, d] =
     push_bit 24 (ucast a) OR push_bit 16 (ucast b) OR push_bit 8 (ucast c) OR push_bit 0 (ucast d)"
  "or_bytes [a, b, c, d, e] =
     push_bit 32 (ucast a) OR push_bit 24 (ucast b) OR push_bit 16 (ucast c) OR push_bit 8 (ucast d) OR push_bit 0 (ucast e)"
  "or_bytes [a, b, c, d, e, f] =
     push_bit 40 (ucast a) OR push_bit 32 (ucast b) OR push_bit 24 (ucast c) OR push_bit 16 (ucast d) OR push_bit 8 (ucast e) OR push_bit 0 (ucast f)"
  "or_bytes [a, b, c, d, e, f, g] =
     push_bit 48 (ucast a) OR push_bit 40 (ucast b) OR push_bit 32 (ucast c) OR push_bit 24 (ucast d) OR push_bit 16 (ucast e) OR push_bit 8 (ucast f) OR push_bit 0 (ucast g)"
  "or_bytes [a, b, c, d, e, f, g, h] =
     push_bit 56 (ucast a) OR push_bit 48 (ucast b) OR push_bit 40 (ucast c) OR push_bit 32 (ucast d) OR push_bit 24 (ucast e) OR push_bit 16 (ucast f) OR push_bit 8 (ucast g) OR push_bit 0 (ucast h)"
  by (simp_all add: or_bytes_def push_bit_or or.assoc)

lemma readSize_eq:
  assumes "1 \<le> k" and "k \<le> 8"
  shows "readSize b (of_nat k) =
    (if length b < k then Inl ErrUnexpectedEOF
     else if be_nat (take k b) < 56 \<or> b ! 0 = 0 then Inl ErrCanonSize
     else Inr (of_nat (be_nat (take k b))))"
proof (cases "length b < k")
  case True
  with assms show ?thesis by (simp add: readSize_def unat_of_nat take_bit_nat_eq_self)
next
  case False
  let ?s = "or_bytes (take k b)"
  have be: "unat ?s = be_nat (take k b)" using assms by (intro unat_or_bytes) simp
  have s: "?s < 56 \<longleftrightarrow> be_nat (take k b) < 56" "?s = of_nat (be_nat (take k b))"
    by (simp_all add: word_less_nat_alt be flip: be)
  have "readSize b (of_nat k) = (if ?s < 56 \<or> b ! 0 = 0 then Inl ErrCanonSize else Inr ?s)"
  proof -
    from assms consider "k = 1" | "k = 2" | "k = 3" | "k = 4" | "k = 5" | "k = 6" | "k = 7" | "k = 8"
      by linarith
    then show ?thesis
      using False
      by cases (simp_all only: readSize_def take_explicit or_bytes_explicit not_less,
          auto simp add: Let_def)
  qed
  with False s show ?thesis by simp
qed


subsection \<open>Splitting the encoder's output\<close>

lemma ucast_of_nat_u64: "n < 256 \<Longrightarrow> (ucast (of_nat n :: byte) :: u64) = of_nat n"
  by (simp add: word_unat_eq_iff unat_of_nat_byte unat_of_nat_small)

lemma checkSize_of_nat:
  assumes "length buf < 2 ^ 63" and "t \<le> length buf" and "c < 2 ^ 64"
  shows "checkSize buf k (of_nat t) (of_nat c) =
    (if length buf < t + c then Inl ErrValueTooLarge else Inr (k, of_nat t, of_nat c))"
proof -
  have "of_nat (length buf) - of_nat t = (of_nat (length buf - t) :: u64)"
    using assms(2) by (simp add: of_nat_diff)
  moreover have "(of_nat (length buf - t) :: u64) < of_nat c \<longleftrightarrow> length buf - t < c"
    using assms by (intro of_nat_less_u64) simp_all
  ultimately show ?thesis using assms(2) by (auto simp: checkSize_def)
qed

definition kind_base :: "Kind \<Rightarrow> nat" where
  "kind_base k = (if k = ListK then 0xC0 else 0x80)"

lemma BE_length_u64: "n < 2 ^ 64 \<Longrightarrow> length (BE n) \<le> 8"
  using BE_length_le [of n 8] by simp

lemma readSize_BE:
  assumes "56 \<le> n" and "n < 2 ^ 64"
  shows "readSize (BE n @ body) (of_nat (length (BE n))) = Inr (of_nat n)"
proof -
  have "0 < n" using assms by simp
  then have ne: "BE n \<noteq> []" by simp
  then have "1 \<le> length (BE n)" by (cases "BE n") simp_all
  moreover have "length (BE n) \<le> 8" using assms(2) by (rule BE_length_u64)
  moreover have "(BE n @ body) ! 0 \<noteq> 0"
    using BE_hd [OF \<open>0 < n\<close>] ne by (cases "BE n") auto
  ultimately show ?thesis using assms(1) by (simp add: readSize_eq)
qed

lemma raw_readKind_head:
  assumes "k = StringK \<or> k = ListK" and "n < 2 ^ 64"
    and "k = StringK \<Longrightarrow> n = 1 \<Longrightarrow> body \<noteq> [] \<Longrightarrow> 128 \<le> unat (hd body)"
  shows "raw_readKind (rlp_head (kind_base k) n @ body) =
    checkSize (rlp_head (kind_base k) n @ body) k (of_nat (length (rlp_head (kind_base k) n))) (of_nat n)"
proof (cases "n \<le> 55")
  case True
  have u: "unat (of_nat (kind_base k + n) :: byte) = kind_base k + n"
    using True by (intro unat_of_nat_byte) (simp add: kind_base_def)
  have sub: "of_nat (kind_base k + n) - of_nat (kind_base k) = (of_nat n :: byte)" by simp
  have one: "(of_nat n :: u64) = 1 \<longleftrightarrow> n = 1"
    using True by (simp add: word_unat_eq_iff unat_of_nat_small)
  show ?thesis
    using True assms u sub one
    by (cases body)
      (auto simp: raw_readKind_def rlp_head_def word_less_nat_alt Let_def kind_base_def
        ucast_of_nat_u64)
next
  case False
  then have n: "56 \<le> n" by simp
  let ?k = "length (BE n)"
  have k8: "?k \<le> 8" using assms(2) by (rule BE_length_u64)
  have k1: "1 \<le> ?k" using n by (cases "BE n") auto
  have u: "unat (of_nat (kind_base k + 55 + ?k) :: byte) = kind_base k + 55 + ?k"
    using k8 by (intro unat_of_nat_byte) (simp add: kind_base_def)
  have sub: "of_nat (kind_base k + 55 + ?k) - of_nat (kind_base k + 55) = (of_nat ?k :: byte)"
    by simp
  have hs: "ucast (of_nat ?k :: byte) + 1 = (of_nat (Suc ?k) :: u64)"
    using k8 by (simp add: ucast_of_nat_u64)
  show ?thesis
    using False assms(1) u sub k8 k1 readSize_BE [OF n assms(2), of body] hs
    by (auto simp: raw_readKind_def rlp_head_def word_less_nat_alt Let_def kind_base_def)
      (simp_all add: add.commute)
qed


text \<open>The encoding of an item of a given kind: a list around a payload, a string or a
  single byte that stands for itself.\<close>

definition item :: "Kind \<Rightarrow> bytes \<Rightarrow> bytes" where
  "item k c = (if k = ListK then rlp_list c else rlp_str c)"

definition kind_ok :: "Kind \<Rightarrow> bytes \<Rightarrow> bool" where
  "kind_ok k c \<longleftrightarrow> k = ListK \<or> (k = ByteK \<longleftrightarrow> length c = 1 \<and> unat (hd c) < 128)"

lemma item_not_Nil [simp]: "item k c \<noteq> []"
  by (auto simp: item_def rlp_list_def rlp_str_def rlp_head_def)

lemma item_Byte: "kind_ok ByteK c \<Longrightarrow> item ByteK c = c \<and> length c = 1 \<and> unat (hd c) < 128"
  by (simp add: item_def kind_ok_def rlp_str_def)

lemma item_head:
  "kind_ok k c \<Longrightarrow> k \<noteq> ByteK \<Longrightarrow> item k c = rlp_head (kind_base k) (length c) @ c"
  by (cases k) (auto simp: item_def kind_ok_def kind_base_def rlp_str_def rlp_list_def)

lemma Split_item:
  assumes "kind_ok k c" and "length (item k c @ rest) < 2 ^ 63"
  shows "Split (item k c @ rest) = Inr (k, c, rest)"
proof (cases "k = ByteK")
  case True
  then obtain x where x: "c = [x]" "unat x < 128" and it: "item k c = c"
    using item_Byte [of c] assms(1) by (auto simp: length_Suc_conv)
  have "checkSize (x # rest) ByteK (of_nat 0) (of_nat 1) = Inr (ByteK, of_nat 0, of_nat 1)"
    using assms(2) x it by (subst checkSize_of_nat) simp_all
  then show ?thesis using True x it by (simp add: Split_def raw_readKind_def word_less_nat_alt)
next
  case False
  let ?h = "rlp_head (kind_base k) (length c)"
  have it: "item k c @ rest = ?h @ c @ rest" using assms(1) False by (simp add: item_head)
  have "128 \<le> unat (hd (c @ rest))" if "k = StringK" "length c = 1"
    using that assms(1) by (cases c) (auto simp: kind_ok_def)
  moreover have "k = StringK \<or> k = ListK" using False by (cases k) simp_all
  ultimately have "raw_readKind (?h @ c @ rest) = checkSize (?h @ c @ rest) k (of_nat (length ?h)) (of_nat (length c))"
    using assms(2) it by (intro raw_readKind_head) simp_all
  also have "\<dots> = Inr (k, of_nat (length ?h), of_nat (length c))"
    using assms(2) it by (subst checkSize_of_nat) simp_all
  finally show ?thesis
    using assms(2) it
    by (simp add: Split_def unat_of_nat_small flip: of_nat_add)
qed

lemma checkSize_Inr:
  assumes "length buf < 2 ^ 63" and "unat ts \<le> length buf"
  shows "checkSize buf k ts cs = Inr r \<longleftrightarrow> r = (k, ts, cs) \<and> unat ts + unat cs \<le> length buf"
  using checkSize_of_nat [OF assms, of "unat cs" k] unat_u64_less [of cs] by auto

lemma readSize_Inr:
  assumes "readSize b (of_nat k) = Inr cs" and "1 \<le> k" and "k \<le> 8"
  shows "k \<le> length b \<and> BE (unat cs) = take k b \<and> 56 \<le> unat cs"
proof -
  have k: "k \<le> length b" and be: "56 \<le> be_nat (take k b)" "b ! 0 \<noteq> 0"
    and cs: "cs = of_nat (be_nat (take k b))"
    using assms by (auto simp: readSize_eq split: if_splits)
  have "be_nat (take k b) < 256 ^ k" using be_nat_bound [of "take k b"] k by simp
  also have "\<dots> \<le> 256 ^ 8" using assms(3) by (intro power_increasing) simp_all
  finally have "unat cs = be_nat (take k b)" using cs by (simp add: unat_of_nat_small)
  moreover have "unat (hd (take k b)) \<noteq> 0"
    using be(2) k assms(2) by (cases b) (auto simp: unat_eq_0)
  ultimately show ?thesis using BE_be_nat [of "take k b"] k be by simp
qed

lemma readSize_head:
  assumes "readSize b (of_nat k) = Inr cs" and "1 \<le> k" and "k \<le> 8"
  shows "rlp_head base (unat cs) = of_nat (base + 55 + k) # take k b"
  using readSize_Inr [OF assms] by (simp add: rlp_head_def min_absorb2)


lemma byte_offset:
  assumes "a \<le> unat (x :: byte)"
  shows "\<exists>k. x = of_nat (a + k) \<and> x - of_nat a = of_nat k \<and> unat x = a + k \<and> k < 256"
proof (intro exI conjI)
  show u: "unat x = a + (unat x - a)" using assms by simp
  have "x = of_nat (unat x)" by simp
  also have "\<dots> = of_nat (a + (unat x - a))" using u by simp
  finally show x: "x = of_nat (a + (unat x - a))" .
  have "of_nat (a + (unat x - a)) - of_nat a = (of_nat (unat x - a) :: byte)"
    unfolding of_nat_add by (rule add_diff_cancel_left')
  then show "x - of_nat a = of_nat (unat x - a)" using x by metis
  show "unat x - a < 256" using unat_byte_less [of x] by linarith
qed

lemma checkSize_short:
  assumes "checkSize (x # bs) k 1 (of_nat n) = Inr (k', ts, cs)" and "x = of_nat (kind_base k + n)"
    and "length (x # bs) < 2 ^ 63" and "n \<le> 55"
  shows "k' = k \<and> unat ts + unat cs \<le> length (x # bs) \<and> cs = of_nat n
    \<and> take (unat ts) (x # bs) = rlp_head (kind_base k) (unat cs)"
proof -
  have "(k', ts, cs) = (k, 1, of_nat n) \<and> unat (1 :: u64) + unat (of_nat n :: u64) \<le> length (x # bs)"
    using assms(1) checkSize_Inr [of "x # bs" 1 k "of_nat n" "(k', ts, cs)"] assms(3) by simp
  then show ?thesis using assms(2,4) by (simp add: rlp_head_def unat_of_nat_small)
qed

lemma checkSize_long:
  assumes "readSize bs (of_nat l) = Inr c"
    and "checkSize (x # bs) k (ucast (of_nat l :: byte) + 1) c = Inr (k', ts, cs)"
    and "x = of_nat (kind_base k + 55 + l)" and "1 \<le> l" and "l \<le> 8"
    and "length (x # bs) < 2 ^ 63"
  shows "k' = k \<and> unat ts + unat cs \<le> length (x # bs) \<and> 56 \<le> unat cs
    \<and> take (unat ts) (x # bs) = rlp_head (kind_base k) (unat cs)"
proof -
  note r = readSize_Inr [OF assms(1,4,5)]
  have "ucast (of_nat l :: byte) + 1 = (of_nat (Suc l) :: u64)"
    using assms(5) by (simp add: ucast_of_nat_u64)
  moreover have u: "unat (of_nat (Suc l) :: u64) = Suc l"
    using assms(5) by (intro unat_of_nat_small) simp
  ultimately have "(k', ts, cs) = (k, of_nat (Suc l), c) \<and> Suc l + unat c \<le> length (x # bs)"
    using assms(2) checkSize_Inr [of "x # bs" "of_nat (Suc l)" k c "(k', ts, cs)"] assms(6) r
    by (simp del: of_nat_Suc)
  then show ?thesis
    using u r readSize_head [OF assms(1,4,5), of "kind_base k"] assms(3)
    by (simp del: of_nat_Suc of_nat_add)
qed

lemma raw_readKind_Inr:
  assumes "raw_readKind buf = Inr (k, ts, cs)" and len: "length buf < 2 ^ 63"
  shows "unat ts + unat cs \<le> length buf"
    and "k = ByteK \<Longrightarrow> ts = 0 \<and> cs = 1 \<and> unat (hd buf) < 128"
    and "k \<noteq> ByteK \<Longrightarrow> take (unat ts) buf = rlp_head (kind_base k) (unat cs)"
    and "k = StringK \<Longrightarrow> unat cs = 1 \<Longrightarrow> 128 \<le> unat (buf ! 1)"
proof -
  obtain x bs where buf: "buf = x # bs" using assms(1) by (cases buf) (auto simp: raw_readKind_def)
  let ?P = "unat ts + unat cs \<le> length buf
    \<and> (k = ByteK \<longrightarrow> ts = 0 \<and> cs = 1 \<and> unat (hd buf) < 128)
    \<and> (k \<noteq> ByteK \<longrightarrow> take (unat ts) buf = rlp_head (kind_base k) (unat cs))
    \<and> (k = StringK \<longrightarrow> unat cs = 1 \<longrightarrow> 128 \<le> unat (buf ! 1))"
  consider (b) "unat x < 128" | (s) "128 \<le> unat x" "unat x < 184" | (sl) "184 \<le> unat x" "unat x < 192"
    | (l) "192 \<le> unat x" "unat x < 248" | (ll) "248 \<le> unat x" by linarith
  then have ?P
  proof cases
    case b
    then show ?thesis using assms buf by (simp add: raw_readKind_def word_less_nat_alt checkSize_Inr)
  next
    case s
    then obtain n where n: "x = of_nat (0x80 + n)" "x - of_nat 0x80 = of_nat n" "unat x = 0x80 + n"
      using byte_offset [of "0x80" x] by auto
    have cs: "checkSize (x # bs) StringK 1 (of_nat n) = Inr (k, ts, cs)"
      and one: "n = 1 \<Longrightarrow> length buf > 1 \<Longrightarrow> 128 \<le> unat (buf ! 1)"
      using assms(1) s n buf
      by (auto simp: raw_readKind_def word_less_nat_alt Let_def ucast_of_nat_u64 split: if_splits)
    have c: "k = StringK \<and> unat ts + unat cs \<le> length (x # bs) \<and> cs = of_nat n
      \<and> take (unat ts) (x # bs) = rlp_head (kind_base StringK) (unat cs)"
      using cs s n len buf by (intro checkSize_short) (simp_all add: kind_base_def)
    then have "unat cs = n" using s n by (simp add: unat_of_nat_small)
    moreover have "length buf > 1" if "n = 1"
      using c checkSize_Inr [of "x # bs" 1 StringK "of_nat n" "(k, ts, cs)"] cs that len buf
      by (cases bs) simp_all
    ultimately show ?thesis using c one buf by auto
  next
    case sl
    then obtain n where n: "x = of_nat (0xB7 + n)" "x - of_nat 0xB7 = of_nat n" "unat x = 0xB7 + n"
      using byte_offset [of "0xB7" x] by auto
    then obtain c where "readSize bs (of_nat n) = Inr c"
      and "checkSize (x # bs) StringK (ucast (of_nat n :: byte) + 1) c = Inr (k, ts, cs)"
      using assms(1) sl buf
      by (auto simp: raw_readKind_def word_less_nat_alt Let_def split: sum.splits)
    then have "k = StringK \<and> unat ts + unat cs \<le> length (x # bs) \<and> 56 \<le> unat cs
      \<and> take (unat ts) (x # bs) = rlp_head (kind_base StringK) (unat cs)"
      using n sl len buf by (intro checkSize_long [where l = n]) (auto simp: kind_base_def)
    then show ?thesis using buf by auto
  next
    case l
    then obtain n where n: "x = of_nat (0xC0 + n)" "x - of_nat 0xC0 = of_nat n" "unat x = 0xC0 + n"
      using byte_offset [of "0xC0" x] by auto
    then have "checkSize (x # bs) ListK 1 (of_nat n) = Inr (k, ts, cs)"
      using assms(1) l buf
      by (auto simp: raw_readKind_def word_less_nat_alt Let_def ucast_of_nat_u64)
    then have "k = ListK \<and> unat ts + unat cs \<le> length (x # bs) \<and> cs = of_nat n
      \<and> take (unat ts) (x # bs) = rlp_head (kind_base ListK) (unat cs)"
      using l n len buf by (intro checkSize_short) (simp_all add: kind_base_def)
    then show ?thesis using buf by auto
  next
    case ll
    then obtain n where n: "x = of_nat (0xF7 + n)" "x - of_nat 0xF7 = of_nat n" "unat x = 0xF7 + n"
      using byte_offset [of "0xF7" x] by auto
    then obtain c where "readSize bs (of_nat n) = Inr c"
      and "checkSize (x # bs) ListK (ucast (of_nat n :: byte) + 1) c = Inr (k, ts, cs)"
      using assms(1) ll buf
      by (auto simp: raw_readKind_def word_less_nat_alt Let_def split: sum.splits)
    then have "k = ListK \<and> unat ts + unat cs \<le> length (x # bs) \<and> 56 \<le> unat cs
      \<and> take (unat ts) (x # bs) = rlp_head (kind_base ListK) (unat cs)"
      using n ll len buf unat_byte_less [of x]
      by (intro checkSize_long [where l = n]) (auto simp: kind_base_def)
    then show ?thesis using buf by auto
  qed
  then show "unat ts + unat cs \<le> length buf"
    and "k = ByteK \<Longrightarrow> ts = 0 \<and> cs = 1 \<and> unat (hd buf) < 128"
    and "k \<noteq> ByteK \<Longrightarrow> take (unat ts) buf = rlp_head (kind_base k) (unat cs)"
    and "k = StringK \<Longrightarrow> unat cs = 1 \<Longrightarrow> 128 \<le> unat (buf ! 1)" by blast+
qed


lemma Split_Inr:
  assumes "Split b = Inr (k, c, rest)" and "length b < 2 ^ 63"
  shows "b = item k c @ rest" and "kind_ok k c"
proof -
  obtain ts cs where r: "raw_readKind b = Inr (k, ts, cs)"
    and c: "c = take (unat cs) (drop (unat ts) b)" and rest: "rest = drop (unat (ts + cs)) b"
    using assms(1) by (auto simp: Split_def split: sum.splits prod.splits)
  note i = raw_readKind_Inr [OF r assms(2)]
  have "unat (ts + cs) = unat ts + unat cs"
    using i(1) assms(2) by (intro unat_add_lem [THEN iffD1]) simp
  with rest have rest: "rest = drop (unat cs) (drop (unat ts) b)" by (simp add: add.commute)
  have b: "b = take (unat ts) b @ c @ rest" by (simp only: c rest append_take_drop_id)
  have lc: "length c = unat cs" using c i(1) by simp
  show ok: "kind_ok k c"
  proof (cases k)
    case StringK
    have "hd c = b ! 1" if "unat cs = 1"
    proof -
      have "unat ts = 1" using i(3) StringK i(1) that
        by (metis Kind.distinct(1) One_nat_def le_add1 le_trans length_take min_absorb2 one_le_numeral rlp_head_length)
      then show ?thesis using c that lc by (cases b; cases "drop 1 b") (auto simp: neq_Nil_conv)
    qed
    then show ?thesis using i(4) StringK lc by (auto simp: kind_ok_def)
  qed (use i(2) lc c in \<open>auto simp: kind_ok_def hd_drop_conv_nth hd_conv_nth\<close>)
  show "b = item k c @ rest"
  proof (cases "k = ByteK")
    case True
    then show ?thesis using b i(2) item_Byte ok by auto
  next
    case False
    then show ?thesis using b i(3) item_head [OF ok] lc by simp
  qed
qed

lemma Split_iff:
  assumes "length b < 2 ^ 63"
  shows "Split b = Inr (k, c, rest) \<longleftrightarrow> b = item k c @ rest \<and> kind_ok k c"
  using Split_Inr Split_item assms by metis

subsection \<open>Unsigned integers\<close>

lemma AppendUint64_encodeUint: "AppendUint64 b i = b @ str (encodeUint i \<lparr>str = [], lheads = [], lhsize = 0\<rparr>)"
  by (auto simp: AppendUint64_def encodeUint_def putint_def encbuf_Write_def Let_def)

lemma AppendUint64_rlp_str: "AppendUint64 b i = b @ rlp_str (BE (unat i))"
  by (simp add: AppendUint64_encodeUint encodeUint_rlp_str encbuf_Write_def)


lemma SplitString_iff:
  assumes "length b < 2 ^ 63"
  shows "SplitString b = Inr (c, rest) \<longleftrightarrow> b = rlp_str c @ rest"
proof -
  have "b = rlp_str c @ rest" if "SplitString b = Inr (c, rest)"
    using that Split_Inr [of b _ c rest] assms
    by (auto simp: SplitString_def item_def split: sum.splits prod.splits if_splits)
  moreover have "SplitString b = Inr (c, rest)" if b: "b = rlp_str c @ rest"
  proof -
    obtain k where k: "k \<noteq> ListK" "kind_ok k c"
      by (cases "length c = 1 \<and> unat (hd c) < 128") (auto simp: kind_ok_def intro: that [of ByteK] that [of StringK])
    then have "Split b = Inr (k, c, rest)" using b assms by (subst Split_iff) (simp_all add: item_def)
    then show ?thesis using k by (simp add: SplitString_def)
  qed
  ultimately show ?thesis by blast
qed

lemma SplitList_iff:
  assumes "length b < 2 ^ 63"
  shows "SplitList b = Inr (c, rest) \<longleftrightarrow> b = rlp_list c @ rest"
  using Split_iff [OF assms, of ListK c rest]
  by (auto simp: SplitList_def item_def kind_ok_def split: sum.splits prod.splits if_splits)

definition uint_content :: "bytes \<Rightarrow> rlp_error + u64" where
  "uint_content c =
     (if length c = 0 then Inr 0
      else if length c = 1 then if c ! 0 = 0 then Inl ErrCanonInt else Inr (ucast (c ! 0))
      else if length c > 8 then Inl ErrUintOverflow
      else (case readSize c (of_nat (length c)) of Inl e \<Rightarrow> Inl ErrCanonInt | Inr x \<Rightarrow> Inr x))"

lemma SplitUint64_content:
  "SplitUint64 b = (case SplitString b of Inl e \<Rightarrow> Inl e
     | Inr (c, rest) \<Rightarrow> map_sum id (\<lambda>x. (x, rest)) (uint_content c))"
  by (auto simp: SplitUint64_def uint_content_def split: sum.splits prod.splits)

lemma uint_content_BE: "uint_content (BE (unat i)) = Inr i"
proof -
  let ?n = "unat i"
  have n64: "?n < 2 ^ 64" using unat_u64_less by simp
  then have l8: "length (BE ?n) \<le> 8" by (rule BE_length_u64)
  consider "?n = 0" | "0 < ?n" "?n < 256" | "256 \<le> ?n" by linarith
  then show ?thesis
  proof cases
    case 1
    then show ?thesis by (simp add: uint_content_def unat_eq_0)
  next
    case 2
    then have "BE ?n = [ucast i]" by (simp add: BE_small)
    then show ?thesis using 2 by (auto simp: uint_content_def word_unat_eq_iff unat_ucast_low_byte)
  next
    case 3
    then have "1 < length (BE ?n)"
      using be_nat_bound [of "BE ?n"] power_increasing [of "length (BE ?n)" 1 "256 :: nat"]
      by (cases "length (BE ?n) \<le> 1") auto
    then show ?thesis using 3 l8 readSize_BE [OF _ n64, of "[]"] by (simp add: uint_content_def)
  qed
qed

lemma uint_content_Inr: "uint_content c = Inr i \<Longrightarrow> c = BE (unat i)"
proof -
  assume u: "uint_content c = Inr i"
  consider "c = []" | x where "c = [x]" | "2 \<le> length c" "length c \<le> 8" | "8 < length c"
    by (cases c; cases "tl c"; cases "length c \<le> 8") auto
  then show ?thesis
  proof cases
    case 2
    then have "BE (be_nat c) = c" using u by (intro BE_be_nat) (auto simp: uint_content_def unat_eq_0)
    then show ?thesis using u 2 by (auto simp: uint_content_def be_nat_Cons split: if_splits)
  next
    case 3
    then have "readSize c (of_nat (length c)) = Inr i"
      using u by (auto simp: uint_content_def split: sum.splits if_splits)
    from readSize_Inr [OF this] 3 show ?thesis by simp
  qed (use u in \<open>auto simp: uint_content_def split: if_splits\<close>)
qed

lemma SplitUint64_iff:
  assumes "length b < 2 ^ 63"
  shows "SplitUint64 b = Inr (i, rest) \<longleftrightarrow> b = AppendUint64 [] i @ rest"
proof
  assume "SplitUint64 b = Inr (i, rest)"
  then obtain c where "SplitString b = Inr (c, rest)" "uint_content c = Inr i"
    by (cases "SplitString b")
      (auto simp: SplitUint64_content map_sum_def split: sum.splits prod.splits)
  then show "b = AppendUint64 [] i @ rest"
    using SplitString_iff [OF assms] uint_content_Inr by (simp add: AppendUint64_rlp_str)
next
  assume "b = AppendUint64 [] i @ rest"
  then have "SplitString b = Inr (BE (unat i), rest)"
    using SplitString_iff [OF assms] by (simp add: AppendUint64_rlp_str)
  then show "SplitUint64 b = Inr (i, rest)" by (simp add: SplitUint64_content uint_content_BE)
qed

subsection \<open>Counting values\<close>

text \<open>The loop of \<open>CountValues\<close>; \<open>None\<close> is a loop that never ends.\<close>

partial_function (option) CountValues_loop :: "bytes \<Rightarrow> nat \<Rightarrow> (rlp_error + nat) option" where
  "CountValues_loop b i =
     (if length b > 0 then
        (case raw_readKind b of Inl e \<Rightarrow> Some (Inl e)
         | Inr (_, tagsize, sz) \<Rightarrow> CountValues_loop (drop (unat (tagsize + sz)) b) (i + 1))
      else Some (Inr i))"

definition CountValues :: "bytes \<Rightarrow> (rlp_error + nat) option" where
  "CountValues b = CountValues_loop b 0"

lemma CountValues_loop_Split:
  "CountValues_loop b i =
     (if b = [] then Some (Inr i)
      else case Split b of Inl e \<Rightarrow> Some (Inl e) | Inr (_, _, rest) \<Rightarrow> CountValues_loop rest (i + 1))"
  by (subst CountValues_loop.simps) (auto simp: Split_def split: sum.splits prod.splits)

lemma CountValues_loop_items:
  assumes "\<forall>(k, c) \<in> set kcs. kind_ok k c"
    and "length (concat (map (case_prod item) kcs)) < 2 ^ 63"
  shows "CountValues_loop (concat (map (case_prod item) kcs)) i = Some (Inr (i + length kcs))"
  using assms
proof (induction kcs arbitrary: i)
  case Nil
  then show ?case by (subst CountValues_loop_Split) simp
next
  case (Cons kc kcs)
  obtain k c where kc: "kc = (k, c)" by force
  show ?case using Cons by (subst CountValues_loop_Split) (simp add: kc Split_item)
qed

lemma CountValues_loop_total:
  assumes "length b < 2 ^ 63"
  shows "(\<exists>e. CountValues_loop b i = Some (Inl e)) \<or>
    (\<exists>kcs. CountValues_loop b i = Some (Inr (i + length kcs)) \<and> b = concat (map (case_prod item) kcs)
      \<and> (\<forall>(k, c) \<in> set kcs. kind_ok k c))"
  using assms
proof (induction "length b" arbitrary: b i rule: less_induct)
  case less
  show ?case
  proof (cases "b = [] \<or> (\<exists>e. Split b = Inl e)")
    case True
    then show ?thesis by (subst (1 2) CountValues_loop_Split) (auto intro: exI [of _ "[]"])
  next
    case False
    then obtain k c rest where s: "Split b = Inr (k, c, rest)" and ne: "b \<noteq> []"
      by (cases "Split b") (auto simp: prod_eq_iff)
    have b: "b = item k c @ rest" "kind_ok k c" using Split_Inr [OF s less.prems] by blast+
    have "length rest < length b" using b(1) by simp
    from less.hyps [OF this, of "i + 1"] consider
        e where "CountValues_loop rest (i + 1) = Some (Inl e)"
      | kcs where "CountValues_loop rest (i + 1) = Some (Inr (i + 1 + length kcs))"
          "rest = concat (map (case_prod item) kcs)" "\<forall>(k, c) \<in> set kcs. kind_ok k c"
      using less.prems b(1) by auto
    then show ?thesis
    proof cases
      case 1
      then show ?thesis using s ne by (subst CountValues_loop_Split) simp
    next
      case 2
      then have "CountValues_loop b i = Some (Inr (i + length ((k, c) # kcs)))"
        using s ne by (subst CountValues_loop_Split) simp
      moreover have "b = concat (map (case_prod item) ((k, c) # kcs))" using 2 b by simp
      ultimately show ?thesis using 2 b(2) by (intro disjI2 exI [of _ "(k, c) # kcs"]) simp
    qed
  qed
qed


subsection \<open>The list iterator\<close>

record listIterator =
  it_data :: bytes
  it_next :: bytes
  it_err :: "rlp_error option"

definition NewListIterator :: "bytes \<Rightarrow> rlp_error + listIterator" where
  "NewListIterator buf =
     (case raw_readKind buf of Inl e \<Rightarrow> Inl e
      | Inr (k, t, c) \<Rightarrow>
          if k \<noteq> ListK then Inl ErrExpectedList
          else Inr \<lparr>it_data = take (unat c) (drop (unat t) buf), it_next = [], it_err = None\<rparr>)"

text \<open>On an error \<open>readKind\<close> returns zero sizes, which \<open>Next\<close> slices with before it
  stores the error.\<close>

definition Next :: "listIterator \<Rightarrow> bool \<times> listIterator" where
  "Next it =
     (if length (it_data it) = 0 then (False, it)
      else let (t, c, err) =
          (case raw_readKind (it_data it) of Inl e \<Rightarrow> (0, 0, Some e) | Inr (_, t, c) \<Rightarrow> (t, c, None))
        in (True, it\<lparr>it_data := drop (unat (t + c)) (it_data it),
                     it_next := take (unat (t + c)) (it_data it), it_err := err\<rparr>))"

definition Value :: "listIterator \<Rightarrow> bytes" where
  "Value it = it_next it"

definition it_Err :: "listIterator \<Rightarrow> rlp_error option" where
  "it_Err it = it_err it"

text \<open>The values a loop \<open>for it.Next() { use(it.Value()) }\<close> sees in its first \<open>n\<close>
  rounds.\<close>

fun iterate :: "nat \<Rightarrow> listIterator \<Rightarrow> bytes list" where
  "iterate 0 it = []"
| "iterate (Suc n) it =
     (case Next it of (False, _) \<Rightarrow> [] | (True, it') \<Rightarrow> Value it' # iterate n it')"

lemma NewListIterator_SplitList:
  "NewListIterator b = map_sum id (\<lambda>(c, rest). \<lparr>it_data = c, it_next = [], it_err = None\<rparr>) (SplitList b)"
  by (auto simp: NewListIterator_def SplitList_def Split_def split: sum.splits)

lemma Next_item:
  assumes "it_data it = item k c @ rest" and "kind_ok k c" and "length (it_data it) < 2 ^ 63"
  shows "Next it = (True, \<lparr>it_data = rest, it_next = item k c, it_err = None\<rparr>)"
proof -
  have "Split (it_data it) = Inr (k, c, rest)" using assms by (simp add: Split_item)
  then obtain t l where r: "raw_readKind (it_data it) = Inr (k, t, l)"
    and rest: "drop (unat (t + l)) (it_data it) = rest"
    by (auto simp: Split_def split: sum.splits prod.splits)
  have "take (unat (t + l)) (it_data it) = item k c"
    using rest assms(1) by (metis append_same_eq append_take_drop_id)
  then show ?thesis using r rest assms(1) by (simp add: Next_def)
qed

lemma iterate_items:
  assumes "\<forall>(k, c) \<in> set kcs. kind_ok k c" and "it_data it = concat (map (case_prod item) kcs)"
    and "length (it_data it) < 2 ^ 63" and "length kcs < n"
  shows "iterate n it = map (case_prod item) kcs"
  using assms
proof (induction kcs arbitrary: it n)
  case Nil
  then show ?case by (cases n) (simp_all add: Next_def)
next
  case (Cons kc kcs)
  obtain k c m where kc: "kc = (k, c)" "n = Suc m"
    using Cons.prems(4) by (cases kc; cases n) auto
  have "Next it = (True, \<lparr>it_data = concat (map (case_prod item) kcs), it_next = item k c, it_err = None\<rparr>)"
    using Cons.prems kc by (intro Next_item [where k = k and c = c]) auto
  then show ?case using Cons kc by (simp add: Value_def)
qed

subsection \<open>Properties\<close>

text \<open>C2: \<open>Split\<close> succeeds exactly on canonical encodings: it returns a kind, a content
  and a rest if and only if the input is the canonical encoding of that content followed by the
  rest, and it says \<open>Byte\<close> exactly for single bytes below 128.\<close>

theorem Split_canonical:
  assumes "length b < 2 ^ 63"
  shows "Split b = Inr (k, c, rest) \<longleftrightarrow>
    b = (if k = ListK then rlp_list c else rlp_str c) @ rest
    \<and> (k = ListK \<or> (k = ByteK \<longleftrightarrow> length c = 1 \<and> unat (hd c) < 128))"
  using Split_iff [OF assms] by (simp add: item_def kind_ok_def)

theorem Split_canonical_witness:
  "Split [0xC2, 1, 2, 7] = Inr (ListK, [1, 2], [7])"
  by (subst Split_canonical) (simp_all add: rlp_list_def rlp_head_def)

text \<open>\<open>SplitUint64\<close> inverts \<open>AppendUint64\<close>, and accepts nothing else: it returns
  an integer and a rest if and only if the input is what \<open>AppendUint64\<close> appends for that
  integer, followed by the rest. Integers with leading zeros or more than eight bytes are
  refused.\<close>

theorem SplitUint64_AppendUint64:
  assumes "length b < 2 ^ 63"
  shows "SplitUint64 b = Inr (i, rest) \<longleftrightarrow> b = AppendUint64 [] i @ rest"
  using assms by (rule SplitUint64_iff)

theorem SplitUint64_AppendUint64_witness:
  "SplitUint64 [0x82, 1, 0, 5] = Inr (256, [5])"
  by (subst SplitUint64_AppendUint64) (simp_all add: AppendUint64_def)

text \<open>C3: \<open>CountValues\<close> always returns, and it returns a count exactly when the input is
  a concatenation of that many canonical items.\<close>

theorem CountValues_correct:
  assumes "length b < 2 ^ 63"
  shows "CountValues b \<noteq> None \<and> (CountValues b = Some (Inr n) \<longleftrightarrow>
      (\<exists>kcs. length kcs = n \<and> b = concat (map (case_prod item) kcs) \<and> (\<forall>(k, c) \<in> set kcs. kind_ok k c)))"
proof
  show "CountValues b \<noteq> None"
    using CountValues_loop_total [OF assms, of 0] by (auto simp: CountValues_def)
  show "CountValues b = Some (Inr n) \<longleftrightarrow>
      (\<exists>kcs. length kcs = n \<and> b = concat (map (case_prod item) kcs) \<and> (\<forall>(k, c) \<in> set kcs. kind_ok k c))"
    using CountValues_loop_total [OF assms, of 0] CountValues_loop_items [of _ 0] assms
    by (fastforce simp: CountValues_def)
qed

theorem CountValues_correct_witness:
  "CountValues [1, 0xC1, 5, 0x80] = Some (Inr 3)"
  by (subst CountValues_correct [THEN conjunct2], simp)
    (intro exI [of _ "[(ByteK, [1]), (ListK, [5]), (StringK, [])]"],
     simp add: item_def kind_ok_def rlp_list_def rlp_str_def rlp_head_def)

text \<open>Iterating over an encoded list yields the encodings of its elements, in order,
  and then stops.\<close>

theorem iterate_list:
  assumes "\<forall>(k, c) \<in> set kcs. kind_ok k c"
    and "length (rlp_list (concat (map (case_prod item) kcs)) @ rest) < 2 ^ 63"
    and "length kcs < n"
  shows "map_sum id (iterate n) (NewListIterator (rlp_list (concat (map (case_prod item) kcs)) @ rest))
    = Inr (map (case_prod item) kcs)"
proof -
  let ?p = "concat (map (case_prod item) kcs)"
  have "SplitList (rlp_list ?p @ rest) = Inr (?p, rest)" using assms(2) by (subst SplitList_iff) simp_all
  then show ?thesis using assms by (simp add: NewListIterator_SplitList iterate_items rlp_list_def)
qed

theorem iterate_list_witness:
  "map_sum id (iterate 5) (NewListIterator [0xC3, 1, 0xC1, 5, 9]) = Inr [[1], [0xC1, 5]]"
  using iterate_list [of "[(ByteK, [1]), (ListK, [5])]" "[9]" 5]
  by (simp add: item_def kind_ok_def rlp_list_def rlp_str_def rlp_head_def)

end
