(* ===== verification/Rlp_Stream.thy ===== *)
theory Rlp_Stream
  imports Rlp_Raw
begin

text \<open>
  \<open>rlp/decode.go\<close>: the streaming decoder. A \<open>Stream\<close> reads from a
  \<open>bytes.Reader\<close> (the list of the bytes not read yet) and keeps the limits of the input
  and of the enclosing lists. Every operation returns its result or error together with the new
  stream, because the list decoders continue after \<open>EOL\<close>. A decoder is chosen by the Go
  type it decodes into (\<open>gtyp\<close>) and returns the decoded value.
\<close>

subsection \<open>The stream\<close>

text \<open>\<open>kind\<close> is \<open>None\<close> where the code stores \<open>-1\<close>; \<open>stack\<close> has the
  innermost list first. The scratch buffer \<open>uintbuf\<close> carries no information between
  calls.\<close>

record stream =
  rd :: bytes
  remaining :: u64
  sz :: u64
  kinderr :: "rlp_error option"
  stack :: "u64 list"
  kind :: "Kind option"
  byteval :: byte
  limited :: bool

type_synonym 'a sres = "(rlp_error + 'a) \<times> stream"

definition bindS :: "(stream \<Rightarrow> 'a sres) \<Rightarrow> ('a \<Rightarrow> stream \<Rightarrow> 'b sres) \<Rightarrow> stream \<Rightarrow> 'b sres" where
  "bindS m f s = (case m s of (Inl e, s) \<Rightarrow> (Inl e, s) | (Inr x, s) \<Rightarrow> f x s)"

text \<open>\<open>Reset\<close> with a \<open>bytes.Reader\<close>: without a limit, the limit is the length of
  the input.\<close>

definition Reset :: "bytes \<Rightarrow> u64 \<Rightarrow> stream" where
  "Reset r inputLimit =
     \<lparr>rd = r, remaining = (if inputLimit > 0 then inputLimit else of_nat (length r)), sz = 0,
      kinderr = None, stack = [], kind = None, byteval = 0, limited = True\<rparr>"

definition NewListStream :: "bytes \<Rightarrow> u64 \<Rightarrow> stream" where
  "NewListStream r len = (Reset r len)\<lparr>kind := Some ListK, sz := len\<rparr>"

definition listLimit :: "stream \<Rightarrow> bool \<times> u64" where
  "listLimit s = (if length (stack s) = 0 then (False, 0) else (True, hd (stack s)))"

definition willRead :: "u64 \<Rightarrow> stream \<Rightarrow> unit sres" where
  "willRead n s =
     (let s = s\<lparr>kind := None\<rparr>; (inList, limit) = listLimit s in
      if inList \<and> n > limit then (Inl ErrElemTooLarge, s)
      else let s = (if inList then s\<lparr>stack := (limit - n) # tl (stack s)\<rparr> else s) in
        if limited s then
          if n > remaining s then (Inl ErrValueTooLarge, s)
          else (Inr (), s\<lparr>remaining := remaining s - n\<rparr>)
        else (Inr (), s))"

text \<open>\<open>readFull\<close> into a buffer of \<open>n\<close> bytes. The reader returns what it has and then
  \<open>io.EOF\<close>, which a short read turns into \<open>io.ErrUnexpectedEOF\<close>.\<close>

definition readFull :: "u64 \<Rightarrow> stream \<Rightarrow> bytes sres" where
  "readFull n = bindS (willRead n) (\<lambda>_ s.
     if length (rd s) < unat n then (Inl ErrUnexpectedEOF, s\<lparr>rd := []\<rparr>)
     else (Inr (take (unat n) (rd s)), s\<lparr>rd := drop (unat n) (rd s)\<rparr>))"

definition readByte :: "stream \<Rightarrow> byte sres" where
  "readByte = bindS (willRead 1) (\<lambda>_ s.
     case rd s of [] \<Rightarrow> (Inl ErrUnexpectedEOF, s) | b # bs \<Rightarrow> (Inr b, s\<lparr>rd := bs\<rparr>))"

text \<open>The eight-byte buffer of \<open>readUint\<close> is left-padded with zeros, so the integer is the
  big-endian value of the bytes read.\<close>

definition readUint :: "byte \<Rightarrow> stream \<Rightarrow> u64 sres" where
  "readUint n s =
     (if n = 0 then (Inr 0, s\<lparr>kind := None\<rparr>)
      else if n = 1 then bindS readByte (\<lambda>b s. (Inr (ucast b), s)) s
      else bindS (readFull (ucast n)) (\<lambda>buffer s.
        if buffer ! 0 = 0 then (Inl ErrCanonSize, s)
        else (Inr (of_nat (be_nat (replicate (8 - unat n) 0 @ buffer))), s)) s)"

definition readLongKind :: "Kind \<Rightarrow> byte \<Rightarrow> stream \<Rightarrow> (Kind \<times> u64 \<times> rlp_error option) \<times> stream" where
  "readLongKind k lenlen s =
     (case readUint lenlen s of
        (Inl e, s) \<Rightarrow> ((k, 0, Some e), s)
      | (Inr n, s) \<Rightarrow> ((k, n, if n < 56 then Some ErrCanonSize else None), s))"

definition readKind :: "stream \<Rightarrow> (Kind \<times> u64 \<times> rlp_error option) \<times> stream" where
  "readKind s =
     (case readByte s of
        (Inl e, s) \<Rightarrow>
          ((ByteK, 0, Some (if length (stack s) = 0 \<and> (e = ErrUnexpectedEOF \<or> e = ErrValueTooLarge)
                            then ErrEOF else e)), s)
      | (Inr b, s) \<Rightarrow>
          let s = s\<lparr>byteval := 0\<rparr> in
          if b < 0x80 then ((ByteK, 0, None), s\<lparr>byteval := b\<rparr>)
          else if b < 0xB8 then ((StringK, ucast (b - 0x80), None), s)
          else if b < 0xC0 then readLongKind StringK (b - 0xB7) s
          else if b < 0xF8 then ((ListK, ucast (b - 0xC0), None), s)
          else readLongKind ListK (b - 0xF7) s)"

definition result_of :: "Kind \<Rightarrow> u64 \<Rightarrow> rlp_error option \<Rightarrow> rlp_error + (Kind \<times> u64)" where
  "result_of k n err = (case err of None \<Rightarrow> Inr (k, n) | Some e \<Rightarrow> Inl e)"

text \<open>\<open>Kind\<close> compares the size ahead with the list limit that held before the type tag was
  read, as the code does.\<close>

definition stream_Kind :: "stream \<Rightarrow> (Kind \<times> u64) sres" where
  "stream_Kind s =
     (case kind s of Some k \<Rightarrow> (result_of k (sz s) (kinderr s), s)
      | None \<Rightarrow>
          let (inList, limit) = listLimit s in
          if inList \<and> limit = 0 then (Inl EOL, s)
          else case readKind s of ((k, n, err), s) \<Rightarrow>
            let err = (case err of Some e \<Rightarrow> Some e
                       | None \<Rightarrow> if inList \<and> n > limit then Some ErrElemTooLarge
                                else if limited s \<and> n > remaining s then Some ErrValueTooLarge
                                else None)
            in (result_of k n err, s\<lparr>kind := Some k, sz := n, kinderr := err\<rparr>))"


subsection \<open>Reading values\<close>

definition stream_Bytes :: "stream \<Rightarrow> bytes sres" where
  "stream_Bytes = bindS stream_Kind (\<lambda>(k, n) s.
     case k of
       ByteK \<Rightarrow> (Inr [byteval s], s\<lparr>kind := None\<rparr>)
     | StringK \<Rightarrow> bindS (readFull n) (\<lambda>b s.
         if n = 1 \<and> b ! 0 < 128 then (Inl ErrCanonSize, s) else (Inr b, s)) s
     | ListK \<Rightarrow> (Inl ErrExpectedString, s))"

definition stream_Raw :: "stream \<Rightarrow> bytes sres" where
  "stream_Raw = bindS stream_Kind (\<lambda>(k, n) s.
     if k = ByteK then (Inr [byteval s], s\<lparr>kind := None\<rparr>)
     else bindS (readFull n) (\<lambda>b s.
       (Inr ((if k = StringK then puthead 0x80 0xB7 n else puthead 0xC0 0xF7 n) @ b), s)) s)"

definition stream_uint :: "nat \<Rightarrow> stream \<Rightarrow> u64 sres" where
  "stream_uint maxbits = bindS stream_Kind (\<lambda>(k, n) s.
     case k of
       ByteK \<Rightarrow> if byteval s = 0 then (Inl ErrCanonInt, s)
                else (Inr (ucast (byteval s)), s\<lparr>kind := None\<rparr>)
     | StringK \<Rightarrow>
         if n > of_nat (maxbits div 8) then (Inl ErrUintOverflow, s)
         else (case readUint (ucast n) s of
             (Inl e, s) \<Rightarrow> (Inl (if e = ErrCanonSize then ErrCanonInt else e), s)
           | (Inr v, s) \<Rightarrow> if n > 0 \<and> v < 128 then (Inl ErrCanonSize, s) else (Inr v, s))
     | ListK \<Rightarrow> (Inl ErrExpectedString, s))"

definition stream_Uint :: "stream \<Rightarrow> u64 sres" where
  "stream_Uint = stream_uint 64"

definition stream_Bool :: "stream \<Rightarrow> bool sres" where
  "stream_Bool = bindS (stream_uint 8) (\<lambda>num s.
     if num = 0 then (Inr False, s) else if num = 1 then (Inr True, s)
     else (Inl (ErrInvalidBool num), s))"

definition stream_List :: "stream \<Rightarrow> u64 sres" where
  "stream_List = bindS stream_Kind (\<lambda>(k, n) s.
     if k \<noteq> ListK then (Inl ErrExpectedList, s)
     else
       let (inList, limit) = listLimit s;
           s = (if inList then s\<lparr>stack := (limit - n) # tl (stack s)\<rparr> else s)
       in (Inr n, s\<lparr>stack := n # stack s, kind := None, sz := 0\<rparr>))"

definition stream_ListEnd :: "stream \<Rightarrow> unit sres" where
  "stream_ListEnd s =
     (let (inList, limit) = listLimit s in
      if \<not> inList then (Inl ErrNotInList, s)
      else if limit > 0 then (Inl ErrNotAtEOL, s)
      else (Inr (), s\<lparr>stack := tl (stack s), kind := None, sz := 0\<rparr>))"

subsection \<open>Decoders\<close>

text \<open>The Go types with a decoder. \<open>TPtr\<close> carries the \<open>nilOK\<close> tag and the kind of
  the empty value; \<open>TStruct\<close> the public fields with their \<open>optional\<close> tag;
  \<open>TTail\<close> is a slice field with the \<open>tail\<close> tag; \<open>TUint\<close> the number of bits. A
  type with a \<open>DecodeRLP\<close> method is the type its method decodes.\<close>

datatype gtyp =
    TRawValue
  | TBigIntPtr
  | TBigInt
  | TPtr bool Kind gtyp
  | TUint nat
  | TBool
  | TString
  | TBytes
  | TByteArray nat
  | TSlice gtyp
  | TTail gtyp
  | TArray nat gtyp
  | TStruct "(bool \<times> gtyp) list"
  | TInterface

definition wrapStreamError :: "rlp_error \<Rightarrow> rlp_error" where
  "wrapStreamError err =
     (if err = ErrCanonInt \<or> err = ErrCanonSize \<or> err = ErrExpectedList \<or> err = ErrExpectedString
         \<or> err = ErrUintOverflow \<or> err = ErrNotAtEOL
      then DecodeErr err else err)"

definition wrapS :: "(stream \<Rightarrow> 'a sres) \<Rightarrow> stream \<Rightarrow> 'a sres" where
  "wrapS m s = (case m s of (Inl e, s) \<Rightarrow> (Inl (wrapStreamError e), s) | r \<Rightarrow> r)"

definition decodeRawValue :: "stream \<Rightarrow> gval sres" where
  "decodeRawValue = bindS stream_Raw (\<lambda>r s. (Inr (GRawValue r), s))"

definition decodeUint :: "nat \<Rightarrow> stream \<Rightarrow> gval sres" where
  "decodeUint bits = bindS (wrapS (stream_uint bits)) (\<lambda>num s. (Inr (GUint num), s))"

definition decodeBool :: "stream \<Rightarrow> gval sres" where
  "decodeBool = bindS (wrapS stream_Bool) (\<lambda>b s. (Inr (GBool b), s))"

definition decodeString :: "stream \<Rightarrow> gval sres" where
  "decodeString = bindS (wrapS stream_Bytes) (\<lambda>b s. (Inr (GString b), s))"

definition decodeByteSlice :: "stream \<Rightarrow> gval sres" where
  "decodeByteSlice = bindS (wrapS stream_Bytes) (\<lambda>b s. (Inr (GBytes b), s))"

text \<open>The bytes of a big integer; the two buffers of the code (\<open>uintbuf\<close> up to 32 bytes, a
  fresh one above) differ in the check of single bytes.\<close>

definition bigIntBuffer :: "stream \<Rightarrow> bytes sres" where
  "bigIntBuffer = bindS stream_Kind (\<lambda>(k, n) s.
     if k = ListK then (Inl ErrExpectedString, s)
     else if k = ByteK then (Inr [byteval s], s\<lparr>kind := None\<rparr>)
     else if n = 0 then (Inr [], s\<lparr>kind := None\<rparr>)
     else if n \<le> 32 then bindS (readFull n) (\<lambda>buffer s.
       if n = 1 \<and> buffer ! 0 < 128 then (Inl ErrCanonSize, s) else (Inr buffer, s)) s
     else readFull n s)"

definition decodeBigInt :: "stream \<Rightarrow> int sres" where
  "decodeBigInt = wrapS (bindS bigIntBuffer (\<lambda>buffer s.
     if length buffer > 0 \<and> buffer ! 0 = 0 then (Inl ErrCanonInt, s)
     else (Inr (int (be_nat buffer)), s)))"

definition decodeByteArray :: "nat \<Rightarrow> stream \<Rightarrow> gval sres" where
  "decodeByteArray len = bindS stream_Kind (\<lambda>(k, n) s.
     case k of
       ByteK \<Rightarrow>
         if len = 0 then (Inl InputTooLong, s) else if len > 1 then (Inl InputTooShort, s)
         else (Inr (GByteArray [byteval s]), s\<lparr>kind := None\<rparr>)
     | StringK \<Rightarrow>
         if of_nat len < n then (Inl InputTooLong, s)
         else if of_nat len > n then (Inl InputTooShort, s)
         else bindS (readFull (of_nat len)) (\<lambda>slice s.
           if n = 1 \<and> slice ! 0 < 128 then (Inl (wrapStreamError ErrCanonSize), s)
           else (Inr (GByteArray slice), s)) s
     | ListK \<Rightarrow> (Inl (wrapStreamError ErrExpectedString), s))"

text \<open>A decoder that may not return: the loops below are bounded by a number of rounds, and
  \<open>None\<close> means that the bound was too small.\<close>

type_synonym 'a decoder = "stream \<Rightarrow> 'a sres option"

definition bindD :: "'a sres option \<Rightarrow> ('a \<Rightarrow> stream \<Rightarrow> 'b sres option) \<Rightarrow> 'b sres option" where
  "bindD r f = (case r of None \<Rightarrow> None | Some (Inl e, s) \<Rightarrow> Some (Inl e, s) | Some (Inr x, s) \<Rightarrow> f x s)"

fun decodeSliceElems :: "nat \<Rightarrow> 'a decoder \<Rightarrow> 'a list \<Rightarrow> stream \<Rightarrow> 'a list sres option" where
  "decodeSliceElems 0 elemdec vs s = None"
| "decodeSliceElems (Suc n) elemdec vs s =
     (case elemdec s of
        None \<Rightarrow> None
      | Some (Inl e, s) \<Rightarrow> Some (if e = EOL then Inr vs else Inl e, s)
      | Some (Inr v, s) \<Rightarrow> decodeSliceElems n elemdec (vs @ [v]) s)"

definition decodeListSlice :: "nat \<Rightarrow> 'a decoder \<Rightarrow> stream \<Rightarrow> 'a list sres option" where
  "decodeListSlice fuel elemdec s =
     bindD (Some (wrapS stream_List s)) (\<lambda>n s.
       if n = 0 then Some (bindS stream_ListEnd (\<lambda>_ s. (Inr [], s)) s)
       else bindD (decodeSliceElems fuel elemdec [] s) (\<lambda>vs s.
         Some (bindS stream_ListEnd (\<lambda>_ s. (Inr vs, s)) s)))"

fun decodeArrayElems :: "nat \<Rightarrow> 'a decoder \<Rightarrow> 'a list \<Rightarrow> stream \<Rightarrow> 'a list sres option" where
  "decodeArrayElems 0 elemdec vs s = Some (Inr vs, s)"
| "decodeArrayElems (Suc n) elemdec vs s =
     (case elemdec s of
        None \<Rightarrow> None
      | Some (Inl e, s) \<Rightarrow> Some (if e = EOL then Inl TooFewElements else Inl e, s)
      | Some (Inr v, s) \<Rightarrow> decodeArrayElems n elemdec (vs @ [v]) s)"

definition decodeListArray :: "nat \<Rightarrow> 'a decoder \<Rightarrow> stream \<Rightarrow> 'a list sres option" where
  "decodeListArray vlen elemdec s =
     bindD (Some (wrapS stream_List s)) (\<lambda>_ s.
       bindD (decodeArrayElems vlen elemdec [] s) (\<lambda>vs s.
         Some (bindS (wrapS stream_ListEnd) (\<lambda>_ s. (Inr vs, s)) s)))"

fun decodeInterface :: "nat \<Rightarrow> gval decoder" where
  "decodeInterface 0 s = None"
| "decodeInterface (Suc n) s =
     bindD (Some (stream_Kind s)) (\<lambda>(k, _) s.
       if k = ListK then
         bindD (decodeListSlice (Suc n) (decodeInterface n) s)
           (\<lambda>vs s. Some (Inr (GInterface (Some (GSlice vs))), s))
       else Some (bindS stream_Bytes (\<lambda>b s. (Inr (GInterface (Some (GBytes b))), s)) s))"


fun firstOptionalField :: "(bool \<times> gtyp) list \<Rightarrow> nat" where
  "firstOptionalField [] = 0"
| "firstOptionalField (f # fs) = (if fst f then 0 else Suc (firstOptionalField fs))"

text \<open>\<open>reflect.Zero\<close> of a type, and \<open>IsZero\<close> of a value a decoder has just stored: a
  decoded slice is never \<open>nil\<close>.\<close>

fun zeroval :: "gtyp \<Rightarrow> gval" where
  "zeroval TRawValue = GRawValue []"
| "zeroval TBigIntPtr = GBigIntPtr None"
| "zeroval TBigInt = GBigInt 0"
| "zeroval (TPtr nilOK k t) = GPtr k None"
| "zeroval (TUint bits) = GUint 0"
| "zeroval TBool = GBool False"
| "zeroval TString = GString []"
| "zeroval TBytes = GBytes []"
| "zeroval (TByteArray n) = GByteArray (replicate n 0)"
| "zeroval (TSlice t) = GSlice []"
| "zeroval (TTail t) = GTailSlice []"
| "zeroval (TArray n t) = GSlice (replicate n (zeroval t))"
| "zeroval (TStruct fs) = GStruct (map (\<lambda>(opt, t). (True, zeroval t)) fs) (firstOptionalField fs)"
| "zeroval TInterface = GInterface None"

primrec isZero :: "gtyp \<Rightarrow> gval \<Rightarrow> bool" where
  "isZero TRawValue v = False"
| "isZero TBigIntPtr v = (v = GBigIntPtr None)"
| "isZero TBigInt v = (v = GBigInt 0)"
| "isZero (TPtr nilOK k t) v = (v = GPtr k None)"
| "isZero (TUint bits) v = (v = GUint 0)"
| "isZero TBool v = (v = GBool False)"
| "isZero TString v = (v = GString [])"
| "isZero TBytes v = False"
| "isZero (TByteArray n) v = (v = GByteArray (replicate n 0))"
| "isZero (TSlice t) v = False"
| "isZero (TTail t) v = False"
| "isZero (TArray n t) v = (case v of GSlice vs \<Rightarrow> list_all (isZero t) vs | _ \<Rightarrow> False)"
| "isZero (TStruct fs) v = (case v of GStruct fvs firstOptional \<Rightarrow> list_all fst fvs | _ \<Rightarrow> False)"
| "isZero TInterface v = False"

definition zeroFields :: "(bool \<times> gtyp) list \<Rightarrow> (bool \<times> gval) list" where
  "zeroFields fs = map (\<lambda>(opt, t). (True, zeroval t)) fs"

fun decode :: "nat \<Rightarrow> gtyp \<Rightarrow> gval decoder"
  and decodeFields :: "nat \<Rightarrow> (bool \<times> gtyp) list \<Rightarrow> (bool \<times> gval) list \<Rightarrow> stream \<Rightarrow> (bool \<times> gval) list sres option"
where
  "decode n TRawValue s = Some (decodeRawValue s)"
| "decode n TBigIntPtr s = Some (bindS decodeBigInt (\<lambda>i s. (Inr (GBigIntPtr (Some i)), s)) s)"
| "decode n TBigInt s = Some (bindS decodeBigInt (\<lambda>i s. (Inr (GBigInt i), s)) s)"
| "decode n (TPtr nilOK nilKind t) s =
     (if \<not> nilOK then bindD (decode n t s) (\<lambda>v s. Some (Inr (GPtr nilKind (Some v)), s))
      else bindD (Some (wrapS stream_Kind s)) (\<lambda>(k, m) s.
        if k \<noteq> ByteK \<and> m = 0 then
          if k \<noteq> nilKind then Some (Inl (WrongKindOfEmpty k nilKind), s)
          else Some (Inr (GPtr nilKind None), s\<lparr>kind := None\<rparr>)
        else bindD (decode n t s) (\<lambda>v s. Some (Inr (GPtr nilKind (Some v)), s))))"
| "decode n (TUint bits) s = Some (decodeUint bits s)"
| "decode n TBool s = Some (decodeBool s)"
| "decode n TString s = Some (decodeString s)"
| "decode n TBytes s = Some (decodeByteSlice s)"
| "decode n (TByteArray len) s = Some (decodeByteArray len s)"
| "decode n (TSlice t) s =
     bindD (decodeListSlice n (decode n t) s) (\<lambda>vs s. Some (Inr (GSlice vs), s))"
| "decode n (TTail t) s =
     bindD (decodeSliceElems n (decode n t) [] s) (\<lambda>vs s. Some (Inr (GTailSlice vs), s))"
| "decode n (TArray len t) s =
     bindD (decodeListArray len (decode n t) s) (\<lambda>vs s. Some (Inr (GSlice vs), s))"
| "decode n (TStruct fs) s =
     bindD (Some (wrapS stream_List s)) (\<lambda>_ s.
       bindD (decodeFields n fs [] s) (\<lambda>vs s.
         Some (bindS (wrapS stream_ListEnd)
           (\<lambda>_ s. (Inr (GStruct vs (firstOptionalField fs)), s)) s)))"
| "decode n TInterface s = decodeInterface n s"
| "decodeFields n [] vs s = Some (Inr vs, s)"
| "decodeFields n ((opt, t) # fs) vs s =
     (case decode n t s of
        None \<Rightarrow> None
      | Some (Inl e, s) \<Rightarrow>
          Some (if e = EOL then
                  if opt then Inr (vs @ zeroFields ((opt, t) # fs)) else Inl TooFewElements
                else Inl e, s)
      | Some (Inr v, s) \<Rightarrow> decodeFields n fs (vs @ [(isZero t v, v)]) s)"

definition DecodeBytes :: "gtyp \<Rightarrow> bytes \<Rightarrow> (rlp_error + gval) option" where
  "DecodeBytes t b =
     (case decode (Suc (length b)) t (Reset b (of_nat (length b))) of
        None \<Rightarrow> None
      | Some (Inl e, s) \<Rightarrow> Some (Inl e)
      | Some (Inr v, s) \<Rightarrow> Some (if length (rd s) > 0 then Inl ErrMoreThanOneValue else Inr v))"

end
