(* ===== verification/Rlp_Stream_Correct.thy ===== *)
theory Rlp_Stream_Correct
  imports Rlp_Stream
begin

text \<open>
  The streaming decoder inverts the encoder. \<open>live\<close> is the invariant of a stream over a
  byte slice; \<open>adv n s s'\<close> says that \<open>n\<close> bytes were consumed and accounted for in the
  innermost list limit. Every decoder is shown to be sound (what it returns encodes to the bytes
  it consumed), complete (it returns every value of its type from the value's encoding), and to
  return at all.
\<close>

subsection \<open>Consuming input\<close>

definition live :: "stream \<Rightarrow> bool" where
  "live s \<longleftrightarrow> limited s \<and> length (rd s) < 2 ^ 63 \<and> remaining s = of_nat (length (rd s))"

definition consume :: "nat \<Rightarrow> u64 list \<Rightarrow> u64 list" where
  "consume n ls = (case ls of [] \<Rightarrow> [] | l # ls \<Rightarrow> (l - of_nat n) # ls)"

definition adv :: "nat \<Rightarrow> stream \<Rightarrow> stream \<Rightarrow> bool" where
  "adv n s s' \<longleftrightarrow> live s' \<and> n \<le> length (rd s) \<and> rd s' = drop n (rd s) \<and> stack s' = consume n (stack s)"

definition fits :: "nat \<Rightarrow> stream \<Rightarrow> bool" where
  "fits n s \<longleftrightarrow> stack s = [] \<or> n \<le> unat (hd (stack s))"

lemma consume_0 [simp]: "consume 0 ls = ls"
  by (simp add: consume_def split: list.splits)

lemma consume_consume [simp]: "consume m (consume n ls) = consume (n + m) ls"
  by (simp add: consume_def diff_diff_eq split: list.splits)

lemma consume_eq_Nil [simp]: "consume n ls = [] \<longleftrightarrow> ls = []"
  by (simp add: consume_def split: list.splits)

lemma adv_live: "adv n s s' \<Longrightarrow> live s'"
  by (simp add: adv_def)

lemma adv_0: "live s \<Longrightarrow> rd s' = rd s \<Longrightarrow> stack s' = stack s \<Longrightarrow> limited s' = limited s
  \<Longrightarrow> remaining s' = remaining s \<Longrightarrow> adv 0 s s'"
  by (simp add: adv_def live_def)

lemma adv_trans: "adv n s s1 \<Longrightarrow> adv m s1 s2 \<Longrightarrow> adv (n + m) s s2"
  by (auto simp: adv_def add.commute)

lemma fits_adv:
  assumes "fits (n + m) s" and "adv n s s'"
  shows "fits m s'"
proof (cases "stack s")
  case (Cons l ls)
  then have "n + m \<le> unat l" using assms(1) by (simp add: fits_def)
  moreover have "unat (l - of_nat n) = unat l - n"
    using calculation unat_u64_less [of l]
    by (subst unat_sub) (simp_all add: word_le_nat_alt unat_of_nat_small)
  ultimately show ?thesis using assms(2) Cons by (simp add: fits_def adv_def consume_def)
qed (use assms in \<open>simp add: fits_def adv_def\<close>)

lemma u64_le_nat: "n < 2 ^ 64 \<Longrightarrow> of_nat n \<le> (w :: u64) \<longleftrightarrow> n \<le> unat w"
  by (simp add: word_le_nat_alt unat_of_nat_small)

lemma willRead_ok:
  assumes "live s" and "n \<le> length (rd s)" and "fits n s"
  shows "willRead (of_nat n) s = (Inr (), s\<lparr>kind := None, stack := consume n (stack s),
    remaining := of_nat (length (rd s) - n)\<rparr>)"
proof -
  have n: "n < 2 ^ 64" using assms by (simp add: live_def)
  have "(remaining s < of_nat n) = False"
    using assms n by (simp add: live_def not_less u64_le_nat unat_of_nat_small)
  moreover have "(hd (stack s) < of_nat n) = False" if "stack s \<noteq> []"
    using assms n that by (simp add: fits_def not_less u64_le_nat)
  moreover have "remaining s - of_nat n = of_nat (length (rd s) - n)"
    using assms by (simp add: live_def of_nat_diff)
  ultimately show ?thesis
    using assms(1)
    by (cases "stack s")
      (simp_all add: willRead_def listLimit_def live_def consume_def Let_def)
qed

lemma willRead_Inr:
  assumes "live s" and "willRead m s = (Inr (), s')"
  shows "unat m \<le> length (rd s)" and "fits (unat m) s"
proof -
  show "unat m \<le> length (rd s)"
    using assms
    by (auto simp: willRead_def live_def listLimit_def not_less Let_def u64_le_nat word_le_nat_alt
        unat_of_nat_small split: if_splits)
  show "fits (unat m) s"
    using assms
    by (cases "stack s")
      (auto simp: willRead_def fits_def listLimit_def not_less Let_def word_le_nat_alt split: if_splits)
qed

lemma willRead_Inl: "willRead m s = (Inl e, s') \<Longrightarrow> e \<noteq> EOL"
  by (auto simp: willRead_def Let_def split: if_splits prod.splits)

lemma readFull_ok:
  assumes "live s" and "n \<le> length (rd s)" and "fits n s"
  shows "\<exists>s'. readFull (of_nat n) s = (Inr (take n (rd s)), s') \<and> adv n s s' \<and> kind s' = None
    \<and> byteval s' = byteval s"
  using assms
  by (auto simp: readFull_def bindS_def willRead_ok live_def adv_def unat_of_nat_small)

lemma readFull_Inr:
  assumes "live s" and "readFull m s = (Inr b, s')"
  shows "b = take (unat m) (rd s) \<and> adv (unat m) s s' \<and> kind s' = None \<and> byteval s' = byteval s"
proof -
  obtain s1 where "willRead m s = (Inr (), s1)"
    using assms(2) by (auto simp: readFull_def bindS_def split: prod.splits sum.splits)
  from willRead_Inr [OF assms(1) this] readFull_ok [OF assms(1)] assms(2)
  show ?thesis by fastforce
qed

lemma readFull_Inl: "readFull m s = (Inl e, s') \<Longrightarrow> e \<noteq> EOL"
  by (auto simp: readFull_def bindS_def dest: willRead_Inl split: prod.splits sum.splits if_splits)

lemma readByte_readFull:
  "live s \<Longrightarrow> readByte s = (case readFull 1 s of (Inl e, s) \<Rightarrow> (Inl e, s) | (Inr b, s) \<Rightarrow> (Inr (hd b), s))"
  by (auto simp: readByte_def readFull_def bindS_def not_less neq_Nil_conv Suc_le_eq
      split: prod.splits sum.splits list.splits)

lemma readByte_ok:
  assumes "live s" and "rd s = x # xs" and "fits 1 s"
  shows "\<exists>s'. readByte s = (Inr x, s') \<and> adv 1 s s' \<and> kind s' = None \<and> byteval s' = byteval s"
  using readFull_ok [of s 1] assms by (auto simp: readByte_readFull)

lemma readByte_Inr:
  assumes "live s" and "readByte s = (Inr x, s')"
  shows "rd s = x # rd s' \<and> adv 1 s s' \<and> kind s' = None \<and> byteval s' = byteval s"
proof -
  obtain b where b: "readFull 1 s = (Inr b, s')" "x = hd b"
    using assms by (auto simp: readByte_readFull split: prod.splits sum.splits)
  from readFull_Inr [OF assms(1) b(1)] b(2) show ?thesis
    by (cases "rd s") (auto simp: adv_def)
qed

lemma readByte_Inl: "readByte s = (Inl e, s') \<Longrightarrow> e \<noteq> EOL"
  by (auto simp: readByte_def bindS_def dest: willRead_Inl split: prod.splits sum.splits list.splits)


subsection \<open>Type tags\<close>

lemma be_nat_pad [simp]: "be_nat (replicate k 0 @ bs) = be_nat bs"
  by (simp add: be_nat_append be_nat_replicate_0)

lemma readUint_ok:
  assumes "live s" and "rd s = BE n @ xs" and "0 < n" and "n < 2 ^ 64" and "fits (length (BE n)) s"
  shows "\<exists>s'. readUint (of_nat (length (BE n))) s = (Inr (of_nat n), s') \<and> adv (length (BE n)) s s'
    \<and> kind s' = None \<and> byteval s' = byteval s"
proof -
  let ?l = "length (BE n)"
  have l8: "?l \<le> 8" using assms(4) by (rule BE_length_u64)
  have ne: "BE n \<noteq> []" using assms(3) by simp
  show ?thesis
  proof (cases "?l = 1")
    case True
    then obtain x where x: "BE n = [x]" by (auto simp: length_Suc_conv)
    have "unat x = n" using be_nat_BE [of n] x by (simp add: be_nat_Cons)
    then have "ucast x = (of_nat n :: u64)"
      using assms(4) by (simp add: word_unat_eq_iff unat_of_nat_small)
    then show ?thesis
      using readByte_ok [of s x xs] assms x by (auto simp: readUint_def bindS_def)
  next
    case False
    have "unat (of_nat ?l :: byte) = ?l" using l8 by (intro unat_of_nat_byte) simp
    then have w: "(of_nat ?l :: byte) \<noteq> 0" "(of_nat ?l :: byte) \<noteq> 1" "ucast (of_nat ?l :: byte) = (of_nat ?l :: u64)"
      using False ne l8 by (auto simp: word_unat_eq_iff unat_of_nat_small)
    have "BE n ! 0 \<noteq> 0" using BE_hd [OF assms(3)] ne by (auto simp: hd_conv_nth)
    then show ?thesis
      using readFull_ok [of s ?l] assms w by (auto simp: readUint_def bindS_def)
  qed
qed

lemma readUint_Inr:
  assumes "live s" and "readUint (of_nat l) s = (Inr m, s')" and "1 \<le> l" and "l \<le> 8"
  shows "adv l s s' \<and> kind s' = None \<and> byteval s' = byteval s \<and> be_nat (take l (rd s)) = unat m
    \<and> (2 \<le> l \<longrightarrow> hd (rd s) \<noteq> 0)"
proof (cases "l = 1")
  case True
  then obtain x where x: "readByte s = (Inr x, s')" "m = ucast x"
    using assms(2) by (auto simp: readUint_def bindS_def split: prod.splits sum.splits)
  from readByte_Inr [OF assms(1) x(1)] x(2) True show ?thesis by (simp add: be_nat_Cons)
next
  case False
  have "unat (of_nat l :: byte) = l" using assms(4) by (intro unat_of_nat_byte) simp
  then have w: "(of_nat l :: byte) \<noteq> 0" "(of_nat l :: byte) \<noteq> 1" "ucast (of_nat l :: byte) = (of_nat l :: u64)"
    using False assms(3,4) by (auto simp: word_unat_eq_iff unat_of_nat_small)
  then obtain b where b: "readFull (of_nat l) s = (Inr b, s')" "b ! 0 \<noteq> 0" "m = of_nat (be_nat b)"
    using assms(2) by (auto simp: readUint_def bindS_def split: prod.splits sum.splits if_splits)
  have ul: "unat (of_nat l :: u64) = l" using assms(4) by (simp add: unat_of_nat_small)
  note r = readFull_Inr [OF assms(1) b(1), unfolded ul]
  have "length b = l" using r by (simp add: adv_def)
  have "be_nat b < 256 ^ 8"
    using be_nat_bound [of b] power_increasing [of l 8 "256 :: nat"] assms(4) \<open>length b = l\<close> by simp
  then have "unat m = be_nat b" using b(3) by (simp add: unat_of_nat_small)
  moreover have "hd (rd s) = b ! 0"
    using r assms(3) by (cases "rd s") (auto simp: adv_def nth_Cons')
  ultimately show ?thesis using r b(2) by presburger
qed

lemma readUint_Inl: "readUint l s = (Inl e, s') \<Longrightarrow> e \<noteq> EOL"
  by (auto simp: readUint_def bindS_def dest: readByte_Inl readFull_Inl
      split: prod.splits sum.splits if_splits)


text \<open>The bytes of a type tag.\<close>

definition tag :: "Kind \<Rightarrow> nat \<Rightarrow> byte \<Rightarrow> bytes" where
  "tag k n x = (if k = ByteK then [x] else rlp_head (kind_base k) n)"

lemma adv_byteval [simp]: "adv n s (s'\<lparr>byteval := x\<rparr>) = adv n s s'"
  by (simp add: adv_def live_def)

lemma adv_byteval_left [simp]: "adv n (s\<lparr>byteval := x\<rparr>) s' = adv n s s'"
  by (simp add: adv_def)

lemma live_byteval [simp]: "live (s\<lparr>byteval := x\<rparr>) = live s"
  by (simp add: live_def)

lemma fits_byteval [simp]: "fits n (s\<lparr>byteval := x\<rparr>) = fits n s"
  by (simp add: fits_def)

lemma readLongKind_ok:
  assumes "live s" and "rd s = BE n @ xs" and "56 \<le> n" and "n < 2 ^ 64" and "fits (length (BE n)) s"
  shows "\<exists>s'. readLongKind k (of_nat (length (BE n))) s = ((k, of_nat n, None), s')
    \<and> adv (length (BE n)) s s' \<and> kind s' = None"
proof -
  have "0 < n" using assms(3) by simp
  from readUint_ok [OF assms(1,2) this assms(4,5)] obtain s' where
    s': "readUint (of_nat (length (BE n))) s = (Inr (of_nat n), s')" "adv (length (BE n)) s s'" "kind s' = None"
    by blast
  have "\<not> (of_nat n :: u64) < 56"
    using assms(3,4) by (simp add: word_less_nat_alt unat_of_nat_small)
  then show ?thesis using s' by (simp add: readLongKind_def)
qed

lemma readKind_head:
  assumes "live s" and "rd s = rlp_head (kind_base k) n @ xs" and "k \<noteq> ByteK" and "n < 2 ^ 64"
    and "fits (length (rlp_head (kind_base k) n)) s"
  shows "\<exists>s'. readKind s = ((k, of_nat n, None), s') \<and> adv (length (rlp_head (kind_base k) n)) s s'
    \<and> kind s' = None"
proof (cases "n \<le> 55")
  case True
  then have rd: "rd s = of_nat (kind_base k + n) # xs" using assms(2) by (simp add: rlp_head_def)
  have u: "unat (of_nat (kind_base k + n) :: byte) = kind_base k + n"
    using True by (intro unat_of_nat_byte) (simp add: kind_base_def)
  have sub: "of_nat (kind_base k + n) - of_nat (kind_base k) = (of_nat n :: byte)" by simp
  have "fits 1 s" using assms(5) True by (simp add: rlp_head_def)
  from readByte_ok [OF assms(1) rd this] obtain s1 where
    "readByte s = (Inr (of_nat (kind_base k + n)), s1)" "adv 1 s s1" "kind s1 = None" by blast
  then show ?thesis
    using True u sub assms(3)
    by (cases k) (auto simp: readKind_def Let_def word_less_nat_alt kind_base_def ucast_of_nat_u64 rlp_head_def)
next
  case False
  let ?l = "length (BE n)"
  have l8: "?l \<le> 8" using assms(4) by (rule BE_length_u64)
  have l1: "1 \<le> ?l" using False by (cases "BE n") auto
  have rd: "rd s = of_nat (kind_base k + 55 + ?l) # BE n @ xs" using False assms(2) by (simp add: rlp_head_def)
  have u: "unat (of_nat (kind_base k + 55 + ?l) :: byte) = kind_base k + 55 + ?l"
    using l8 by (intro unat_of_nat_byte) (simp add: kind_base_def)
  have sub: "of_nat (kind_base k + 55 + ?l) - of_nat (kind_base k + 55) = (of_nat ?l :: byte)" by simp
  have f: "fits (1 + ?l) s" using assms(5) False by (simp add: rlp_head_def)
  then have "fits 1 s" by (auto simp: fits_def)
  from readByte_ok [OF assms(1) rd this] obtain s1 where
    s1: "readByte s = (Inr (of_nat (kind_base k + 55 + ?l)), s1)" "adv 1 s s1" by blast
  have "\<exists>s'. readLongKind k (of_nat ?l) (s1\<lparr>byteval := 0\<rparr>) = ((k, of_nat n, None), s')
    \<and> adv ?l (s1\<lparr>byteval := 0\<rparr>) s' \<and> kind s' = None"
    using s1(2) rd False assms(4) fits_adv [OF f s1(2)]
    by (intro readLongKind_ok) (auto simp: adv_def)
  then obtain s2 where s2: "readLongKind k (of_nat ?l) (s1\<lparr>byteval := 0\<rparr>) = ((k, of_nat n, None), s2)"
    "adv ?l s1 s2" "kind s2 = None" by auto
  have "adv (1 + ?l) s s2" using s1(2) s2(2) by (rule adv_trans)
  then show ?thesis
    using s1 s2 u sub assms(3) l1 l8 False
    by (cases k) (auto simp: readKind_def Let_def word_less_nat_alt kind_base_def rlp_head_def)
qed

lemma readKind_byte:
  assumes "live s" and "rd s = x # xs" and "unat x < 128" and "fits 1 s"
  shows "\<exists>s'. readKind s = ((ByteK, 0, None), s') \<and> adv 1 s s' \<and> kind s' = None \<and> byteval s' = x"
  using readByte_ok [OF assms(1,2,4)] assms(3) by (auto simp: readKind_def word_less_nat_alt Let_def)

lemma readLongKind_Inr:
  assumes "live s" and "readLongKind k (of_nat l) s = ((k', m, None), s')" and "1 \<le> l" and "l \<le> 8"
  shows "k' = k \<and> adv l s s' \<and> kind s' = None \<and> take l (rd s) = BE (unat m) \<and> 56 \<le> unat m"
proof -
  have r: "readUint (of_nat l) s = (Inr m, s')" and k: "k' = k" and m: "56 \<le> unat m"
    using assms(2) by (auto simp: readLongKind_def word_less_nat_alt split: prod.splits sum.splits if_splits)
  note u = readUint_Inr [OF assms(1) r assms(3,4)]
  have ne: "take l (rd s) \<noteq> []" using u assms(3) by (auto simp: adv_def)
  have "hd (take l (rd s)) \<noteq> 0"
  proof
    assume a: "hd (take l (rd s)) = 0"
    then have "l = 1" using u ne assms(3) by (cases "rd s"; cases l) auto
    then show False using u a m ne by (cases "rd s") (auto simp: be_nat_Cons)
  qed
  then have "BE (be_nat (take l (rd s))) = take l (rd s)" by (intro BE_be_nat) (simp add: unat_eq_0)
  then show ?thesis using u k m by simp
qed

lemma readKind_Inr:
  assumes "live s" and "readKind s = ((k, m, None), s')"
  shows "adv (length (tag k (unat m) (byteval s'))) s s' \<and> kind s' = None
    \<and> rd s = tag k (unat m) (byteval s') @ rd s' \<and> (k = ByteK \<longrightarrow> m = 0 \<and> unat (byteval s') < 128)"
proof -
  obtain x s1 where r: "readByte s = (Inr x, s1)"
    using assms(2) by (auto simp: readKind_def split: prod.splits sum.splits)
  note a = readByte_Inr [OF assms(1) r]
  let ?s1 = "s1\<lparr>byteval := 0\<rparr>"
  have long: ?thesis if x: "x = of_nat (kind_base k' + 55 + l)" and l: "1 \<le> l" "l \<le> 8" and k': "k' \<noteq> ByteK"
    and rk: "readLongKind k' (of_nat l) ?s1 = ((k, m, None), s')" for k' l
  proof -
    have "live ?s1" using a by (simp add: adv_def)
    from readLongKind_Inr [OF this rk l] have c: "k = k'" "adv l s1 s'" "kind s' = None"
      "take l (rd s1) = BE (unat m)" "56 \<le> unat m" by simp_all
    have len: "length (BE (unat m)) = l" using c(2,4) by (simp add: adv_def flip: c(4))
    have t: "tag k (unat m) (byteval s') = x # take l (rd s1)"
      using x c k' len by (simp add: tag_def rlp_head_def)
    have "adv (1 + l) s s'" using a c(2) by (blast intro: adv_trans)
    moreover have "rd s1 = take l (rd s1) @ rd s'" using c(2) by (simp add: adv_def)
    then have "rd s = x # take l (rd s1) @ rd s'" using a by metis
    ultimately show ?thesis using c t k' len by simp
  qed
  have short: ?thesis if x: "x = of_nat (kind_base k' + n)" and n: "n \<le> 55" and k': "k' \<noteq> ByteK"
    and rk: "(k, m, s') = (k', of_nat n, ?s1)" for k' n
    using a x n k' rk by (simp add: tag_def rlp_head_def unat_of_nat_small)
  consider (b) "unat x < 128" | (s) "128 \<le> unat x" "unat x < 184" | (sl) "184 \<le> unat x" "unat x < 192"
    | (l) "192 \<le> unat x" "unat x < 248" | (ll) "248 \<le> unat x" by linarith
  then show ?thesis
  proof cases
    case b
    then have "k = ByteK" "m = 0" "s' = s1\<lparr>byteval := x\<rparr>"
      using assms(2) r by (auto simp: readKind_def word_less_nat_alt Let_def)
    then show ?thesis using a b by (simp add: tag_def)
  next
    case s
    then obtain n where "x = of_nat (0x80 + n)" "x - of_nat 0x80 = of_nat n" "unat x = 0x80 + n"
      using byte_offset [of "0x80" x] by auto
    then show ?thesis using assms(2) r s
      by (intro short [of StringK n]) (auto simp: readKind_def word_less_nat_alt Let_def kind_base_def ucast_of_nat_u64)
  next
    case sl
    then obtain n where "x = of_nat (0xB7 + n)" "x - of_nat 0xB7 = of_nat n" "unat x = 0xB7 + n"
      using byte_offset [of "0xB7" x] by auto
    then show ?thesis using assms(2) r sl
      by (intro long [of StringK n]) (auto simp: readKind_def word_less_nat_alt Let_def kind_base_def)
  next
    case l
    then obtain n where "x = of_nat (0xC0 + n)" "x - of_nat 0xC0 = of_nat n" "unat x = 0xC0 + n"
      using byte_offset [of "0xC0" x] by auto
    then show ?thesis using assms(2) r l
      by (intro short [of ListK n]) (auto simp: readKind_def word_less_nat_alt Let_def kind_base_def ucast_of_nat_u64)
  next
    case ll
    then obtain n where "x = of_nat (0xF7 + n)" "x - of_nat 0xF7 = of_nat n" "unat x = 0xF7 + n"
      using byte_offset [of "0xF7" x] by auto
    then show ?thesis using assms(2) r ll unat_byte_less [of x]
      by (intro long [of ListK n]) (auto simp: readKind_def word_less_nat_alt Let_def kind_base_def)
  qed
qed


definition armed :: "Kind \<Rightarrow> nat \<Rightarrow> byte \<Rightarrow> stream \<Rightarrow> bool" where
  "armed k n x s \<longleftrightarrow> kind s = Some k \<and> sz s = of_nat n \<and> kinderr s = None \<and> (k = ByteK \<longrightarrow> byteval s = x)"

definition tag_ok :: "Kind \<Rightarrow> nat \<Rightarrow> byte \<Rightarrow> bool" where
  "tag_ok k n x \<longleftrightarrow> (k = ByteK \<longrightarrow> n = 0 \<and> unat x < 128)"

lemma tag_not_Nil [simp]: "tag k n x \<noteq> []"
  by (simp add: tag_def rlp_head_def)

lemma adv_Kind_fields [simp]:
  "adv n s (s'\<lparr>kind := k, sz := m, kinderr := e\<rparr>) = adv n s s'"
  "adv n s (s'\<lparr>kind := k\<rparr>) = adv n s s'"
  by (simp_all add: adv_def live_def)

lemma readKind_tag:
  assumes "live s" and "rd s = tag k n x @ xs" and "tag_ok k n x" and "n < 2 ^ 64"
    and "fits (length (tag k n x)) s"
  shows "\<exists>s'. readKind s = ((k, of_nat n, None), s') \<and> adv (length (tag k n x)) s s'
    \<and> kind s' = None \<and> (k = ByteK \<longrightarrow> byteval s' = x)"
proof (cases "k = ByteK")
  case True
  then show ?thesis using readKind_byte [of s x xs] assms by (auto simp: tag_def tag_ok_def)
next
  case False
  then show ?thesis using readKind_head [of s k n xs] assms by (auto simp: tag_def)
qed

lemma stream_Kind_tag:
  assumes "live s" and "kind s = None" and "rd s = tag k n x @ xs" and "tag_ok k n x"
    and "n \<le> length xs" and "fits (length (tag k n x) + n) s"
  shows "\<exists>s'. stream_Kind s = (Inr (k, of_nat n), s') \<and> adv (length (tag k n x)) s s' \<and> armed k n x s'"
proof -
  have n: "n < 2 ^ 64" using assms(1,3,5) by (simp add: live_def)
  have "fits (length (tag k n x)) s" using assms(6) by (auto simp: fits_def)
  from readKind_tag [OF assms(1,3,4) n this] obtain s' where
    s': "readKind s = ((k, of_nat n, None), s')" "adv (length (tag k n x)) s s'"
    "k = ByteK \<longrightarrow> byteval s' = x" by blast
  have "length (tag k n x) \<noteq> 0" by simp
  then have lim: "stack s \<noteq> [] \<Longrightarrow> hd (stack s) \<noteq> 0 \<and> \<not> hd (stack s) < of_nat n"
    using assms(6) n by (auto simp: fits_def not_less u64_le_nat)
  have "remaining s' = of_nat (length xs)" "limited s'" using s'(2) assms(3) by (simp_all add: adv_def live_def)
  moreover have "length xs < 2 ^ 64" using assms(1,3) by (simp add: live_def)
  ultimately have rem: "\<not> remaining s' < of_nat n"
    using n assms(5) by (simp add: not_less u64_le_nat unat_of_nat_small)
  show ?thesis
    using assms(2) s' lim rem \<open>limited s'\<close>
    by (cases "stack s") (auto simp: stream_Kind_def listLimit_def result_of_def armed_def)
qed

lemma stream_Kind_Inr:
  assumes "live s" and "kind s = None" and "stream_Kind s = (Inr (k, m), s')"
  shows "\<exists>x. adv (length (tag k (unat m) x)) s s' \<and> armed k (unat m) x s' \<and> tag_ok k (unat m) x
    \<and> rd s = tag k (unat m) x @ rd s' \<and> unat m \<le> length (rd s')"
proof -
  obtain s1 where r: "readKind s = ((k, m, None), s1)"
    and s': "s' = s1\<lparr>kind := Some k, sz := m, kinderr := None\<rparr>"
    and rem: "\<not> (limited s1 \<and> remaining s1 < m)"
    using assms(2,3)
    by (auto simp: stream_Kind_def result_of_def Let_def split: prod.splits if_splits option.splits)
  note k = readKind_Inr [OF assms(1) r]
  then have "live s1" by (blast intro: adv_live)
  then have "unat m \<le> length (rd s1)"
    using rem by (auto simp: live_def not_less word_le_nat_alt unat_of_nat_small)
  then show ?thesis using k s' by (intro exI [of _ "byteval s1"]) (auto simp: armed_def tag_ok_def)
qed

lemma readKind_err: "readKind s = ((k, m, Some e), s') \<Longrightarrow> e \<noteq> EOL"
  by (auto simp: readKind_def readLongKind_def Let_def dest: readByte_Inl readUint_Inl
      split: prod.splits sum.splits if_splits)

lemma stream_Kind_EOL: "kind s = None \<Longrightarrow> stack s = 0 # ls \<Longrightarrow> stream_Kind s = (Inl EOL, s)"
  by (simp add: stream_Kind_def listLimit_def)

lemma stream_Kind_EOL_only:
  assumes "kind s = None" and "stream_Kind s = (Inl EOL, s')"
  shows "s' = s \<and> (\<exists>ls. stack s = 0 # ls)"
proof (cases "stack s \<noteq> [] \<and> hd (stack s) = 0")
  case True
  then show ?thesis using assms by (cases "stack s") (auto simp: stream_Kind_def listLimit_def)
next
  case False
  obtain k m err s1 where r: "readKind s = ((k, m, err), s1)" by (metis prod.exhaust)
  then show ?thesis
    using False assms readKind_err [of s k m _ s1]
    by (simp add: stream_Kind_def listLimit_def result_of_def Let_def split: option.splits if_splits)
qed

lemma stream_Kind_again:
  assumes "stream_Kind s = (Inr x, s')"
  shows "stream_Kind s' = (Inr x, s')"
proof (cases "kind s")
  case None
  obtain k m err s1 where r: "readKind s = ((k, m, err), s1)" by (metis prod.exhaust)
  obtain inList lim where l: "listLimit s = (inList, lim)" by force
  from assms None r l obtain err' where "s' = s1\<lparr>kind := Some k, sz := m, kinderr := err'\<rparr>"
    and "Inr x = result_of k m err'"
    by (auto simp: stream_Kind_def Let_def split: if_splits)
  then show ?thesis by (simp add: stream_Kind_def)
qed (use assms in \<open>auto simp: stream_Kind_def\<close>)


subsection \<open>What a decoder promises\<close>

text \<open>One encoded value: a type tag and as many bytes as it announces.\<close>

definition framed :: "bytes \<Rightarrow> bool" where
  "framed b \<longleftrightarrow> (\<exists>k n x c. b = tag k n x @ c \<and> tag_ok k n x \<and> length c = n)"

lemma framed_not_Nil: "framed b \<Longrightarrow> b \<noteq> []"
  by (auto simp: framed_def)

text \<open>\<open>R v b\<close> says that the bytes \<open>b\<close> encode \<open>v\<close>; the laws hold for inputs shorter
  than \<open>N\<close>, the bound the decoder runs with. A decoder that meets \<open>exact_decoder\<close> accepts
  nothing but encodings.\<close>

locale value_decoder =
  fixes dec :: "stream \<Rightarrow> 'a sres option" and R :: "'a \<Rightarrow> bytes \<Rightarrow> bool" and N :: nat
  assumes total: "live s \<Longrightarrow> kind s = None \<Longrightarrow> length (rd s) < N \<Longrightarrow> dec s \<noteq> None"
    and progress: "live s \<Longrightarrow> kind s = None \<Longrightarrow> dec s = Some (Inr v, s')
      \<Longrightarrow> kind s' = None \<and> (\<exists>n > 0. adv n s s')"
    and framed: "R v b \<Longrightarrow> framed b"
    and complete: "R v b \<Longrightarrow> live s \<Longrightarrow> kind s = None \<Longrightarrow> rd s = b @ rest \<Longrightarrow> fits (length b) s
      \<Longrightarrow> length (rd s) < N \<Longrightarrow> \<exists>s'. dec s = Some (Inr v, s') \<and> adv (length b) s s' \<and> kind s' = None"
    and eol: "live s \<Longrightarrow> kind s = None \<Longrightarrow> stack s = 0 # ls \<Longrightarrow> length (rd s) < N
      \<Longrightarrow> dec s = Some (Inl EOL, s)"
    and eol_only: "live s \<Longrightarrow> kind s = None \<Longrightarrow> dec s = Some (Inl EOL, s')
      \<Longrightarrow> s' = s \<and> (\<exists>ls. stack s = 0 # ls)"
    and rearmed: "live s \<Longrightarrow> kind s = None \<Longrightarrow> stream_Kind s = (Inr x, s') \<Longrightarrow> dec s' = dec s"

locale exact_decoder = value_decoder dec R N
  for dec :: "stream \<Rightarrow> 'a sres option" and R :: "'a \<Rightarrow> bytes \<Rightarrow> bool" and N :: nat +
  assumes sound: "live s \<Longrightarrow> kind s = None \<Longrightarrow> dec s = Some (Inr v, s')
    \<Longrightarrow> \<exists>b. R v b \<and> rd s = b @ rd s' \<and> adv (length b) s s'"

lemma value_decoder_mono:
  assumes v: "value_decoder dec R N" and "M \<le> N"
  shows "value_decoder dec R M"
proof (rule value_decoder.intro)
  show "live s \<Longrightarrow> kind s = None \<Longrightarrow> length (rd s) < M \<Longrightarrow> dec s \<noteq> None" for s
    using value_decoder.total [OF v, of s] assms(2) by simp
  show "R x b \<Longrightarrow> live s \<Longrightarrow> kind s = None \<Longrightarrow> rd s = b @ rest \<Longrightarrow> fits (length b) s
    \<Longrightarrow> length (rd s) < M \<Longrightarrow> \<exists>s'. dec s = Some (Inr x, s') \<and> adv (length b) s s' \<and> kind s' = None" for x b s rest
    using value_decoder.complete [OF v, of x b s rest] assms(2) by simp
  show "live s \<Longrightarrow> kind s = None \<Longrightarrow> stack s = 0 # ls \<Longrightarrow> length (rd s) < M \<Longrightarrow> dec s = Some (Inl EOL, s)" for s ls
    using value_decoder.eol [OF v, of s ls] assms(2) by simp
qed (fact value_decoder.progress [OF v] value_decoder.framed [OF v] value_decoder.eol_only [OF v]
    value_decoder.rearmed [OF v])+

lemma exact_decoder_mono: "exact_decoder dec R N \<Longrightarrow> M \<le> N \<Longrightarrow> exact_decoder dec R M"
  unfolding exact_decoder_def using value_decoder_mono by blast

text \<open>A decoder that reads the type tag and continues with \<open>f\<close>.\<close>

lemma tag_decoder:
  assumes ok: "\<And>v b. R v b \<Longrightarrow> \<exists>k n x c. b = tag k n x @ c \<and> tag_ok k n x \<and> length c = n
      \<and> (\<forall>s rest. armed k n x s \<and> live s \<and> rd s = c @ rest \<and> fits n s
          \<longrightarrow> (\<exists>s'. f (k, of_nat n) s = (Inr v, s') \<and> adv n s s' \<and> kind s' = None))"
    and acc: "\<And>k n x s v s'. armed k n x s \<Longrightarrow> tag_ok k n x \<Longrightarrow> live s \<Longrightarrow> n \<le> length (rd s)
      \<Longrightarrow> f (k, of_nat n) s = (Inr v, s') \<Longrightarrow> adv n s s' \<and> kind s' = None \<and> R v (tag k n x @ take n (rd s))"
    and err: "\<And>p s s'. f p s \<noteq> (Inl EOL, s')"
  shows "exact_decoder (\<lambda>s. Some (bindS stream_Kind f s)) R N"
proof
  fix s s' :: stream and v
  assume s: "live s" "kind s = None" and d: "Some (bindS stream_Kind f s) = Some (Inr v, s')"
  then obtain k m s1 where k: "stream_Kind s = (Inr (k, m), s1)" and f: "f (k, m) s1 = (Inr v, s')"
    by (auto simp: bindS_def split: prod.splits sum.splits)
  from stream_Kind_Inr [OF s k] obtain x where x: "adv (length (tag k (unat m) x)) s s1"
    "armed k (unat m) x s1" "tag_ok k (unat m) x" "rd s = tag k (unat m) x @ rd s1" "unat m \<le> length (rd s1)"
    by blast
  let ?b = "tag k (unat m) x @ take (unat m) (rd s1)"
  have a: "adv (unat m) s1 s'" "kind s' = None" "R v ?b"
    using acc [OF x(2,3) _ x(5), of v s'] f x(1) by (simp_all add: adv_def)
  have len: "length ?b = length (tag k (unat m) x) + unat m" using x(5) by simp
  have adv: "adv (length ?b) s s'" unfolding len using x(1) a(1) by (rule adv_trans)
  show "kind s' = None \<and> (\<exists>n > 0. adv n s s')" using a adv by (intro conjI exI [of _ "length ?b"]) simp_all
  show "\<exists>b. R v b \<and> rd s = b @ rd s' \<and> adv (length b) s s'"
    using a adv x(4) by (intro exI [of _ ?b]) (simp add: adv_def)
next
  fix v b assume "R v b"
  then show "framed b" using ok [of v b] unfolding framed_def by blast
next
  fix v b rest and s :: stream
  assume r: "R v b" and s: "live s" "kind s = None" and rd: "rd s = b @ rest" and fit: "fits (length b) s"
  from ok [OF r] obtain k n x c where b: "b = tag k n x @ c" "tag_ok k n x" "length c = n"
    and f: "\<And>s rest. armed k n x s \<Longrightarrow> live s \<Longrightarrow> rd s = c @ rest \<Longrightarrow> fits n s
          \<Longrightarrow> \<exists>s'. f (k, of_nat n) s = (Inr v, s') \<and> adv n s s' \<and> kind s' = None" by blast
  have "fits (length (tag k n x) + n) s" using fit b by simp
  from stream_Kind_tag [OF s _ b(2) _ this, of "c @ rest"] obtain s1 where
    s1: "stream_Kind s = (Inr (k, of_nat n), s1)" "adv (length (tag k n x)) s s1" "armed k n x s1"
    using rd b by auto
  have "live s1" "rd s1 = c @ rest" "fits n s1"
    using s1(2) rd b fits_adv [OF \<open>fits (length (tag k n x) + n) s\<close> s1(2)] by (auto simp: adv_def)
  from f [OF s1(3) this] s1 obtain s' where "f (k, of_nat n) s1 = (Inr v, s')" "adv n s1 s'" "kind s' = None"
    by blast
  moreover have "adv (length b) s s'" using adv_trans [OF s1(2) calculation(2)] b by simp
  ultimately show "\<exists>s'. Some (bindS stream_Kind f s) = Some (Inr v, s') \<and> adv (length b) s s' \<and> kind s' = None"
    using s1 by (simp add: bindS_def)
next
  fix s :: stream and ls assume "kind s = None" "stack s = 0 # ls"
  then show "Some (bindS stream_Kind f s) = Some (Inl EOL, s)" by (simp add: bindS_def stream_Kind_EOL)
next
  fix s s' :: stream assume "kind s = None" "Some (bindS stream_Kind f s) = Some (Inl EOL, s')"
  then show "s' = s \<and> (\<exists>ls. stack s = 0 # ls)"
    using err stream_Kind_EOL_only [of s s'] by (auto simp: bindS_def split: prod.splits sum.splits)
next
  fix s x s' assume "stream_Kind s = (Inr x, s')"
  with stream_Kind_again [OF this] show "Some (bindS stream_Kind f s') = Some (bindS stream_Kind f s)"
    by (simp add: bindS_def)
qed simp

end
