(* ===== verification/Rlp_Decoders.thy ===== *)
theory Rlp_Decoders
  imports Rlp_Stream_Correct
begin

text \<open>
  Every decoder of \<open>rlp/decode.go\<close> meets the decoder contract: the decoders of strings and
  integers directly, those of lists, structs, pointers and interfaces from the contract of their
  elements.
\<close>

subsection \<open>Combining decoders\<close>

lemma bindD_Inr: "bindD r f = Some (Inr w, s') \<Longrightarrow> \<exists>v s. r = Some (Inr v, s) \<and> f v s = Some (Inr w, s')"
  by (auto simp: bindD_def split: option.splits prod.splits sum.splits)

lemma bindD_simps [simp]:
  "bindD None f = None" "bindD (Some (Inl e, s)) f = Some (Inl e, s)" "bindD (Some (Inr v, s)) f = f v s"
  by (simp_all add: bindD_def)

definition pureD :: "('a \<Rightarrow> rlp_error + 'b) \<Rightarrow> (stream \<Rightarrow> 'a sres option) \<Rightarrow> stream \<Rightarrow> 'b sres option" where
  "pureD g dec s = bindD (dec s) (\<lambda>v s. Some (g v, s))"

lemma pureD_Inr: "pureD g dec s = Some (Inr w, s') \<longleftrightarrow> (\<exists>v. dec s = Some (Inr v, s') \<and> g v = Inr w)"
  by (auto simp: pureD_def bindD_def split: option.splits prod.splits sum.splits)

lemma value_decoder_pureD:
  assumes d: "value_decoder dec R N" and g: "\<And>v. g v \<noteq> Inl EOL"
  shows "value_decoder (pureD g dec) (\<lambda>w b. \<exists>v. R v b \<and> g v = Inr w) N"
proof (rule value_decoder.intro)
  fix s s' :: stream and w
  assume "live s" "kind s = None" "pureD g dec s = Some (Inr w, s')"
  then show "kind s' = None \<and> (\<exists>n > 0. adv n s s')"
    using value_decoder.progress [OF d] by (auto simp: pureD_Inr)
next
  fix s :: stream assume "live s" "kind s = None" "length (rd s) < N"
  then show "pureD g dec s \<noteq> None"
    using value_decoder.total [OF d, of s] by (auto simp: pureD_def bindD_def split: prod.splits sum.splits)
next
  fix w b assume "\<exists>v. R v b \<and> g v = Inr w"
  then show "framed b" using value_decoder.framed [OF d] by auto
next
  fix w b rest and s :: stream
  assume "\<exists>v. R v b \<and> g v = Inr w" "live s" "kind s = None" "rd s = b @ rest" "fits (length b) s" "length (rd s) < N"
  then show "\<exists>s'. pureD g dec s = Some (Inr w, s') \<and> adv (length b) s s' \<and> kind s' = None"
    using value_decoder.complete [OF d] by (fastforce simp: pureD_Inr)
next
  fix s :: stream and ls assume "live s" "kind s = None" "stack s = 0 # ls" "length (rd s) < N"
  then show "pureD g dec s = Some (Inl EOL, s)"
    using value_decoder.eol [OF d, of s ls] by (simp add: pureD_def)
next
  fix s s' :: stream assume "live s" "kind s = None" "pureD g dec s = Some (Inl EOL, s')"
  then show "s' = s \<and> (\<exists>ls. stack s = 0 # ls)"
    using value_decoder.eol_only [OF d, of s s'] g
    by (auto simp: pureD_def bindD_def split: option.splits prod.splits sum.splits)
next
  fix s s' :: stream and x assume "live s" "kind s = None" "stream_Kind s = (Inr x, s')"
  then show "pureD g dec s' = pureD g dec s"
    using value_decoder.rearmed [OF d, of s x s'] by (simp add: pureD_def)
qed

lemma exact_decoder_pureD:
  assumes d: "exact_decoder dec R N" and g: "\<And>v. g v \<noteq> Inl EOL"
  shows "exact_decoder (pureD g dec) (\<lambda>w b. \<exists>v. R v b \<and> g v = Inr w) N"
proof (rule exact_decoder.intro)
  show "value_decoder (pureD g dec) (\<lambda>w b. \<exists>v. R v b \<and> g v = Inr w) N"
    using d g by (intro value_decoder_pureD) (auto simp: exact_decoder_def)
  show "exact_decoder_axioms (pureD g dec) (\<lambda>w b. \<exists>v. R v b \<and> g v = Inr w)"
    using exact_decoder.sound [OF d] by unfold_locales (auto simp: pureD_Inr, metis)
qed

lemma wrapStreamError_EOL [simp]: "wrapStreamError e = EOL \<longleftrightarrow> e = EOL"
  by (auto simp: wrapStreamError_def)

lemma wrapS_Inr [simp]: "wrapS m s = (Inr v, s') \<longleftrightarrow> m s = (Inr v, s')"
  by (auto simp: wrapS_def split: prod.splits sum.splits)

lemma wrapS_EOL [simp]: "wrapS m s = (Inl EOL, s') \<longleftrightarrow> m s = (Inl EOL, s')"
  by (auto simp: wrapS_def split: prod.splits sum.splits)

lemma exact_decoder_wrapS:
  assumes d: "exact_decoder (\<lambda>s. Some (m s)) R N"
  shows "exact_decoder (\<lambda>s. Some (wrapS m s)) R N"
proof -
  have m: "value_decoder (\<lambda>s. Some (m s)) R N" using d by (simp add: exact_decoder_def)
  have "value_decoder (\<lambda>s. Some (wrapS m s)) R N"
  proof (rule value_decoder.intro)
    show "live s \<Longrightarrow> kind s = None \<Longrightarrow> Some (wrapS m s) = Some (Inr v, s') \<Longrightarrow> kind s' = None \<and> (\<exists>n > 0. adv n s s')" for s v s'
      using value_decoder.progress [OF m, of s v s'] by simp
    show "R v b \<Longrightarrow> live s \<Longrightarrow> kind s = None \<Longrightarrow> rd s = b @ rest \<Longrightarrow> fits (length b) s \<Longrightarrow> length (rd s) < N
      \<Longrightarrow> \<exists>s'. Some (wrapS m s) = Some (Inr v, s') \<and> adv (length b) s s' \<and> kind s' = None" for v b s rest
      using value_decoder.complete [OF m, of v b s rest] by simp
    show "live s \<Longrightarrow> kind s = None \<Longrightarrow> stack s = 0 # ls \<Longrightarrow> length (rd s) < N \<Longrightarrow> Some (wrapS m s) = Some (Inl EOL, s)" for s ls
      using value_decoder.eol [OF m, of s ls] by simp
    show "live s \<Longrightarrow> kind s = None \<Longrightarrow> Some (wrapS m s) = Some (Inl EOL, s') \<Longrightarrow> s' = s \<and> (\<exists>ls. stack s = 0 # ls)" for s s'
      using value_decoder.eol_only [OF m, of s s'] by simp
    show "live s \<Longrightarrow> kind s = None \<Longrightarrow> stream_Kind s = (Inr x, s') \<Longrightarrow> Some (wrapS m s') = Some (wrapS m s)" for s x s'
      using value_decoder.rearmed [OF m, of s x s'] by (simp add: wrapS_def)
  qed (use value_decoder.framed [OF m] in simp_all)
  moreover have "exact_decoder_axioms (\<lambda>s. Some (wrapS m s)) R"
    by (rule exact_decoder_axioms.intro) (use exact_decoder.sound [OF d] in simp)
  ultimately show ?thesis by (rule exact_decoder.intro)
qed

lemma bindS_pure: "(\<lambda>s. Some (bindS m (\<lambda>v s. (g v, s)) s)) = pureD g (\<lambda>s. Some (m s))"
  by (auto simp: fun_eq_iff pureD_def bindS_def bindD_def split: prod.splits sum.splits)

subsection \<open>Strings\<close>

lemma rlp_str_tag:
  "\<exists>k n x c'. rlp_str c = tag k n x @ c' \<and> tag_ok k n x \<and> length c' = n \<and>
    (k = ByteK \<and> c = [x] \<and> c' = [] \<or> k = StringK \<and> c' = c \<and> \<not> (length c = 1 \<and> unat (c ! 0) < 128))"
proof (cases "length c = 1 \<and> unat (hd c) < 128")
  case True
  then obtain x where "c = [x]" by (auto simp: length_Suc_conv)
  with True show ?thesis
    by (intro exI [of _ ByteK] exI [of _ 0] exI [of _ x] exI [of _ "[]"])
      (simp add: rlp_str_def tag_def tag_ok_def)
next
  case False
  then have "\<not> (length c = 1 \<and> unat (c ! 0) < 128)" by (cases c) auto
  with False show ?thesis
    by (intro exI [of _ StringK] exI [of _ "length c"] exI [of _ 0] exI [of _ c])
      (auto simp: rlp_str_def tag_def tag_ok_def kind_base_def)
qed

lemma adv_refl: "live s \<Longrightarrow> adv 0 s s"
  by (simp add: adv_def)

lemma bindS_EOL:
  "bindS m f s = (Inl EOL, s') \<Longrightarrow>
    m s = (Inl EOL, s') \<or> (\<exists>v s1. m s = (Inr v, s1) \<and> f v s1 = (Inl EOL, s'))"
  by (auto simp: bindS_def split: prod.splits sum.splits)

lemma readFull_bind_EOL: "(\<And>v s. f v s \<noteq> (Inl EOL, s')) \<Longrightarrow> bindS (readFull n) f s \<noteq> (Inl EOL, s')"
  by (auto dest!: bindS_EOL dest: readFull_Inl)

lemma take_1_nth: "xs \<noteq> [] \<Longrightarrow> take (Suc 0) xs = [xs ! 0]"
  by (cases xs) simp_all

lemma tag_rlp_str:
  assumes "tag_ok k n x" and "n \<le> length r" and "k \<noteq> ListK"
    and "k = StringK \<Longrightarrow> \<not> (n = 1 \<and> unat (take n r ! 0) < 128)"
  shows "tag k n x @ take n r = rlp_str (if k = ByteK then [x] else take n r)"
  using assms
  by (cases k; cases "n = 1"; cases r)
    (auto simp: tag_def tag_ok_def rlp_str_def kind_base_def min_absorb2 take_1_nth hd_conv_nth)

lemma content_decoder:
  assumes "\<And>n s. f (ListK, n) s = (Inl ErrExpectedString, s)"
    and "\<And>n s. f (ByteK, n) s = (Inr [byteval s], s\<lparr>kind := None\<rparr>)"
    and str: "\<And>n s. live s \<Longrightarrow> f (StringK, n) s = bindS (readFull n) (\<lambda>b s.
        if n = 1 \<and> b ! 0 < 128 then (Inl ErrCanonSize, s) else (Inr b, s)) s"
    and err: "\<And>n s s'. f (StringK, n) s \<noteq> (Inl EOL, s')"
  shows "exact_decoder (\<lambda>s. Some (bindS stream_Kind f s)) (\<lambda>c b. b = rlp_str c) N"
proof (rule tag_decoder)
  fix c b assume b: "b = rlp_str c"
  obtain k n x c' where t: "rlp_str c = tag k n x @ c'" "tag_ok k n x" "length c' = n"
    and kc: "k = ByteK \<and> c = [x] \<and> c' = [] \<or> k = StringK \<and> c' = c \<and> \<not> (length c = 1 \<and> unat (c ! 0) < 128)"
    using rlp_str_tag [of c] by blast
  have "\<exists>s'. f (k, of_nat n) s = (Inr c, s') \<and> adv n s s' \<and> kind s' = None"
    if s: "armed k n x s" "live s" "rd s = c' @ rest" "fits n s" for s rest
    using kc
  proof
    assume "k = ByteK \<and> c = [x] \<and> c' = []"
    then show ?thesis using s t assms(2) by (simp add: armed_def adv_refl)
  next
    assume k: "k = StringK \<and> c' = c \<and> \<not> (length c = 1 \<and> unat (c ! 0) < 128)"
    have "n < 2 ^ 64" using s t by (simp add: live_def)
    then have "(of_nat n :: u64) = 1 \<longleftrightarrow> n = 1" by (simp add: word_unat_eq_iff unat_of_nat_small)
    then show ?thesis
      using readFull_ok [of s n] s t k by (auto simp: str bindS_def word_less_nat_alt)
  qed
  then show "\<exists>k n x c'. b = tag k n x @ c' \<and> tag_ok k n x \<and> length c' = n
      \<and> (\<forall>s rest. armed k n x s \<and> live s \<and> rd s = c' @ rest \<and> fits n s
          \<longrightarrow> (\<exists>s'. f (k, of_nat n) s = (Inr c, s') \<and> adv n s s' \<and> kind s' = None))"
    using b t by blast
next
  fix k n x c and s s' :: stream
  assume a: "armed k n x s" "tag_ok k n x" "live s" "n \<le> length (rd s)" "f (k, of_nat n) s = (Inr c, s')"
  have n: "n < 2 ^ 64" using a by (simp add: live_def)
  then have one: "(of_nat n :: u64) = 1 \<longleftrightarrow> n = 1" by (simp add: word_unat_eq_iff unat_of_nat_small)
  show "adv n s s' \<and> kind s' = None \<and> tag k n x @ take n (rd s) = rlp_str c"
  proof (cases k)
    case ByteK
    then show ?thesis
      using a assms(2) tag_rlp_str [of k n x "rd s"] by (auto simp: armed_def adv_refl tag_ok_def)
  next
    case StringK
    then have "readFull (of_nat n) s = (Inr c, s')" and ns: "\<not> (n = 1 \<and> unat (c ! 0) < 128)"
      using a one by (auto simp: str bindS_def word_less_nat_alt split: prod.splits sum.splits if_splits)
    with readFull_Inr [OF a(3), of "of_nat n" c s'] n have "c = take n (rd s)" "adv n s s'" "kind s' = None"
      by (auto simp: unat_of_nat_small)
    then show ?thesis using tag_rlp_str [of k n x "rd s"] a StringK ns by auto
  qed (use a assms(1) in simp)
next
  fix p and s s' :: stream
  show "f p s \<noteq> (Inl EOL, s')"
    using assms err by (cases p; cases "fst p") auto
qed

lemma Bytes_decoder: "exact_decoder (\<lambda>s. Some (stream_Bytes s)) (\<lambda>c b. b = rlp_str c) N"
  unfolding stream_Bytes_def
  by (rule content_decoder) (simp_all add: readFull_bind_EOL)


lemma bigIntBuffer_decoder: "exact_decoder (\<lambda>s. Some (bigIntBuffer s)) (\<lambda>c b. b = rlp_str c) N"
  unfolding bigIntBuffer_def
proof (rule content_decoder)
  fix n :: u64 and s :: stream assume s: "live s"
  have zero: "readFull 0 s = (Inr [], s\<lparr>kind := None\<rparr>)"
    using willRead_ok [of s 0] s by (simp add: readFull_def bindS_def fits_def live_def)
  show "(case (StringK, n) of (k, n) \<Rightarrow> \<lambda>s. if k = ListK then (Inl ErrExpectedString, s)
      else if k = ByteK then (Inr [byteval s], s\<lparr>kind := None\<rparr>)
      else if n = 0 then (Inr [], s\<lparr>kind := None\<rparr>)
      else if n \<le> 32 then bindS (readFull n) (\<lambda>buffer s.
        if n = 1 \<and> buffer ! 0 < 128 then (Inl ErrCanonSize, s) else (Inr buffer, s)) s
      else readFull n s) s =
    bindS (readFull n) (\<lambda>b s. if n = 1 \<and> b ! 0 < 128 then (Inl ErrCanonSize, s) else (Inr b, s)) s"
    using zero by (auto simp: bindS_def split: prod.splits sum.splits)
qed (auto simp: readFull_bind_EOL dest: readFull_Inl split: if_splits)

lemma decodeBigInt_decoder:
  "exact_decoder (\<lambda>s. Some (decodeBigInt s)) (\<lambda>i b. 0 \<le> i \<and> b = rlp_str (BE (nat i))) N"
proof -
  let ?g = "\<lambda>buffer. if length buffer > 0 \<and> buffer ! 0 = (0 :: byte) then Inl ErrCanonInt else Inr (int (be_nat buffer))"
  have eq: "(\<lambda>s. Some (bindS bigIntBuffer (\<lambda>buffer s.
     if length buffer > 0 \<and> buffer ! 0 = 0 then (Inl ErrCanonInt, s)
     else (Inr (int (be_nat buffer)), s)) s)) = pureD ?g (\<lambda>s. Some (bigIntBuffer s))"
    by (subst bindS_pure [symmetric]) (simp add: fun_eq_iff bindS_def split: prod.splits sum.splits)
  have R: "(\<lambda>i b. \<exists>c. b = rlp_str c \<and> ?g c = Inr i) = (\<lambda>i b. 0 \<le> i \<and> b = rlp_str (BE (nat i)))"
  proof (intro ext iffI)
    fix i b assume "\<exists>c. b = rlp_str c \<and> ?g c = Inr i"
    then obtain c where c: "b = rlp_str c" "c = [] \<or> c ! 0 \<noteq> 0" "i = int (be_nat c)"
      by (auto split: if_splits)
    then have "BE (be_nat c) = c" by (intro BE_be_nat) (auto simp: hd_conv_nth unat_eq_0)
    then show "0 \<le> i \<and> b = rlp_str (BE (nat i))" using c by simp
  next
    fix i b assume a: "0 \<le> i \<and> b = rlp_str (BE (nat i))"
    have "\<not> (length (BE (nat i)) > 0 \<and> BE (nat i) ! 0 = 0)"
      using BE_hd [of "nat i"] by (cases "nat i = 0") (auto simp: hd_conv_nth)
    then show "\<exists>c. b = rlp_str c \<and> ?g c = Inr i" using a by (intro exI [of _ "BE (nat i)"]) simp
  qed
  have "exact_decoder (pureD ?g (\<lambda>s. Some (bigIntBuffer s))) (\<lambda>i b. 0 \<le> i \<and> b = rlp_str (BE (nat i))) N"
    using exact_decoder_pureD [OF bigIntBuffer_decoder, of ?g N] unfolding R by simp
  then show ?thesis unfolding decodeBigInt_def eq [symmetric] by (rule exact_decoder_wrapS)
qed

lemma byte_cast: "n < 256 \<Longrightarrow> (ucast (of_nat n :: u64) :: byte) = of_nat n"
  by (simp add: word_unat_eq_iff unat_of_nat_byte unat_ucast_low_byte unat_of_nat_small)

definition uint_enc :: "nat \<Rightarrow> u64 \<Rightarrow> bytes \<Rightarrow> bool" where
  "uint_enc bits i b \<longleftrightarrow> unat i < 2 ^ bits \<and> b = rlp_str (BE (unat i))"

lemma uint_string:
  assumes "live s" and "n \<le> length (rd s)" and "n \<le> 8" and "readUint (of_nat n) s = (Inr v, s')"
    and "0 < n \<Longrightarrow> 128 \<le> unat v"
  shows "adv n s s' \<and> kind s' = None \<and> tag StringK n x @ take n (rd s) = rlp_str (BE (unat v))
    \<and> unat v < 256 ^ n"
proof (cases "n = 0")
  case True
  then have "v = 0" "s' = s\<lparr>kind := None\<rparr>" using assms(4) by (auto simp: readUint_def)
  then show ?thesis
    using True assms(1) by (simp add: adv_refl tag_def rlp_str_def kind_base_def)
next
  case False
  then have u: "adv n s s'" "kind s' = None" "be_nat (take n (rd s)) = unat v" "2 \<le> n \<longrightarrow> hd (rd s) \<noteq> 0"
    using readUint_Inr [OF assms(1,4)] assms(3) by simp_all
  let ?t = "take n (rd s)"
  obtain y ys where t: "?t = y # ys" using False assms(2) by (cases ?t) auto
  have y: "y \<noteq> 0"
  proof (cases "n = 1")
    case True
    then have "ys = []" using t assms(2) by (cases "rd s") auto
    then show ?thesis using u(3) t assms(5) True by (auto simp: be_nat_Cons)
  qed (use u(4) t False in \<open>cases "rd s"; cases n; auto\<close>)
  then have BE: "BE (unat v) = ?t" using BE_be_nat [of ?t] t u(3) by (simp add: unat_eq_0)
  moreover have "\<not> (length ?t = 1 \<and> unat (hd ?t) < 128)"
    using u(3) t assms(5) False by (auto simp: be_nat_Cons)
  then have "rlp_str ?t = rlp_head 0x80 (length ?t) @ ?t" unfolding rlp_str_def by (rule if_not_P)
  ultimately have "tag StringK n x @ ?t = rlp_str (BE (unat v))"
    using assms(2) by (simp add: tag_def kind_base_def min_absorb2)
  moreover have "unat v < 256 ^ n" using be_nat_bound [of ?t] u(3) assms(2) by (simp add: min_absorb2)
  ultimately show ?thesis using u by simp
qed

lemma uint_tag:
  "\<exists>k n x c. rlp_str (BE (unat (i :: u64))) = tag k n x @ c \<and> tag_ok k n x \<and> length c = n \<and>
    (k = ByteK \<and> i = ucast x \<and> x \<noteq> 0 \<and> c = [] \<or>
     k = StringK \<and> c = BE (unat i) \<and> (0 < n \<longrightarrow> 128 \<le> unat i))"
proof -
  obtain k n x c' where t: "rlp_str (BE (unat i)) = tag k n x @ c'" "tag_ok k n x" "length c' = n"
    and kc: "k = ByteK \<and> BE (unat i) = [x] \<and> c' = [] \<or>
      k = StringK \<and> c' = BE (unat i) \<and> \<not> (length (BE (unat i)) = 1 \<and> unat (BE (unat i) ! 0) < 128)"
    using rlp_str_tag [of "BE (unat i)"] by blast
  from kc have "k = ByteK \<and> i = ucast x \<and> x \<noteq> 0 \<and> c' = [] \<or>
     k = StringK \<and> c' = BE (unat i) \<and> (0 < n \<longrightarrow> 128 \<le> unat i)"
  proof
    assume k: "k = ByteK \<and> BE (unat i) = [x] \<and> c' = []"
    have "unat i = unat x" using be_nat_BE [of "unat i"] k by (simp add: be_nat_Cons)
    moreover have "0 < unat i" using k by (cases "unat i = 0") auto
    ultimately show ?thesis using k by (auto simp: word_unat_eq_iff)
  next
    assume k: "k = StringK \<and> c' = BE (unat i) \<and> \<not> (length (BE (unat i)) = 1 \<and> unat (BE (unat i) ! 0) < 128)"
    have "128 \<le> unat i" if "0 < n"
    proof (rule ccontr)
      assume a: "\<not> 128 \<le> unat i"
      have "0 < unat i" using that k t(3) by (cases "unat i = 0") auto
      then have "BE (unat i) = [of_nat (unat i)]" using a by (intro BE_small) simp_all
      then show False using k a by (simp add: unat_ucast_low_byte)
    qed
    then show ?thesis using k by simp
  qed
  then show ?thesis using t by blast
qed


lemma uint_decoder:
  assumes bits: "bits \<in> {8, 16, 32, 64}"
  shows "exact_decoder (\<lambda>s. Some (stream_uint bits s)) (uint_enc bits) N"
  unfolding stream_uint_def
proof (rule tag_decoder, goal_cases)
  case (1 i b)
  obtain k n x c where t: "rlp_str (BE (unat i)) = tag k n x @ c" "tag_ok k n x" "length c = n"
    and kc: "k = ByteK \<and> i = ucast x \<and> x \<noteq> 0 \<and> c = [] \<or>
     k = StringK \<and> c = BE (unat i) \<and> (0 < n \<longrightarrow> 128 \<le> unat i)"
    using uint_tag [of i] by blast
  let ?f = "\<lambda>(k, n :: u64) s. case k of
       ByteK \<Rightarrow> if byteval s = 0 then (Inl ErrCanonInt, s) else (Inr (ucast (byteval s)), s\<lparr>kind := None\<rparr>)
     | StringK \<Rightarrow> if n > of_nat (bits div 8) then (Inl ErrUintOverflow, s)
         else (case readUint (ucast n) s of
             (Inl e, s) \<Rightarrow> (Inl (if e = ErrCanonSize then ErrCanonInt else e), s)
           | (Inr v, s) \<Rightarrow> if n > 0 \<and> v < 128 then (Inl ErrCanonSize, s) else (Inr v, s))
     | ListK \<Rightarrow> (Inl ErrExpectedString, s :: stream)"
  have "\<exists>s'. ?f (k, of_nat n) s = (Inr i, s') \<and> adv n s s' \<and> kind s' = None"
    if s: "armed k n x s" "live s" "rd s = c @ rest" "fits n s" for s rest
    using kc
  proof
    assume "k = ByteK \<and> i = ucast x \<and> x \<noteq> 0 \<and> c = []"
    then show ?thesis using s t by (auto simp: armed_def adv_refl)
  next
    assume k: "k = StringK \<and> c = BE (unat i) \<and> (0 < n \<longrightarrow> 128 \<le> unat i)"
    have "256 ^ (bits div 8) = (2 ^ bits :: nat)" using bits by auto
    then have nb: "n \<le> bits div 8" using BE_length_le [of "unat i" "bits div 8"] 1 k t by (simp add: uint_enc_def)
    then have n8: "n \<le> 8" using bits by auto
    have "(of_nat (bits div 8) :: u64) < of_nat n \<longleftrightarrow> False"
      using nb n8 bits by (subst of_nat_less_u64) auto
    moreover have "\<exists>s'. readUint (of_nat n) s = (Inr i, s') \<and> adv n s s' \<and> kind s' = None"
    proof (cases "i = 0")
      case True
      then show ?thesis using k t(3) s by (auto simp: readUint_def adv_refl)
    next
      case False
      then have "0 < unat i" by (metis unat_eq_0 gr0I)
      then show ?thesis
        using readUint_ok [of s "unat i" rest] s t(3) k unat_u64_less [of i] by auto
    qed
    moreover have "\<not> (0 < (of_nat n :: u64) \<and> i < 128)"
      using k n8 by (auto simp: word_less_nat_alt unat_of_nat_small)
    ultimately show ?thesis using k n8 by (auto simp: byte_cast)
  qed
  then show ?case using t 1 unfolding uint_enc_def by blast
next
  case (2 k n x s v s')
  show ?case
  proof (cases k)
    case ByteK
    then have v: "v = ucast x" "x \<noteq> 0" "s' = s\<lparr>kind := None\<rparr>" "n = 0" "unat x < 128"
      using 2 by (auto simp: armed_def tag_ok_def split: if_splits)
    then have "BE (unat v) = [x]" using BE_be_nat [of "[x]"] by (simp add: be_nat_Cons unat_eq_0)
    moreover have "(128 :: nat) \<le> 2 ^ bits" using bits by auto
    ultimately show ?thesis
      using v ByteK 2 by (simp add: uint_enc_def rlp_str_def tag_def adv_refl)
  next
    case StringK
    have "n < 2 ^ 64" using 2 by (simp add: live_def)
    then have n: "n \<le> bits div 8"
      using 2(5) StringK bits by (auto simp: not_less u64_le_nat unat_of_nat_small split: if_splits)
    then have n8: "n \<le> 8" using bits by auto
    have r: "readUint (of_nat n) s = (Inr v, s')" and "0 < n \<Longrightarrow> 128 \<le> unat v"
      using 2(5) StringK n8
      by (auto simp: byte_cast word_less_nat_alt unat_of_nat_small split: if_splits prod.splits sum.splits)
    from uint_string [OF 2(3,4) n8 this, of x] have u: "adv n s s'" "kind s' = None"
      "tag StringK n x @ take n (rd s) = rlp_str (BE (unat v))" "unat v < 256 ^ n" by auto
    have "256 ^ n \<le> (256 :: nat) ^ (bits div 8)" using n by (intro power_increasing) simp_all
    also have "\<dots> = 2 ^ bits" using bits by auto
    finally show ?thesis using u StringK by (simp add: uint_enc_def)
  qed (use 2 in simp)
next
  case (3 p s s')
  then show ?case
    by (cases p; cases "fst p") (auto dest: readUint_Inl split: prod.splits sum.splits if_splits)
qed

lemma bytearray_decoder:
  assumes "len < 2 ^ 63"
  shows "exact_decoder (\<lambda>s. Some (decodeByteArray len s))
    (\<lambda>v b. \<exists>c. v = GByteArray c \<and> length c = len \<and> b = rlp_str c) N"
  unfolding decodeByteArray_def
proof (rule tag_decoder, goal_cases)
  case (1 v b)
  then obtain c where c: "v = GByteArray c" "length c = len" "b = rlp_str c" by blast
  obtain k n x c' where t: "rlp_str c = tag k n x @ c'" "tag_ok k n x" "length c' = n"
    and kc: "k = ByteK \<and> c = [x] \<and> c' = [] \<or> k = StringK \<and> c' = c \<and> \<not> (length c = 1 \<and> unat (c ! 0) < 128)"
    using rlp_str_tag [of c] by blast
  let ?f = "\<lambda>(k, n :: u64) s. case k of
       ByteK \<Rightarrow> if len = 0 then (Inl InputTooLong, s) else if len > 1 then (Inl InputTooShort, s)
         else (Inr (GByteArray [byteval s]), s\<lparr>kind := None\<rparr>)
     | StringK \<Rightarrow> if of_nat len < n then (Inl InputTooLong, s)
         else if of_nat len > n then (Inl InputTooShort, s)
         else bindS (readFull (of_nat len)) (\<lambda>slice s.
           if n = 1 \<and> slice ! 0 < 128 then (Inl (wrapStreamError ErrCanonSize), s)
           else (Inr (GByteArray slice), s)) s
     | ListK \<Rightarrow> (Inl (wrapStreamError ErrExpectedString), s :: stream)"
  have "\<exists>s'. ?f (k, of_nat n) s = (Inr v, s') \<and> adv n s s' \<and> kind s' = None"
    if s: "armed k n x s" "live s" "rd s = c' @ rest" "fits n s" for s rest
    using kc
  proof
    assume "k = ByteK \<and> c = [x] \<and> c' = []"
    then show ?thesis using s t c by (auto simp: armed_def adv_refl)
  next
    assume k: "k = StringK \<and> c' = c \<and> \<not> (length c = 1 \<and> unat (c ! 0) < 128)"
    have "(of_nat n :: u64) = 1 \<longleftrightarrow> n = 1"
      using assms c k t by (simp add: word_unat_eq_iff unat_of_nat_small)
    then show ?thesis
      using readFull_ok [of s n] s t k c by (auto simp: bindS_def word_less_nat_alt)
  qed
  then show ?case using t c by blast
next
  case (2 k n x s v s')
  have n: "n < 2 ^ 64" using 2 by (simp add: live_def)
  then have one: "(of_nat n :: u64) = 1 \<longleftrightarrow> n = 1" by (simp add: word_unat_eq_iff unat_of_nat_small)
  show ?case
  proof (cases k)
    case ByteK
    then show ?thesis
      using 2 tag_rlp_str [of k n x "rd s"]
      by (auto simp: armed_def adv_refl tag_ok_def split: if_splits)
  next
    case StringK
    then have "of_nat len = (of_nat n :: u64)" using 2(5) by (auto split: if_splits)
    then have len: "len = n" using n assms by (simp add: word_unat_eq_iff unat_of_nat_small)
    then obtain c where "readFull (of_nat n) s = (Inr c, s')" and ns: "\<not> (n = 1 \<and> unat (c ! 0) < 128)"
      and v: "v = GByteArray c"
      using 2(5) one StringK by (auto simp: bindS_def word_less_nat_alt split: prod.splits sum.splits if_splits)
    with readFull_Inr [OF 2(3), of "of_nat n" c s'] n have "c = take n (rd s)" "adv n s s'" "kind s' = None"
      by (auto simp: unat_of_nat_small)
    then show ?thesis using tag_rlp_str [of k n x "rd s"] 2 StringK ns v len by auto
  qed (use 2 in simp)
next
  case (3 p s s')
  then show ?case
    by (cases p; cases "fst p") (auto simp: readFull_bind_EOL split: if_splits)
qed

end
