(* ===== verification/Rlp_Decode_Lists.thy ===== *)
theory Rlp_Decode_Lists
  imports Rlp_Decoders
begin

text \<open>
  Raw values, and the decoders of slices, arrays and interfaces: given that the element decoder
  meets its contract, so does the decoder of the list.
\<close>

subsection \<open>Raw values\<close>

text \<open>The encodings of single values, decided by looking at the bytes.\<close>

definition is_raw :: "bytes \<Rightarrow> bool" where
  "is_raw b \<longleftrightarrow> (length b = 1 \<and> unat (hd b) < 128) \<or>
    (\<exists>n \<in> set [0..<length b]. take (length b - n) b \<in> {rlp_head 0x80 n, rlp_head 0xC0 n})"

lemma is_raw_tag:
  "is_raw b \<longleftrightarrow> framed b"
  unfolding framed_def
proof
  assume "is_raw b"
  then consider x where "b = [x]" "unat x < 128"
    | n base where "n < length b" "base = (0x80 :: nat) \<or> base = 0xC0" "take (length b - n) b = rlp_head base n"
    by (auto simp: is_raw_def length_Suc_conv) blast+
  then show "\<exists>k n x c. b = tag k n x @ c \<and> tag_ok k n x \<and> length c = n"
  proof cases
    case 1
    then show ?thesis by (intro exI [of _ ByteK] exI [of _ 0] exI [of _ x] exI [of _ "[]"])
        (simp add: tag_def tag_ok_def)
  next
    case 2
    have "b = rlp_head base n @ drop (length b - n) b" using 2(3) by (metis append_take_drop_id)
    then show ?thesis
      using 2(1,2) by (intro exI [of _ "if base = 0x80 then StringK else ListK"] exI [of _ n] exI [of _ 0]
          exI [of _ "drop (length b - n) b"]) (auto simp: tag_def tag_ok_def kind_base_def)
  qed
next
  assume "\<exists>k n x c. b = tag k n x @ c \<and> tag_ok k n x \<and> length c = n"
  then obtain k n x c where b: "b = tag k n x @ c" "tag_ok k n x" "length c = n" by blast
  have "length (tag k n x) > 0" by simp
  then have n: "n < length b" "take (length b - n) b = tag k n x" using b by simp_all
  show "is_raw b"
  proof (cases "k = ByteK")
    case True
    then show ?thesis using b by (simp add: is_raw_def tag_def tag_ok_def)
  next
    case False
    then show ?thesis using n unfolding is_raw_def by (intro disjI2 bexI [of _ n]) (auto simp: tag_def kind_base_def)
  qed
qed

lemma puthead_tag:
  "k \<noteq> ByteK \<Longrightarrow> n < 2 ^ 64 \<Longrightarrow>
    (if k = StringK then puthead 0x80 0xB7 (of_nat n) else puthead 0xC0 0xF7 (of_nat n)) = tag k n x"
  using puthead_rlp_head [of n "0x80"] puthead_rlp_head [of n "0xC0"]
  by (cases k) (simp_all add: tag_def kind_base_def)

lemma Raw_decoder: "exact_decoder (\<lambda>s. Some (stream_Raw s)) (\<lambda>c b. b = c \<and> is_raw c) N"
  unfolding stream_Raw_def
proof (rule tag_decoder, goal_cases)
  case (1 v b)
  then obtain k n x c where t: "b = tag k n x @ c" "tag_ok k n x" "length c = n"
    by (auto simp: is_raw_tag framed_def)
  let ?f = "\<lambda>(k, n :: u64) s. if k = ByteK then (Inr [byteval s], s\<lparr>kind := None\<rparr>)
     else bindS (readFull n) (\<lambda>b s.
       (Inr ((if k = StringK then puthead 0x80 0xB7 n else puthead 0xC0 0xF7 n) @ b), s :: stream)) s"
  have "\<exists>s'. ?f (k, of_nat n) s = (Inr v, s') \<and> adv n s s' \<and> kind s' = None"
    if s: "armed k n x s" "live s" "rd s = c @ rest" "fits n s" for s rest
  proof (cases "k = ByteK")
    case True
    then show ?thesis using s t 1 by (auto simp: armed_def adv_refl tag_def tag_ok_def)
  next
    case False
    have n: "n < 2 ^ 64" using s t by (simp add: live_def)
    obtain s' where "readFull (of_nat n) s = (Inr c, s')" "adv n s s'" "kind s' = None"
      using readFull_ok [of s n] s t by auto
    then show ?thesis using False t(1) 1 puthead_tag [OF False n, of x] by (simp add: bindS_def)
  qed
  then show ?case using t by blast
next
  case (2 k n x s v s')
  have n: "n < 2 ^ 64" using 2 by (simp add: live_def)
  have raw: "is_raw (tag k n x @ take n (rd s))" 
    using 2(2,4) unfolding is_raw_tag framed_def
    by (intro exI [of _ k] exI [of _ n] exI [of _ x] exI [of _ "take n (rd s)"]) (simp add: min_absorb2)
  show ?case
  proof (cases "k = ByteK")
    case True
    then show ?thesis using 2 raw by (auto simp: armed_def adv_refl tag_def tag_ok_def)
  next
    case False
    then obtain c where c: "readFull (of_nat n) s = (Inr c, s')" "v = tag k n x @ c"
      using 2 puthead_tag [OF False n, of x] by (auto simp: bindS_def split: prod.splits sum.splits if_splits)
    from readFull_Inr [OF 2(3) c(1)] show ?thesis using c(2) raw n by (simp add: unat_of_nat_small)
  qed
next
  case (3 p s s')
  then show ?case by (cases p) (auto simp: readFull_bind_EOL)
qed

subsection \<open>Entering and leaving a list\<close>

lemma framed_list: "framed (rlp_list p)"
  unfolding framed_def
  by (intro exI [of _ ListK] exI [of _ "length p"] exI [of _ 0] exI [of _ p])
    (simp add: rlp_list_def tag_def tag_ok_def kind_base_def)

lemma framed_str: "framed (rlp_str c)"
  using rlp_str_tag [of c] unfolding framed_def by blast

lemma consume_Cons: "consume n (l # ls) = (l - of_nat n) # ls"
  by (simp add: consume_def)

lemma stream_List_ok:
  assumes "live s" and "kind s = None" and "rd s = rlp_list p @ rest" and "fits (length (rlp_list p)) s"
  shows "\<exists>s1. stream_List s = (Inr (of_nat (length p)), s1) \<and> live s1 \<and> kind s1 = None \<and> rd s1 = p @ rest
    \<and> stack s1 = of_nat (length p) # consume (length (rlp_list p)) (stack s)"
proof -
  let ?t = "tag ListK (length p) 0"
  have t: "rlp_list p = ?t @ p" by (simp add: rlp_list_def tag_def kind_base_def)
  obtain s1 where s1: "stream_Kind s = (Inr (ListK, of_nat (length p)), s1)" "adv (length ?t) s s1"
    using stream_Kind_tag [OF assms(1,2), of ListK "length p" 0 "p @ rest"] assms(3,4) t
    by (auto simp: tag_ok_def)
  then show ?thesis
    using assms(3) t
    by (cases "stack s")
      (auto simp: stream_List_def bindS_def listLimit_def adv_def live_def consume_def diff_diff_eq)
qed

lemma stream_List_Inr:
  assumes "live s" and "kind s = None" and "stream_List s = (Inr m, s1)"
  shows "live s1 \<and> kind s1 = None \<and> rd s = rlp_head 0xC0 (unat m) @ rd s1 \<and> unat m \<le> length (rd s1)
    \<and> stack s1 = m # consume (length (rlp_head 0xC0 (unat m)) + unat m) (stack s)"
proof -
  obtain s0 where k: "stream_Kind s = (Inr (ListK, m), s0)"
    and s1: "s1 = (let s0' = (if stack s0 = [] then s0 else s0\<lparr>stack := (hd (stack s0) - m) # tl (stack s0)\<rparr>)
      in s0'\<lparr>stack := m # stack s0', kind := None, sz := 0\<rparr>)"
    using assms(3)
    by (auto simp: stream_List_def bindS_def listLimit_def Let_def split: prod.splits sum.splits if_splits)
  from stream_Kind_Inr [OF assms(1,2) k] obtain x where x: "adv (length (tag ListK (unat m) x)) s s0"
    "rd s = tag ListK (unat m) x @ rd s0" "unat m \<le> length (rd s0)" by blast
  then show ?thesis
    using s1 by (cases "stack s") (auto simp: adv_def live_def tag_def kind_base_def consume_def diff_diff_eq)
qed

lemma stream_ListEnd_ok:
  assumes "stack s = 0 # ls" and "live s"
  shows "\<exists>s'. stream_ListEnd s = (Inr (), s') \<and> live s' \<and> kind s' = None \<and> rd s' = rd s \<and> stack s' = ls"
  using assms by (simp add: stream_ListEnd_def listLimit_def live_def)

lemma stream_ListEnd_Inr:
  assumes "stream_ListEnd s = (Inr u, s')" and "live s"
  shows "\<exists>ls. stack s = 0 # ls \<and> live s' \<and> kind s' = None \<and> rd s' = rd s \<and> stack s' = ls"
  using assms
  by (cases "stack s") (auto simp: stream_ListEnd_def listLimit_def live_def word_greater_zero_iff split: if_splits)

text \<open>The body of a list consumed exactly its payload.\<close>

lemma list_bracket:
  assumes "live s" and "kind s = None" and "stream_List s = (Inr m, s1)" and "adv j s1 s2"
    and "stream_ListEnd s2 = (Inr u, s3)"
  shows "j = unat m \<and> rd s = rlp_list (take j (rd s1)) @ rd s3 \<and> adv (length (rlp_list (take j (rd s1)))) s s3
    \<and> kind s3 = None"
proof -
  note l = stream_List_Inr [OF assms(1-3)]
  have "live s2" using assms(4) by (rule adv_live)
  with stream_ListEnd_Inr [OF assms(5)] obtain ls where e: "stack s2 = 0 # ls" "live s3" "kind s3 = None"
    "rd s3 = rd s2" "stack s3 = ls" by blast
  have j: "j \<le> length (rd s1)" "stack s2 = consume j (stack s1)" "rd s2 = drop j (rd s1)"
    using assms(4) by (simp_all add: adv_def)
  have "stack s2 = (m - of_nat j) # consume (length (rlp_head 0xC0 (unat m)) + unat m) (stack s)"
    using l j(2) by (simp add: consume_Cons)
  then have "m = of_nat j" and ls: "ls = consume (length (rlp_head 0xC0 (unat m)) + unat m) (stack s)"
    using e(1) by simp_all
  moreover have "j < 2 ^ 64" using j l by (simp add: live_def)
  ultimately have jm: "j = unat m" by (simp add: unat_of_nat_small)
  then have p: "rlp_list (take j (rd s1)) = rlp_head 0xC0 (unat m) @ take j (rd s1)"
    using j by (simp add: rlp_list_def min_absorb2)
  have rd: "rd s = rlp_list (take j (rd s1)) @ rd s3" using p l e(4) j(3) by simp
  have "length (rlp_list (take j (rd s1))) = length (rlp_head 0xC0 (unat m)) + unat m"
    using p j jm by simp
  then have "adv (length (rlp_list (take j (rd s1)))) s s3"
    using e ls rd by (simp add: adv_def)
  then show ?thesis using rd jm e by simp
qed


subsection \<open>Elements\<close>

context value_decoder begin

lemma nonempty: "R v b \<Longrightarrow> b \<noteq> []"
  using framed framed_not_Nil by blast

lemma elems_complete:
  assumes "list_all2 R vs bs" and "live s" and "kind s = None" and "rd s = concat bs @ rest"
    and "stack s = of_nat (length (concat bs)) # ls" and "length (rd s) < N" and "length (rd s) < fuel"
  shows "\<exists>s'. decodeSliceElems fuel dec acc s = Some (Inr (acc @ vs), s')
    \<and> adv (length (concat bs)) s s' \<and> kind s' = None"
  using assms
proof (induction vs bs arbitrary: acc s fuel rule: list_all2_induct)
  case Nil
  then obtain f where f: "fuel = Suc f" by (cases fuel) auto
  have "dec s = Some (Inl EOL, s)" using Nil by (intro eol) auto
  then show ?case using Nil f by (simp add: adv_refl)
next
  case (Cons v vs b bs)
  then obtain f where f: "fuel = Suc f" by (cases fuel) auto
  have "length (concat (b # bs)) < 2 ^ 64" using Cons.prems by (simp add: live_def)
  then have fit: "fits (length b) s" using Cons.prems
    by (simp add: fits_def unat_of_nat_small flip: of_nat_add)
  obtain s1 where s1: "dec s = Some (Inr v, s1)" "adv (length b) s s1" "kind s1 = None"
    using complete [OF Cons.hyps(1), of s "concat bs @ rest"] Cons.prems fit by auto
  have ne: "1 \<le> length b" using nonempty [OF Cons.hyps(1)] by (cases b) simp_all
  have "\<exists>s'. decodeSliceElems f dec (acc @ [v]) s1 = Some (Inr ((acc @ [v]) @ vs), s')
    \<and> adv (length (concat bs)) s1 s' \<and> kind s' = None"
    using s1(2,3) Cons.prems f ne
    by (intro Cons.IH) (auto simp: adv_def consume_Cons)
  then show ?case using f s1 adv_trans [OF s1(2)] by auto
qed

lemma elems_total:
  "live s \<Longrightarrow> kind s = None \<Longrightarrow> length (rd s) < N \<Longrightarrow> length (rd s) < fuel
    \<Longrightarrow> decodeSliceElems fuel dec acc s \<noteq> None"
proof (induction fuel arbitrary: acc s)
  case (Suc fuel)
  obtain r s1 where r: "dec s = Some (r, s1)" using total [OF Suc.prems(1-3)] by auto
  show ?case
  proof (cases r)
    case (Inr v)
    then have "kind s1 = None" "\<exists>n > 0. adv n s s1" using progress Suc.prems r by auto
    then show ?thesis using Suc r Inr by (auto simp: adv_def)
  qed (simp add: r)
qed simp

lemma elems_progress:
  "live s \<Longrightarrow> kind s = None \<Longrightarrow> decodeSliceElems fuel dec acc s = Some (Inr vs, s')
    \<Longrightarrow> kind s' = None \<and> (\<exists>n. adv n s s')"
proof (induction fuel arbitrary: acc s)
  case (Suc fuel)
  obtain r s1 where r: "dec s = Some (r, s1)" using Suc.prems(3) by (auto split: option.splits)
  show ?case
  proof (cases r)
    case (Inl e)
    then have "e = EOL" "s' = s1" using Suc.prems r by (auto split: if_splits)
    then show ?thesis using eol_only [of s s1] Suc.prems r Inl by (auto intro: adv_refl)
  next
    case (Inr v)
    then have s1: "kind s1 = None" "\<exists>n > 0. adv n s s1" using progress Suc.prems r by auto
    then obtain n where n: "adv n s s1" by blast
    have "kind s' = None \<and> (\<exists>n. adv n s1 s')"
      using Suc.prems r Inr s1 adv_live [OF n] by (intro Suc.IH) auto
    then show ?thesis using adv_trans [OF n] by blast
  qed
qed simp

end

context exact_decoder begin

lemma elems_sound:
  "live s \<Longrightarrow> kind s = None \<Longrightarrow> decodeSliceElems fuel dec acc s = Some (Inr vs, s')
    \<Longrightarrow> \<exists>ws bs. vs = acc @ ws \<and> list_all2 R ws bs \<and> rd s = concat bs @ rd s' \<and> adv (length (concat bs)) s s'"
proof (induction fuel arbitrary: acc s)
  case (Suc fuel)
  obtain r s1 where r: "dec s = Some (r, s1)" using Suc.prems(3) by (auto split: option.splits)
  show ?case
  proof (cases r)
    case (Inl e)
    then have "e = EOL" "s' = s1" "vs = acc" using Suc.prems r by (auto split: if_splits)
    then show ?thesis
      using eol_only Suc.prems r Inl by (intro exI [of _ "[]"]) (auto intro: adv_refl)
  next
    case (Inr v)
    then obtain b where b: "R v b" "rd s = b @ rd s1" "adv (length b) s s1"
      using sound Suc.prems r by blast
    have "kind s1 = None" using progress Suc.prems r Inr by blast
    then obtain ws bs where "vs = (acc @ [v]) @ ws" "list_all2 R ws bs" "rd s1 = concat bs @ rd s'"
      "adv (length (concat bs)) s1 s'"
      using Suc.IH [of s1 "acc @ [v]"] Suc.prems r Inr adv_live [OF b(3)] by auto
    then show ?thesis
      using b adv_trans [OF b(3)] by (intro exI [of _ "v # ws"] exI [of _ "b # bs"]) auto
  qed
qed simp

end


lemma elems_not_EOL: "decodeSliceElems fuel dec acc s \<noteq> Some (Inl EOL, s')"
  by (induction fuel dec acc s rule: decodeSliceElems.induct)
    (auto split: option.splits prod.splits sum.splits)

subsection \<open>The body of a list\<close>

text \<open>A decoder that enters a list, decodes its body and leaves the list. \<open>P v p\<close> says that
  the payload \<open>p\<close> encodes \<open>v\<close>.\<close>

definition in_list :: "(u64 \<Rightarrow> 'a decoder) \<Rightarrow> (stream \<Rightarrow> unit sres) \<Rightarrow> ('a \<Rightarrow> 'b) \<Rightarrow> 'b decoder" where
  "in_list body fin f s = bindD (Some (wrapS stream_List s)) (\<lambda>m s.
     bindD (body m s) (\<lambda>v s. Some (bindS fin (\<lambda>_ s. (Inr (f v), s)) s)))"

definition list_end :: "(stream \<Rightarrow> unit sres) \<Rightarrow> bool" where
  "list_end fin \<longleftrightarrow> fin = stream_ListEnd \<or> fin = wrapS stream_ListEnd"

lemma in_list_Inr:
  assumes "in_list body fin f s = Some (Inr w, s3)" and "list_end fin"
  obtains m s1 v s2 u where "stream_List s = (Inr m, s1)" "body m s1 = Some (Inr v, s2)"
    "stream_ListEnd s2 = (Inr u, s3)" "w = f v"
proof -
  obtain m s1 where m: "stream_List s = (Inr m, s1)"
    and r: "bindD (body m s1) (\<lambda>v s. Some (bindS fin (\<lambda>_ s. (Inr (f v), s)) s)) = Some (Inr w, s3)"
    using bindD_Inr [OF assms(1) [unfolded in_list_def]] by auto
  obtain v s2 where v: "body m s1 = Some (Inr v, s2)" and e: "bindS fin (\<lambda>_ s. (Inr (f v), s)) s2 = (Inr w, s3)"
    using bindD_Inr [OF r] by auto
  then obtain u where "fin s2 = (Inr u, s3)" "w = f v"
    by (auto simp: bindS_def split: prod.splits sum.splits)
  then show thesis using that m v assms(2) by (auto simp: list_end_def)
qed

lemma in_list_ok:
  assumes "stream_List s = (Inr m, s1)" and "body m s1 = Some (Inr v, s2)" and "stream_ListEnd s2 = (Inr u, s3)"
    and "list_end fin"
  shows "in_list body fin f s = Some (Inr (f v), s3)"
proof -
  have "fin s2 = (Inr u, s3)" using assms(3,4) by (auto simp: list_end_def)
  moreover have "wrapS stream_List s = (Inr m, s1)" using assms(1) by simp
  ultimately show ?thesis using assms(2) by (simp add: in_list_def bindS_def del: wrapS_Inr)
qed

lemma stream_ListEnd_not_EOL: "list_end fin \<Longrightarrow> fin s \<noteq> (Inl EOL, s')"
  by (auto simp: list_end_def stream_ListEnd_def Let_def split: prod.splits if_splits)

lemma stream_List_EOL: "kind s = None \<Longrightarrow> stack s = 0 # ls \<Longrightarrow> stream_List s = (Inl EOL, s)"
  by (simp add: stream_List_def bindS_def stream_Kind_EOL)

lemma stream_List_EOL_only:
  "kind s = None \<Longrightarrow> stream_List s = (Inl EOL, s') \<Longrightarrow> s' = s \<and> (\<exists>ls. stack s = 0 # ls)"
  using stream_Kind_EOL_only [of s s']
  by (auto simp: stream_List_def bindS_def Let_def split: prod.splits sum.splits if_splits)

lemma stream_List_rearmed: "stream_Kind s = (Inr x, s') \<Longrightarrow> stream_List s' = stream_List s"
  using stream_Kind_again by (auto simp: stream_List_def bindS_def)

lemma in_list_EOL_only:
  assumes "in_list body fin f s = Some (Inl EOL, s')" and "list_end fin" and "kind s = None"
    and "\<And>m s s'. body m s \<noteq> Some (Inl EOL, s')"
  shows "s' = s \<and> (\<exists>ls. stack s = 0 # ls)"
proof (cases "wrapS stream_List s")
  case (Pair r s1)
  show ?thesis
  proof (cases r)
    case (Inl e)
    then have "stream_List s = (Inl EOL, s')" using assms(1) Pair by (auto simp: in_list_def)
    then show ?thesis using assms(3) stream_List_EOL_only by blast
  next
    case (Inr m)
    then have False
      using assms(1,4) Pair stream_ListEnd_not_EOL [OF assms(2)]
      by (auto simp: in_list_def bindD_def bindS_def split: option.splits prod.splits sum.splits)
    then show ?thesis ..
  qed
qed


lemma in_list_value_decoder:
  assumes fin: "list_end fin"
    and total: "\<And>m s. live s \<Longrightarrow> kind s = None \<Longrightarrow> length (rd s) < N \<Longrightarrow> body m s \<noteq> None"
    and prog: "\<And>m s v s'. live s \<Longrightarrow> kind s = None \<Longrightarrow> body m s = Some (Inr v, s') \<Longrightarrow> \<exists>j. adv j s s'"
    and compl: "\<And>v p s rest ls. P v p \<Longrightarrow> live s \<Longrightarrow> kind s = None \<Longrightarrow> rd s = p @ rest
      \<Longrightarrow> stack s = of_nat (length p) # ls \<Longrightarrow> length (rd s) < N
      \<Longrightarrow> \<exists>s'. body (of_nat (length p)) s = Some (Inr v, s') \<and> adv (length p) s s'"
    and noeol: "\<And>m s s'. body m s \<noteq> Some (Inl EOL, s')"
  shows "value_decoder (in_list body fin f) (\<lambda>w b. \<exists>v p. w = f v \<and> P v p \<and> b = rlp_list p) (Suc N)"
proof (rule value_decoder.intro)
  fix s :: stream assume s: "live s" "kind s = None" "length (rd s) < Suc N"
  obtain r s1 where r: "wrapS stream_List s = (r, s1)" by force
  show "in_list body fin f s \<noteq> None"
  proof (cases r)
    case (Inr m)
    then have "stream_List s = (Inr m, s1)" using r by simp
    from stream_List_Inr [OF s(1,2) this] have "live s1" "kind s1 = None" "length (rd s1) < N"
      using s(3) by (simp_all add: rlp_head_def split: if_splits)
    from total [OF this, of m] show ?thesis
      using r Inr by (auto simp: in_list_def bindD_def split: option.splits prod.splits sum.splits)
  qed (simp add: r in_list_def)
next
  fix s s' :: stream and w assume s: "live s" "kind s = None" and d: "in_list body fin f s = Some (Inr w, s')"
  obtain m s1 v s2 u where l: "stream_List s = (Inr m, s1)" "body m s1 = Some (Inr v, s2)"
    "stream_ListEnd s2 = (Inr u, s')" using in_list_Inr [OF d fin] .
  then obtain j where j: "adv j s1 s2" using prog stream_List_Inr [OF s l(1)] by blast
  from list_bracket [OF s l(1) j l(3)] show "kind s' = None \<and> (\<exists>n > 0. adv n s s')"
    by (auto simp: rlp_list_def rlp_head_def intro!: exI [of _ "length (rlp_list (take j (rd s1)))"])
next
  fix w b assume "\<exists>v p. w = f v \<and> P v p \<and> b = rlp_list p"
  then show "framed b" using framed_list by blast
next
  fix w b rest and s :: stream
  assume "\<exists>v p. w = f v \<and> P v p \<and> b = rlp_list p" and s: "live s" "kind s = None" "rd s = b @ rest"
    "fits (length b) s" "length (rd s) < Suc N"
  then obtain v p where v: "w = f v" "P v p" "b = rlp_list p" by blast
  have rd: "rd s = rlp_list p @ rest" and fit: "fits (length (rlp_list p)) s" using s v by simp_all
  obtain s1 where s1: "stream_List s = (Inr (of_nat (length p)), s1)" "live s1" "kind s1 = None" "rd s1 = p @ rest"
    "stack s1 = of_nat (length p) # consume (length (rlp_list p)) (stack s)"
    using stream_List_ok [OF s(1,2) rd fit] by blast
  have "length (rd s1) < N" using s(5) rd s1(4) by (simp add: rlp_list_def rlp_head_def split: if_splits)
  then obtain s2 where s2: "body (of_nat (length p)) s1 = Some (Inr v, s2)" "adv (length p) s1 s2"
    using compl [OF v(2) s1(2-5)] by blast
  then have "stack s2 = 0 # consume (length (rlp_list p)) (stack s)" using s1(5) by (simp add: adv_def consume_Cons)
  then obtain s3 where s3: "stream_ListEnd s2 = (Inr (), s3)"
    using stream_ListEnd_ok adv_live [OF s2(2)] by blast
  from list_bracket [OF s(1,2) s1(1) s2(2) s3] s1(4) v
  show "\<exists>s'. in_list body fin f s = Some (Inr w, s') \<and> adv (length b) s s' \<and> kind s' = None"
    using in_list_ok [of s "of_nat (length p)" s1 body v s2 "()" s3 fin f, OF s1(1) s2(1) s3 fin] by simp
next
  fix s :: stream and ls assume "kind s = None" "stack s = 0 # ls"
  then have "wrapS stream_List s = (Inl EOL, s)" by (simp add: stream_List_EOL)
  then show "in_list body fin f s = Some (Inl EOL, s)" by (simp add: in_list_def del: wrapS_EOL)
next
  fix s s' :: stream assume "kind s = None" "in_list body fin f s = Some (Inl EOL, s')"
  then show "s' = s \<and> (\<exists>ls. stack s = 0 # ls)" using in_list_EOL_only fin noeol by blast
next
  fix s s' :: stream and x assume "stream_Kind s = (Inr x, s')"
  from stream_List_rearmed [OF this] show "in_list body fin f s' = in_list body fin f s"
    by (simp add: in_list_def wrapS_def)
qed

lemma in_list_exact:
  assumes fin: "list_end fin"
    and snd: "\<And>m s v s'. live s \<Longrightarrow> kind s = None \<Longrightarrow> body m s = Some (Inr v, s')
      \<Longrightarrow> unat m \<le> length (rd s) \<Longrightarrow> stack s \<noteq> [] \<Longrightarrow> \<exists>p. P v p \<and> rd s = p @ rd s' \<and> adv (length p) s s'"
  shows "exact_decoder_axioms (in_list body fin f) (\<lambda>w b. \<exists>v p. w = f v \<and> P v p \<and> b = rlp_list p)"
proof
  fix s s' :: stream and w assume s: "live s" "kind s = None" and d: "in_list body fin f s = Some (Inr w, s')"
  obtain m s1 v s2 u where l: "stream_List s = (Inr m, s1)" "body m s1 = Some (Inr v, s2)"
    "stream_ListEnd s2 = (Inr u, s')" "w = f v" using in_list_Inr [OF d fin] .
  from stream_List_Inr [OF s l(1)] have "live s1" "kind s1 = None" "unat m \<le> length (rd s1)" "stack s1 \<noteq> []"
    by simp_all
  from snd [OF this(1,2) l(2) this(3,4)] obtain p where p: "P v p" "rd s1 = p @ rd s2" "adv (length p) s1 s2"
    by blast
  from list_bracket [OF s l(1) p(3) l(3)] p
  show "\<exists>b. (\<exists>v p. w = f v \<and> P v p \<and> b = rlp_list p) \<and> rd s = b @ rd s' \<and> adv (length b) s s'"
    using l(4) by (intro exI [of _ "rlp_list p"]) auto
qed

end
