(* ===== verification/Rlp_Decode_Elems.thy ===== *)
theory Rlp_Decode_Elems
  imports Rlp_Decode_Lists
begin

text \<open>
  The decoders of slices, arrays and interfaces meet the decoder contract when their element
  decoder does.
\<close>

definition payload :: "('a \<Rightarrow> bytes \<Rightarrow> bool) \<Rightarrow> 'a list \<Rightarrow> bytes \<Rightarrow> bool" where
  "payload R vs p \<longleftrightarrow> (\<exists>bs. list_all2 R vs bs \<and> p = concat bs)"

lemma payload_Nil [simp]: "payload R [] p \<longleftrightarrow> p = []"
  by (auto simp: payload_def)

lemma payload_Cons: "payload R (v # vs) p \<longleftrightarrow> (\<exists>b q. R v b \<and> payload R vs q \<and> p = b @ q)"
  by (auto simp: payload_def list_all2_Cons1) (metis concat.simps(2) list_all2_Cons1)+

lemma decodeListSlice_in_list:
  "decodeListSlice fuel dec = in_list (\<lambda>m s. if m = 0 then Some (Inr [], s) else decodeSliceElems fuel dec [] s)
     stream_ListEnd id"
  by (auto simp: fun_eq_iff decodeListSlice_def in_list_def bindD_def split: option.splits prod.splits sum.splits)

lemma decodeListArray_in_list:
  "decodeListArray vlen dec = in_list (\<lambda>_. decodeArrayElems vlen dec []) (wrapS stream_ListEnd) id"
  by (auto simp: fun_eq_iff decodeListArray_def in_list_def)

lemma list_end_simps [simp]: "list_end stream_ListEnd" "list_end (wrapS stream_ListEnd)"
  by (simp_all add: list_end_def)

lemma array_not_EOL: "decodeArrayElems n dec acc s \<noteq> Some (Inl EOL, s')"
  by (induction n dec acc s rule: decodeArrayElems.induct)
    (auto split: option.splits prod.splits sum.splits)

context value_decoder begin

lemma slice_value_decoder:
  assumes "N \<le> fuel"
  shows "value_decoder (decodeListSlice fuel dec) (\<lambda>vs b. \<exists>p. payload R vs p \<and> b = rlp_list p) (Suc N)"
proof -
  let ?body = "\<lambda>(m :: u64) s. if m = 0 then Some (Inr [], s) else decodeSliceElems fuel dec [] s"
  have c: "\<exists>s'. ?body (of_nat (length p)) s = Some (Inr vs, s') \<and> adv (length p) s s'"
    if a: "payload R vs p" "live s" "kind s = None" "rd s = p @ rest" "stack s = of_nat (length p) # ls" "length (rd s) < N"
    for vs p s rest ls
  proof (cases "p = []")
    case True
    then have "vs = []" using a(1) nonempty by (cases vs) (auto simp: payload_Cons)
    then show ?thesis using True a by (auto intro: adv_refl)
  next
    case False
    have "length p < 2 ^ 64" using a by (simp add: live_def)
    then have "of_nat (length p) \<noteq> (0 :: u64)" using False by (simp add: word_unat_eq_iff unat_of_nat_small)
    then show ?thesis
      using elems_complete [of vs _ s rest ls fuel "[]"] a assms by (auto simp: payload_def)
  qed
  have "value_decoder (in_list ?body stream_ListEnd id)
      (\<lambda>w b. \<exists>v p. w = id v \<and> payload R v p \<and> b = rlp_list p) (Suc N)"
  proof (rule in_list_value_decoder [OF list_end_simps(1)], goal_cases)
    case (1 m s)
    then show ?case using elems_total [of s fuel "[]"] assms by simp
  next
    case (2 m s v s')
    then show ?case using elems_progress [of s fuel "[]"] by (auto split: if_splits intro: adv_refl)
  next
    case (3 v p s rest ls)
    then show ?case by (rule c)
  next
    case (4 m s s')
    then show ?case by (simp add: elems_not_EOL)
  qed
  then show ?thesis by (simp add: decodeListSlice_in_list)
qed

lemma array_complete:
  assumes "list_all2 R vs bs" and "live s" and "kind s = None" and "rd s = concat bs @ rest"
    and "fits (length (concat bs)) s" and "length (rd s) < N"
  shows "\<exists>s'. decodeArrayElems (length vs) dec acc s = Some (Inr (acc @ vs), s') \<and> adv (length (concat bs)) s s'"
  using assms
proof (induction vs bs arbitrary: acc s rule: list_all2_induct)
  case Nil
  then show ?case by (simp add: adv_refl)
next
  case (Cons v vs b bs)
  have "fits (length b) s" using Cons.prems(4) by (auto simp: fits_def)
  then obtain s1 where s1: "dec s = Some (Inr v, s1)" "adv (length b) s s1" "kind s1 = None"
    using complete [OF Cons.hyps(1), of s "concat bs @ rest"] Cons.prems by auto
  have "\<exists>s'. decodeArrayElems (length vs) dec (acc @ [v]) s1 = Some (Inr ((acc @ [v]) @ vs), s')
    \<and> adv (length (concat bs)) s1 s'"
    using s1(2,3) Cons.prems fits_adv [of "length b" "length (concat bs)" s s1]
    by (intro Cons.IH) (auto simp: adv_def)
  then show ?case using s1 adv_trans [OF s1(2)] by auto
qed

lemma array_total:
  "live s \<Longrightarrow> kind s = None \<Longrightarrow> length (rd s) < N \<Longrightarrow> decodeArrayElems n dec acc s \<noteq> None"
proof (induction n arbitrary: acc s)
  case (Suc n)
  obtain r s1 where r: "dec s = Some (r, s1)" using total [OF Suc.prems(1-3)] by auto
  show ?case
  proof (cases r)
    case (Inr v)
    then have "kind s1 = None" "\<exists>n > 0. adv n s s1" using progress Suc.prems r by auto
    then show ?thesis using Suc r Inr by (auto simp: adv_def)
  qed (simp add: r)
qed simp

lemma array_progress:
  "live s \<Longrightarrow> kind s = None \<Longrightarrow> decodeArrayElems n dec acc s = Some (Inr vs, s') \<Longrightarrow> \<exists>j. adv j s s'"
proof (induction n arbitrary: acc s)
  case 0
  then show ?case by (auto intro: adv_refl)
next
  case (Suc n)
  then obtain v s1 where r: "dec s = Some (Inr v, s1)" "decodeArrayElems n dec (acc @ [v]) s1 = Some (Inr vs, s')"
    by (auto split: option.splits prod.splits sum.splits if_splits)
  then obtain j where j: "kind s1 = None" "adv j s s1" using progress Suc.prems by blast
  then obtain j' where "adv j' s1 s'" using Suc.IH r adv_live by blast
  then show ?case using adv_trans [OF j(2)] by blast
qed

lemma array_value_decoder:
  "value_decoder (decodeListArray vlen dec) (\<lambda>vs b. \<exists>p. (length vs = vlen \<and> payload R vs p) \<and> b = rlp_list p) (Suc N)"
proof -
  have c: "\<exists>s'. decodeArrayElems vlen dec [] s = Some (Inr vs, s') \<and> adv (length p) s s'"
    if a: "length vs = vlen \<and> payload R vs p" "live s" "kind s = None" "rd s = p @ rest"
      "stack s = of_nat (length p) # ls" "length (rd s) < N" for vs p s rest ls
  proof -
    have "length p < 2 ^ 64" using a by (simp add: live_def)
    then have "fits (length p) s" using a by (simp add: fits_def unat_of_nat_small)
    then show ?thesis using array_complete [of vs _ s rest "[]"] a by (auto simp: payload_def)
  qed
  have "value_decoder (in_list (\<lambda>_. decodeArrayElems vlen dec []) (wrapS stream_ListEnd) id)
      (\<lambda>w b. \<exists>v p. w = id v \<and> (length v = vlen \<and> payload R v p) \<and> b = rlp_list p) (Suc N)"
  proof (rule in_list_value_decoder [OF list_end_simps(2)], goal_cases)
    case (1 m s)
    then show ?case by (rule array_total)
  next
    case (2 m s v s')
    then show ?case by (rule array_progress)
  next
    case (3 v p s rest ls)
    then show ?case by (rule c)
  next
    case (4 m s s')
    then show ?case by (rule array_not_EOL)
  qed
  then show ?thesis by (simp add: decodeListArray_in_list)
qed

end

context exact_decoder begin

lemma slice_exact_decoder:
  assumes "N \<le> fuel"
  shows "exact_decoder (decodeListSlice fuel dec) (\<lambda>vs b. \<exists>p. payload R vs p \<and> b = rlp_list p) (Suc N)"
proof (rule exact_decoder.intro)
  let ?body = "\<lambda>(m :: u64) s. if m = 0 then Some (Inr [], s) else decodeSliceElems fuel dec [] s"
  have "\<exists>p. payload R v p \<and> rd s = p @ rd s' \<and> adv (length p) s s'"
    if "live s" "kind s = None" "?body m s = Some (Inr v, s')" for m s v s'
    using that elems_sound [of s fuel "[]" v s']
    by (auto split: if_splits simp: adv_refl payload_def)
  then have "exact_decoder_axioms (in_list ?body stream_ListEnd id)
      (\<lambda>w b. \<exists>v p. w = id v \<and> payload R v p \<and> b = rlp_list p)"
    by (intro in_list_exact) auto
  then show "exact_decoder_axioms (decodeListSlice fuel dec) (\<lambda>vs b. \<exists>p. payload R vs p \<and> b = rlp_list p)"
    by (simp add: decodeListSlice_in_list)
qed (rule slice_value_decoder [OF assms])

lemma array_sound:
  "live s \<Longrightarrow> kind s = None \<Longrightarrow> decodeArrayElems n dec acc s = Some (Inr vs, s')
    \<Longrightarrow> \<exists>ws p. vs = acc @ ws \<and> length ws = n \<and> payload R ws p \<and> rd s = p @ rd s' \<and> adv (length p) s s'"
proof (induction n arbitrary: acc s)
  case 0
  then show ?case by (auto intro: adv_refl)
next
  case (Suc n)
  then obtain v s1 where r: "dec s = Some (Inr v, s1)" "decodeArrayElems n dec (acc @ [v]) s1 = Some (Inr vs, s')"
    by (auto split: option.splits prod.splits sum.splits if_splits)
  then obtain b where b: "R v b" "rd s = b @ rd s1" "adv (length b) s s1" using sound Suc.prems by blast
  have "kind s1 = None" using progress r Suc.prems by blast
  then obtain ws p where "vs = (acc @ [v]) @ ws" "length ws = n" "payload R ws p" "rd s1 = p @ rd s'" "adv (length p) s1 s'"
    using Suc.IH r adv_live [OF b(3)] by blast
  then show ?case
    using b adv_trans [OF b(3)] by (intro exI [of _ "v # ws"] exI [of _ "b @ p"]) (auto simp: payload_Cons)
qed

lemma array_exact_decoder:
  "exact_decoder (decodeListArray vlen dec) (\<lambda>vs b. \<exists>p. (length vs = vlen \<and> payload R vs p) \<and> b = rlp_list p) (Suc N)"
proof (rule exact_decoder.intro)
  have "exact_decoder_axioms (in_list (\<lambda>_. decodeArrayElems vlen dec []) (wrapS stream_ListEnd) id)
      (\<lambda>w b. \<exists>v p. w = id v \<and> (length v = vlen \<and> payload R v p) \<and> b = rlp_list p)"
    using array_sound [of _ vlen "[]"] by (intro in_list_exact) fastforce+
  then show "exact_decoder_axioms (decodeListArray vlen dec)
      (\<lambda>vs b. \<exists>p. (length vs = vlen \<and> payload R vs p) \<and> b = rlp_list p)"
    by (simp add: decodeListArray_in_list)
qed (rule array_value_decoder)

end

end
