(* ===== verification/Rlp_Decode_Types.thy ===== *)
theory Rlp_Decode_Types
  imports Rlp_Decode_Elems
begin

text \<open>
  Decoders that look at the kind ahead before they choose how to decode: interfaces and pointers
  with the \<open>nil\<close> tag. The second half gives the encodings that the decoder of a Go type
  accepts, and shows that every decoder meets its contract for them.
\<close>

subsection \<open>Choosing by kind\<close>

lemma tag_unique:
  assumes "tag k n x @ w = tag k' n' x' @ w'" and "tag_ok k n x" and "tag_ok k' n' x'"
    and "n \<le> length w" and "n' \<le> length w'" and "length (tag k n x @ w) < 2 ^ 63"
  shows "k' = k \<and> n' = n \<and> w' = w"
proof -
  let ?s = "Reset (tag k n x @ w) 0"
  have s: "live ?s" "kind ?s = None" "rd ?s = tag k n x @ w" "stack ?s = []"
    using assms(6) by (simp_all add: live_def Reset_def)
  obtain s1 where s1: "stream_Kind ?s = (Inr (k, of_nat n), s1)" "adv (length (tag k n x)) ?s s1"
    using stream_Kind_tag [OF s(1-3) assms(2,4)] s(4) by (auto simp: fits_def)
  obtain s2 where s2: "stream_Kind ?s = (Inr (k', of_nat n'), s2)" "adv (length (tag k' n' x')) ?s s2"
    using stream_Kind_tag [OF s(1,2) _ assms(3,5)] s(3,4) assms(1) by (auto simp: fits_def)
  have "n < 2 ^ 64" "n' < 2 ^ 64"
    using assms(4-6) arg_cong [OF assms(1), of length] by simp_all
  then have "k' = k" "n' = n" using s1 s2 by (simp_all add: word_unat_eq_iff unat_of_nat_small)
  moreover have "length (tag k' n' x') = length (tag k n x)" using calculation by (simp add: tag_def)
  ultimately show ?thesis using assms(1) by (metis append_eq_append_conv)
qed

definition tagged :: "(Kind \<Rightarrow> nat \<Rightarrow> bool) \<Rightarrow> bytes \<Rightarrow> bool" where
  "tagged C b \<longleftrightarrow> (\<exists>k n x c. b = tag k n x @ c \<and> tag_ok k n x \<and> length c = n \<and> C k n)"

lemma tagged_prefix:
  assumes "framed b" and "b @ r = tag k n x @ w" and "tag_ok k n x" and "n \<le> length w"
    and "length (b @ r) < 2 ^ 63"
  shows "tagged C b \<longleftrightarrow> C k n"
proof -
  have len: "length (tag k n x @ w) < 2 ^ 63" using assms(2,5) by metis
  have u: "k' = k \<and> n' = n" if "b = tag k' n' x' @ c" "tag_ok k' n' x'" "length c = n'" for k' n' x' c
  proof -
    have "tag k n x @ w = tag k' n' x' @ c @ r" using assms(2) that(1) by simp
    from tag_unique [OF this assms(3) that(2) assms(4) _ len] that(3) show ?thesis by simp
  qed
  obtain k' n' x' c where b: "b = tag k' n' x' @ c" "tag_ok k' n' x'" "length c = n'"
    using assms(1) by (auto simp: framed_def)
  then show ?thesis using u unfolding tagged_def by metis
qed

definition by_kind :: "(stream \<Rightarrow> (Kind \<times> u64) sres) \<Rightarrow> (Kind \<Rightarrow> nat \<Rightarrow> bool) \<Rightarrow> 'a decoder \<Rightarrow> 'a decoder \<Rightarrow> 'a decoder"
where
  "by_kind K C A B s = bindD (Some (K s)) (\<lambda>(k, m) s. if C k (unat m) then A s else B s)"

definition by_kind_rel where
  "by_kind_rel C RA RB v b \<longleftrightarrow> RA v b \<and> tagged C b \<or> RB v b \<and> tagged (\<lambda>k n. \<not> C k n) b"

definition asks_kind :: "(stream \<Rightarrow> (Kind \<times> u64) sres) \<Rightarrow> bool" where
  "asks_kind K \<longleftrightarrow> K = stream_Kind \<or> K = wrapS stream_Kind"

lemma asks_kind_Inr: "asks_kind K \<Longrightarrow> K s = (Inr x, s') \<longleftrightarrow> stream_Kind s = (Inr x, s')"
  by (auto simp: asks_kind_def)

lemma asks_kind_EOL: "asks_kind K \<Longrightarrow> K s = (Inl EOL, s') \<longleftrightarrow> stream_Kind s = (Inl EOL, s')"
  by (auto simp: asks_kind_def)

text \<open>After the kind is known the branches run on the armed stream; by the \<open>rearmed\<close> law they
  behave as on the stream before it.\<close>

lemma by_kind_branch:
  assumes "value_decoder A RA N" and "value_decoder B RB N" and "asks_kind K"
    and "live s" and "kind s = None" and "stream_Kind s = (Inr (k, m), s1)"
  shows "by_kind K C A B s = (if C k (unat m) then A s else B s)"
proof -
  have "K s = (Inr (k, m), s1)" using assms(3,6) by (simp add: asks_kind_Inr)
  then show ?thesis
    using value_decoder.rearmed [OF assms(1,4,5,6)] value_decoder.rearmed [OF assms(2,4,5,6)]
    by (simp add: by_kind_def)
qed

lemma by_kind_cases:
  assumes "asks_kind K"
  shows "(\<exists>k m s1. stream_Kind s = (Inr (k, m), s1)) \<or>
    (\<exists>e s1. by_kind K C A B s = Some (Inl e, s1) \<and> K s = (Inl e, s1))"
proof (cases "K s")
  case (Pair r s1)
  show ?thesis
  proof (cases r)
    case (Inl e)
    then show ?thesis using Pair by (simp add: by_kind_def)
  next
    case (Inr p)
    then show ?thesis using Pair assms by (cases p) (simp add: asks_kind_Inr)
  qed
qed

lemma by_kind_Inr:
  assumes "asks_kind K" and "by_kind K C A B s = Some (Inr v, s')"
  shows "\<exists>k m s1. stream_Kind s = (Inr (k, m), s1)"
  using by_kind_cases [OF assms(1), of s C A B] assms(2) by auto

lemma by_kind_value_decoder:
  assumes A: "value_decoder A RA N" and B: "value_decoder B RB N" and K: "asks_kind K"
  shows "value_decoder (by_kind K C A B) (by_kind_rel C RA RB) N"
proof (rule value_decoder.intro)
  fix s :: stream assume s: "live s" "kind s = None" "length (rd s) < N"
  show "by_kind K C A B s \<noteq> None"
    using by_kind_cases [OF K, of s C A B] by_kind_branch [OF A B K s(1,2), of _ _ _ C]
      value_decoder.total [OF A s] value_decoder.total [OF B s] by auto
next
  fix s s' :: stream and v assume s: "live s" "kind s = None" and d: "by_kind K C A B s = Some (Inr v, s')"
  obtain k m s1 where k: "stream_Kind s = (Inr (k, m), s1)"
    using by_kind_Inr [OF K d] by blast
  from by_kind_branch [OF A B K s k, of C] d
  show "kind s' = None \<and> (\<exists>n > 0. adv n s s')"
    using value_decoder.progress [OF A s, of v s'] value_decoder.progress [OF B s, of v s']
    by (auto split: if_splits)
next
  fix v b assume "by_kind_rel C RA RB v b"
  then show "framed b"
    using value_decoder.framed [OF A] value_decoder.framed [OF B] by (auto simp: by_kind_rel_def)
next
  fix v b rest and s :: stream
  assume r: "by_kind_rel C RA RB v b" and s: "live s" "kind s = None" and rd: "rd s = b @ rest"
    and fit: "fits (length b) s" and N: "length (rd s) < N"
  then obtain D k n x c where b: "b = tag k n x @ c" "tag_ok k n x" "length c = n"
    and D: "D = C \<and> RA v b \<and> C k n \<or> RB v b \<and> \<not> C k n"
    unfolding by_kind_rel_def tagged_def by blast
  obtain s1 where k: "stream_Kind s = (Inr (k, of_nat n), s1)"
    using stream_Kind_tag [OF s _ b(2), of "c @ rest"] rd b fit by auto
  have "unat (of_nat n :: u64) = n" using s rd b by (intro unat_of_nat_small) (simp add: live_def)
  then show "\<exists>s'. by_kind K C A B s = Some (Inr v, s') \<and> adv (length b) s s' \<and> kind s' = None"
    using by_kind_branch [OF A B K s k, of C] D
      value_decoder.complete [OF A, of v b s rest] value_decoder.complete [OF B, of v b s rest] s rd fit N
    by auto
next
  fix s :: stream and ls assume "kind s = None" "stack s = 0 # ls"
  then have "K s = (Inl EOL, s)" using K by (simp add: asks_kind_EOL stream_Kind_EOL)
  then show "by_kind K C A B s = Some (Inl EOL, s)" by (simp add: by_kind_def)
next
  fix s s' :: stream assume s: "live s" "kind s = None" and d: "by_kind K C A B s = Some (Inl EOL, s')"
  show "s' = s \<and> (\<exists>ls. stack s = 0 # ls)"
  proof (cases "\<exists>k m s1. stream_Kind s = (Inr (k, m), s1)")
    case True
    then obtain k m s1 where 1: "stream_Kind s = (Inr (k, m), s1)" by blast
    from by_kind_branch [OF A B K s 1, of C] d show ?thesis
      using value_decoder.eol_only [OF A s, of s'] value_decoder.eol_only [OF B s, of s'] by (auto split: if_splits)
  next
    case False
    then have "K s = (Inl EOL, s')" using by_kind_cases [OF K, of s C A B] d by auto
    then have "stream_Kind s = (Inl EOL, s')" using K by (simp add: asks_kind_EOL)
    then show ?thesis using s(2) stream_Kind_EOL_only by blast
  qed
next
  fix s s' :: stream and x assume s: "live s" "kind s = None" "stream_Kind s = (Inr x, s')"
  then have "K s = (Inr x, s')" "K s' = (Inr x, s')"
    using K stream_Kind_again by (simp_all add: asks_kind_Inr)
  then show "by_kind K C A B s' = by_kind K C A B s" by (simp add: by_kind_def)
qed

lemma by_kind_exact_decoder:
  assumes A: "exact_decoder A RA N" and B: "exact_decoder B RB N" and K: "asks_kind K"
  shows "exact_decoder (by_kind K C A B) (by_kind_rel C RA RB) N"
proof (rule exact_decoder.intro)
  have vA: "value_decoder A RA N" and vB: "value_decoder B RB N" using A B by (simp_all add: exact_decoder_def)
  then show "value_decoder (by_kind K C A B) (by_kind_rel C RA RB) N" using K by (rule by_kind_value_decoder)
  show "exact_decoder_axioms (by_kind K C A B) (by_kind_rel C RA RB)"
  proof
    fix s s' :: stream and v assume s: "live s" "kind s = None" and d: "by_kind K C A B s = Some (Inr v, s')"
    obtain k m s1 where k: "stream_Kind s = (Inr (k, m), s1)"
      using by_kind_Inr [OF K d] by blast
    from stream_Kind_Inr [OF s k] obtain x where x: "tag_ok k (unat m) x"
      "rd s = tag k (unat m) x @ rd s1" "unat m \<le> length (rd s1)" by blast
    have "(if C k (unat m) then A s else B s) = Some (Inr v, s')"
      using by_kind_branch [OF vA vB K s k, of C] d by simp
    then obtain b where b: "if C k (unat m) then RA v b else RB v b" "rd s = b @ rd s'" "adv (length b) s s'"
      using exact_decoder.sound [OF A s, of v s'] exact_decoder.sound [OF B s, of v s']
      by (cases "C k (unat m)") auto
    have f: "framed b" using b(1) value_decoder.framed [OF vA] value_decoder.framed [OF vB] by (auto split: if_splits)
    have "length (b @ rd s') < 2 ^ 63" using s(1) b(2) by (simp add: live_def)
    from tagged_prefix [OF f _ x(1,3) this] x(2) b(2)
    have "by_kind_rel C RA RB v b" using b(1) by (auto simp: by_kind_rel_def split: if_splits)
    then show "\<exists>b. by_kind_rel C RA RB v b \<and> rd s = b @ rd s' \<and> adv (length b) s s'" using b by blast
  qed
qed


lemma tagged_list: "tagged C (rlp_list p)" if "C ListK (length p)"
  unfolding tagged_def using that
  by (intro exI [of _ ListK] exI [of _ "length p"] exI [of _ 0] exI [of _ p])
    (simp add: rlp_list_def tag_def tag_ok_def kind_base_def)

lemma tagged_str: "tagged (\<lambda>k n. k \<noteq> ListK) (rlp_str c)"
  unfolding tagged_def using rlp_str_tag [of c] by (metis Kind.distinct)

subsection \<open>Interfaces\<close>

text \<open>The values that decoding into an \<open>interface{}\<close> gives: byte slices, and lists of such
  values.\<close>

fun iface :: "gval \<Rightarrow> bool" where
  "iface v = (case v of
     GInterface (Some (GBytes b)) \<Rightarrow> True
   | GInterface (Some (GSlice vs)) \<Rightarrow> list_all iface vs
   | _ \<Rightarrow> False)"

declare iface.simps [simp del]

lemma iface_simps [simp]:
  "iface (GInterface (Some (GBytes b)))" "iface (GInterface (Some (GSlice vs))) = list_all iface vs"
  by (simp_all add: iface.simps)

lemma iface_cases:
  "iface v \<longleftrightarrow> (\<exists>b. v = GInterface (Some (GBytes b))) \<or> (\<exists>vs. v = GInterface (Some (GSlice vs)) \<and> list_all iface vs)"
  by (subst iface.simps) (auto split: gval.splits option.splits)

lemma payload_enc:
  "payload (\<lambda>v b. Q v \<and> enc v = Inr b) vs p \<longleftrightarrow> list_all Q vs \<and> enc_list vs = Inr p"
  by (induction vs arbitrary: p) (auto simp: payload_Cons split: sum.splits)

definition iface_enc :: "gval \<Rightarrow> bytes \<Rightarrow> bool" where
  "iface_enc v b \<longleftrightarrow> iface v \<and> enc v = Inr b"

lemma iface_enc_cases:
  "iface_enc v b \<longleftrightarrow> (\<exists>vs p. v = GInterface (Some (GSlice vs)) \<and> payload iface_enc vs p \<and> b = rlp_list p)
    \<or> (\<exists>c. v = GInterface (Some (GBytes c)) \<and> b = rlp_str c)"
proof -
  have "payload iface_enc vs p \<longleftrightarrow> list_all iface vs \<and> enc_list vs = Inr p" for vs p
    using payload_enc [of iface vs p] by (simp add: iface_enc_def [abs_def])
  then show ?thesis
    by (auto simp: iface_enc_def iface_cases map_sum_def split: sum.splits)
qed

lemma decodeInterface_by_kind:
  "decodeInterface (Suc n) = by_kind stream_Kind (\<lambda>k _. k = ListK)
     (pureD (\<lambda>vs. Inr (GInterface (Some (GSlice vs)))) (decodeListSlice (Suc n) (decodeInterface n)))
     (pureD (\<lambda>b. Inr (GInterface (Some (GBytes b)))) (\<lambda>s. Some (stream_Bytes s)))"
  by (auto simp: fun_eq_iff by_kind_def bindD_def pureD_def bindS_def
      split: option.splits prod.splits sum.splits)

lemma asks_kind_simps [simp]: "asks_kind stream_Kind" "asks_kind (wrapS stream_Kind)"
  by (simp_all add: asks_kind_def)

lemma interface_decoder: "exact_decoder (decodeInterface n) iface_enc n"
proof (induction n)
  case 0
  have "framed b" if "iface_enc v b" for v b
    using that framed_list framed_str by (auto simp: iface_enc_cases [of v b])
  then show ?case by unfold_locales simp_all
next
  case (Suc n)
  let ?A = "pureD (\<lambda>vs. Inr (GInterface (Some (GSlice vs)))) (decodeListSlice (Suc n) (decodeInterface n))"
  let ?B = "pureD (\<lambda>b. Inr (GInterface (Some (GBytes b)))) (\<lambda>s. Some (stream_Bytes s))"
  let ?RA = "\<lambda>v b. \<exists>vs. (\<exists>p. payload iface_enc vs p \<and> b = rlp_list p) \<and> Inr (GInterface (Some (GSlice vs))) = (Inr v :: rlp_error + gval)"
  let ?RB = "\<lambda>v b. \<exists>c. b = rlp_str c \<and> Inr (GInterface (Some (GBytes c))) = (Inr v :: rlp_error + gval)"
  have "exact_decoder ?A ?RA (Suc n)"
    using exact_decoder.slice_exact_decoder [OF Suc.IH, of "Suc n"] by (intro exact_decoder_pureD) simp_all
  moreover have "exact_decoder ?B ?RB (Suc n)" by (intro exact_decoder_pureD Bytes_decoder) simp
  ultimately have "exact_decoder (by_kind stream_Kind (\<lambda>k _. k = ListK) ?A ?B) (by_kind_rel (\<lambda>k _. k = ListK) ?RA ?RB) (Suc n)"
    by (rule by_kind_exact_decoder) simp
  moreover have "by_kind_rel (\<lambda>k _. k = ListK) ?RA ?RB = iface_enc"
  proof (intro ext)
    fix v b
    show "by_kind_rel (\<lambda>k _. k = ListK) ?RA ?RB v b = iface_enc v b"
      using tagged_list [of "\<lambda>k _. k = ListK"] tagged_str
      by (subst iface_enc_cases) (auto simp: by_kind_rel_def)
  qed
  ultimately show ?case by (simp add: decodeInterface_by_kind)
qed

subsection \<open>Pointers with the nil tag\<close>

definition nil_bytes :: "Kind \<Rightarrow> bytes" where
  "nil_bytes k = [nilEncoding k]"

lemma nil_tag: "k \<noteq> ByteK \<Longrightarrow> tag k 0 x = nil_bytes k"
  by (cases k) (simp_all add: tag_def rlp_head_def kind_base_def nil_bytes_def nilEncoding_def)

definition nil_decoder :: "Kind \<Rightarrow> gval decoder" where
  "nil_decoder nilKind s = Some (bindS stream_Kind (\<lambda>(k, m) s.
     if k \<noteq> ByteK \<and> m = 0 then
       if k \<noteq> nilKind then (Inl (WrongKindOfEmpty k nilKind), s) else (Inr (GPtr nilKind None), s\<lparr>kind := None\<rparr>)
     else (Inl ErrCanonSize, s)) s)"

lemma nil_exact_decoder:
  assumes "k \<noteq> ByteK"
  shows "exact_decoder (nil_decoder k) (\<lambda>v b. v = GPtr k None \<and> b = nil_bytes k) N"
  unfolding nil_decoder_def [abs_def]
proof (rule tag_decoder, goal_cases)
  case (1 v b)
  then show ?case
    using assms nil_tag [OF assms, of 0]
    by (intro exI [of _ k] exI [of _ 0] exI [of _ 0] exI [of _ "[]"]) (auto simp: tag_ok_def adv_refl)
next
  case (2 k' n x s v s')
  have "n < 2 ^ 64" using 2 by (simp add: live_def)
  then have "(of_nat n :: u64) = 0 \<longleftrightarrow> n = 0" by (simp add: word_unat_eq_iff unat_of_nat_small)
  then show ?case using 2 nil_tag [OF assms, of x] by (auto simp: adv_refl split: if_splits)
next
  case (3 p s s')
  then show ?case by (cases p) simp
qed

definition is_empty :: "Kind \<Rightarrow> nat \<Rightarrow> bool" where
  "is_empty k n \<longleftrightarrow> k \<noteq> ByteK \<and> n = 0"

lemma decode_nil_ptr:
  "decode n (TPtr True k t) =
    by_kind (wrapS stream_Kind) is_empty (nil_decoder k) (pureD (\<lambda>v. Inr (GPtr k (Some v))) (decode n t))"
proof
  fix s
  obtain r s1 where r: "wrapS stream_Kind s = (r, s1)" by force
  show "decode n (TPtr True k t) s =
    by_kind (wrapS stream_Kind) is_empty (nil_decoder k) (pureD (\<lambda>v. Inr (GPtr k (Some v))) (decode n t)) s"
  proof (cases r)
    case (Inl e)
    then show ?thesis using r by (simp add: by_kind_def)
  next
    case (Inr p)
    then obtain k' m where p: "r = Inr (k', m)" by (cases p) simp
    have k: "wrapS stream_Kind s = (Inr (k', m), s1)" using r unfolding p .
    then have "stream_Kind s = (Inr (k', m), s1)" by simp
    then have "stream_Kind s1 = (Inr (k', m), s1)" by (rule stream_Kind_again)
    then have "nil_decoder k s1 = Some (if k' \<noteq> ByteK \<and> m = 0 then
        if k' \<noteq> k then (Inl (WrongKindOfEmpty k' k), s1) else (Inr (GPtr k None), s1\<lparr>kind := None\<rparr>)
      else (Inl ErrCanonSize, s1))"
      by (simp add: nil_decoder_def bindS_def)
    then show ?thesis
      unfolding by_kind_def decode.simps k bindD_simps prod.case by (simp add: pureD_def is_empty_def unat_eq_0)
  qed
qed

lemma tagged_nil: "k \<noteq> ByteK \<Longrightarrow> tagged is_empty (nil_bytes k)"
  unfolding tagged_def
  by (intro exI [of _ k] exI [of _ 0] exI [of _ 0] exI [of _ "[]"]) (simp add: nil_tag tag_ok_def is_empty_def)

lemma tagged_nonempty:
  assumes "framed b"
  shows "tagged (\<lambda>k n. \<not> is_empty k n) b \<longleftrightarrow> b \<noteq> nil_bytes StringK \<and> b \<noteq> nil_bytes ListK"
proof
  assume "tagged (\<lambda>k n. \<not> is_empty k n) b"
  then obtain k n x c where b: "b = tag k n x @ c" "tag_ok k n x" "length c = n" "\<not> is_empty k n"
    by (auto simp: tagged_def)
  have "b \<noteq> nil_bytes k'" if "k' \<noteq> ByteK" for k'
  proof
    assume e: "b = nil_bytes k'"
    then have "tag k n x @ c = tag k' 0 0 @ []" using b(1) nil_tag [OF that, of 0] by simp
    moreover have "length (tag k n x @ c) < 2 ^ 63" unfolding b(1) [symmetric] e nil_bytes_def by simp
    ultimately have "k' = k \<and> 0 = n"
      using tag_unique [of k n x c k' 0 0 "[]"] b(2,3) that by (simp add: tag_ok_def)
    then show False using b(4) that by (simp add: is_empty_def)
  qed
  then show "b \<noteq> nil_bytes StringK \<and> b \<noteq> nil_bytes ListK" by simp
next
  assume ne: "b \<noteq> nil_bytes StringK \<and> b \<noteq> nil_bytes ListK"
  obtain k n x c where b: "b = tag k n x @ c" "tag_ok k n x" "length c = n"
    using assms by (auto simp: framed_def)
  have "\<not> is_empty k n"
  proof
    assume e: "is_empty k n"
    then have "b = nil_bytes k" using b nil_tag [of k x] by (simp add: is_empty_def)
    then show False using ne e by (cases k) (simp_all add: is_empty_def)
  qed
  then show "tagged (\<lambda>k n. \<not> is_empty k n) b" using b unfolding tagged_def by blast
qed

end
