(* ===== verification/Rlp_Decode_Correct.thy ===== *)
theory Rlp_Decode_Correct
  imports Rlp_Decode_Types
begin

text \<open>
  The encodings that the decoder of a Go type accepts, the proof that \<open>decode\<close> is an exact
  decoder for them at every type, and the correctness of \<open>DecodeBytes\<close>: it is total, it inverts
  \<open>EncodeToBytes\<close>, and without optional fields it accepts nothing but what
  \<open>EncodeToBytes\<close> writes.
\<close>

subsection \<open>Types\<close>

fun is_tail :: "gtyp \<Rightarrow> bool" where
  "is_tail (TTail t) = True"
| "is_tail t = False"

text \<open>The types that the type cache makes a decoder for: \<open>tail\<close> only on the last field,
  after an optional field only optional or tail fields.\<close>

fun wf_typ :: "gtyp \<Rightarrow> bool"
  and wf_fields :: "(bool \<times> gtyp) list \<Rightarrow> bool" where
  "wf_typ (TPtr nilOK k t) \<longleftrightarrow> k \<noteq> ByteK \<and> wf_typ t \<and> \<not> is_tail t"
| "wf_typ (TUint bits) \<longleftrightarrow> bits \<in> {8, 16, 32, 64}"
| "wf_typ (TByteArray n) \<longleftrightarrow> n < 2 ^ 63"
| "wf_typ (TSlice t) \<longleftrightarrow> wf_typ t \<and> \<not> is_tail t"
| "wf_typ (TTail t) \<longleftrightarrow> wf_typ t \<and> \<not> is_tail t"
| "wf_typ (TArray n t) \<longleftrightarrow> wf_typ t \<and> \<not> is_tail t"
| "wf_typ (TStruct fs) \<longleftrightarrow> wf_fields fs"
| "wf_typ TRawValue \<longleftrightarrow> True"
| "wf_typ TBigIntPtr \<longleftrightarrow> True"
| "wf_typ TBigInt \<longleftrightarrow> True"
| "wf_typ TBool \<longleftrightarrow> True"
| "wf_typ TString \<longleftrightarrow> True"
| "wf_typ TBytes \<longleftrightarrow> True"
| "wf_typ TInterface \<longleftrightarrow> True"
| "wf_fields [] \<longleftrightarrow> True"
| "wf_fields ((opt, t) # fs) \<longleftrightarrow> wf_typ t \<and> (is_tail t \<longrightarrow> \<not> opt \<and> fs = [])
     \<and> (opt \<longrightarrow> list_all (\<lambda>f. fst f \<or> is_tail (snd f)) fs) \<and> wf_fields fs"

text \<open>\<open>accepts t v b\<close>: decoding \<open>b\<close> into the type \<open>t\<close> gives \<open>v\<close>. An optional field may
  be missing together with all fields after it.\<close>

fun accepts :: "gtyp \<Rightarrow> gval \<Rightarrow> bytes \<Rightarrow> bool"
  and accepts_fields :: "(bool \<times> gtyp) list \<Rightarrow> (bool \<times> gval) list \<Rightarrow> bytes \<Rightarrow> bool" where
  "accepts TRawValue v b \<longleftrightarrow> v = GRawValue b \<and> is_raw b"
| "accepts TBigIntPtr v b \<longleftrightarrow> (\<exists>i. 0 \<le> i \<and> v = GBigIntPtr (Some i) \<and> b = rlp_str (BE (nat i)))"
| "accepts TBigInt v b \<longleftrightarrow> (\<exists>i. 0 \<le> i \<and> v = GBigInt i \<and> b = rlp_str (BE (nat i)))"
| "accepts (TPtr nilOK k t) v b \<longleftrightarrow>
     (\<exists>w. v = GPtr k (Some w) \<and> accepts t w b \<and> (nilOK \<longrightarrow> b \<noteq> nil_bytes StringK \<and> b \<noteq> nil_bytes ListK))
     \<or> nilOK \<and> v = GPtr k None \<and> b = nil_bytes k"
| "accepts (TUint bits) v b \<longleftrightarrow> (\<exists>i. v = GUint i \<and> unat i < 2 ^ bits \<and> b = rlp_str (BE (unat i)))"
| "accepts TBool v b \<longleftrightarrow> (\<exists>x. v = GBool x \<and> b = rlp_str (BE (of_bool x)))"
| "accepts TString v b \<longleftrightarrow> (\<exists>c. v = GString c \<and> b = rlp_str c)"
| "accepts TBytes v b \<longleftrightarrow> (\<exists>c. v = GBytes c \<and> b = rlp_str c)"
| "accepts (TByteArray n) v b \<longleftrightarrow> (\<exists>c. v = GByteArray c \<and> length c = n \<and> b = rlp_str c)"
| "accepts (TSlice t) v b \<longleftrightarrow> (\<exists>vs p. v = GSlice vs \<and> payload (accepts t) vs p \<and> b = rlp_list p)"
| "accepts (TTail t) v b \<longleftrightarrow> (\<exists>vs. v = GTailSlice vs \<and> payload (accepts t) vs b)"
| "accepts (TArray n t) v b \<longleftrightarrow> (\<exists>vs p. v = GSlice vs \<and> length vs = n \<and> payload (accepts t) vs p \<and> b = rlp_list p)"
| "accepts (TStruct fs) v b \<longleftrightarrow>
     (\<exists>fvs p. v = GStruct fvs (firstOptionalField fs) \<and> accepts_fields fs fvs p \<and> b = rlp_list p)"
| "accepts TInterface v b \<longleftrightarrow> iface_enc v b"
| "accepts_fields [] fvs p \<longleftrightarrow> fvs = [] \<and> p = []"
| "accepts_fields ((opt, t) # fs) fvs p \<longleftrightarrow> opt \<and> fvs = zeroFields ((opt, t) # fs) \<and> p = []
     \<or> (\<exists>v fvs' b q. fvs = (isZero t v, v) # fvs' \<and> accepts t v b \<and> accepts_fields fs fvs' q \<and> p = b @ q)"

subsection \<open>Fields of a struct\<close>

definition field_decoder :: "nat \<Rightarrow> gtyp \<Rightarrow> bool" where
  "field_decoder n t \<longleftrightarrow> (case t of TTail t' \<Rightarrow> exact_decoder (decode n t') (accepts t') n
     | _ \<Rightarrow> exact_decoder (decode n t) (accepts t) n)"

lemma field_decoder_plain: "field_decoder n t \<Longrightarrow> \<not> is_tail t \<Longrightarrow> exact_decoder (decode n t) (accepts t) n"
  by (cases t) (simp_all add: field_decoder_def)

lemma field_decoder_tail: "field_decoder n (TTail t) \<longleftrightarrow> exact_decoder (decode n t) (accepts t) n"
  by (simp add: field_decoder_def)

lemma is_tail_TTail: "is_tail t \<longleftrightarrow> (\<exists>t'. t = TTail t')"
  by (cases t) simp_all

lemma fields_not_EOL: "decodeFields n fs acc s \<noteq> Some (Inl EOL, s')"
proof (induction fs arbitrary: acc s)
  case (Cons f fs)
  then show ?case by (cases f) (auto split: option.splits prod.splits sum.splits if_splits)
qed simp

lemma tail_not_EOL: "decode n (TTail t) s \<noteq> Some (Inl EOL, s')"
  using elems_not_EOL [of n "decode n t" "[]" s s']
  by (auto simp: bindD_def split: option.splits prod.splits sum.splits)

text \<open>A field decodes some bytes of the payload; only a tail field may take none.\<close>

lemma field_sound:
  assumes d: "field_decoder n t" and s: "live s" "kind s = None" and r: "decode n t s = Some (Inr v, s')"
  shows "kind s' = None \<and> (\<exists>b. accepts t v b \<and> rd s = b @ rd s' \<and> adv (length b) s s' \<and> (is_tail t \<or> b \<noteq> []))"
proof (cases "is_tail t")
  case False
  then have e: "exact_decoder (decode n t) (accepts t) n" using d by (simp add: field_decoder_plain)
  then have v: "value_decoder (decode n t) (accepts t) n" by (simp add: exact_decoder_def)
  show ?thesis
    using exact_decoder.sound [OF e s r] value_decoder.progress [OF v s r] value_decoder.nonempty [OF v] by blast
next
  case True
  then obtain t' where t: "t = TTail t'" by (auto simp: is_tail_TTail)
  then have e: "exact_decoder (decode n t') (accepts t') n" using d by (simp add: field_decoder_tail)
  then have v: "value_decoder (decode n t') (accepts t') n" by (simp add: exact_decoder_def)
  obtain vs where vs: "decodeSliceElems n (decode n t') [] s = Some (Inr vs, s')" "v = GTailSlice vs"
    using r t by (auto dest!: bindD_Inr)
  from exact_decoder.elems_sound [OF e s vs(1)] value_decoder.elems_progress [OF v s vs(1)]
  show ?thesis using t vs(2) by (auto simp: payload_def)
qed

lemma field_total:
  assumes d: "field_decoder n t" and s: "live s" "kind s = None" "length (rd s) < n"
  shows "decode n t s \<noteq> None"
proof (cases "is_tail t")
  case False
  then have "exact_decoder (decode n t) (accepts t) n" using d by (simp add: field_decoder_plain)
  then show ?thesis using value_decoder.total s by (auto simp: exact_decoder_def)
next
  case True
  then obtain t' where t: "t = TTail t'" by (auto simp: is_tail_TTail)
  then have "value_decoder (decode n t') (accepts t') n" using d by (simp add: field_decoder_tail exact_decoder_def)
  from value_decoder.elems_total [OF this s s(3), of "[]"] show ?thesis
    using t by (auto simp: bindD_def split: option.splits prod.splits sum.splits)
qed

lemma fields_total:
  "list_all (\<lambda>f. field_decoder n (snd f)) fs \<Longrightarrow> live s \<Longrightarrow> kind s = None \<Longrightarrow> length (rd s) < n
    \<Longrightarrow> decodeFields n fs acc s \<noteq> None"
proof (induction fs arbitrary: acc s)
  case (Cons f fs)
  obtain opt t where f: "f = (opt, t)" by force
  obtain r s1 where r: "decode n t s = Some (r, s1)" using field_total Cons.prems f by fastforce
  show ?case
  proof (cases r)
    case (Inr v)
    then have "kind s1 = None" "\<exists>j. adv j s s1" using field_sound [of n t s v s1] Cons.prems r f by auto
    then show ?thesis using Cons r Inr f by (auto simp: adv_def)
  qed (simp add: r f)
qed simp


lemma fields_sound:
  "wf_fields fs \<Longrightarrow> list_all (\<lambda>f. field_decoder n (snd f)) fs \<Longrightarrow> live s \<Longrightarrow> kind s = None
    \<Longrightarrow> decodeFields n fs acc s = Some (Inr fvs, s')
    \<Longrightarrow> \<exists>gvs p. fvs = acc @ gvs \<and> accepts_fields fs gvs p \<and> rd s = p @ rd s' \<and> adv (length p) s s'"
proof (induction fs arbitrary: acc s)
  case Nil
  then show ?case by (auto intro: adv_refl)
next
  case (Cons f fs)
  obtain opt t where f: "f = (opt, t)" by force
  obtain r s1 where r: "decode n t s = Some (r, s1)" using Cons.prems(5) f by (auto split: option.splits)
  have d: "field_decoder n t" using Cons.prems(2) f by simp
  show ?case
  proof (cases r)
    case (Inl e)
    then have e: "e = EOL" "opt" "fvs = acc @ zeroFields (f # fs)" "s' = s1"
      using Cons.prems(5) r f by (auto split: if_splits)
    then have "\<not> is_tail t" using r Inl tail_not_EOL by (auto simp: is_tail_TTail)
    then have "value_decoder (decode n t) (accepts t) n"
      using field_decoder_plain [OF d] by (simp add: exact_decoder_def)
    from value_decoder.eol_only [OF this Cons.prems(3,4)] r Inl e have "s' = s" by blast
    then show ?thesis
      using e f Cons.prems(3) by (intro exI [of _ "zeroFields (f # fs)"] exI [of _ "[]"]) (auto intro: adv_refl)
  next
    case (Inr v)
    then obtain b where b: "kind s1 = None" "accepts t v b" "rd s = b @ rd s1" "adv (length b) s s1"
      using field_sound [OF d Cons.prems(3,4)] r by blast
    have "decodeFields n fs (acc @ [(isZero t v, v)]) s1 = Some (Inr fvs, s')"
      using Cons.prems(5) r Inr f by simp
    then obtain gvs p where "fvs = (acc @ [(isZero t v, v)]) @ gvs" "accepts_fields fs gvs p" "rd s1 = p @ rd s'"
      "adv (length p) s1 s'"
      using Cons.IH [of s1 "acc @ [(isZero t v, v)]"] Cons.prems(1,2) f b(1) adv_live [OF b(4)] by auto
    then show ?thesis
      using b f adv_trans [OF b(4)]
      by (intro exI [of _ "(isZero t v, v) # gvs"] exI [of _ "b @ p"]) (auto simp: zeroFields_def)
  qed
qed

lemma tail_complete:
  assumes "exact_decoder (decode n t) (accepts t) n" and "payload (accepts t) vs p" and "live s" and "kind s = None"
    and "rd s = p @ rest" and "stack s = of_nat (length p) # ls" and "length (rd s) < n"
  shows "\<exists>s'. decode n (TTail t) s = Some (Inr (GTailSlice vs), s') \<and> adv (length p) s s' \<and> kind s' = None"
proof -
  have "value_decoder (decode n t) (accepts t) n" using assms(1) by (simp add: exact_decoder_def)
  moreover obtain bs where "list_all2 (accepts t) vs bs" "p = concat bs" using assms(2) by (auto simp: payload_def)
  ultimately have "\<exists>s'. decodeSliceElems n (decode n t) [] s = Some (Inr vs, s') \<and> adv (length p) s s' \<and> kind s' = None"
    using value_decoder.elems_complete [of "decode n t" "accepts t" n vs bs s rest ls n "[]"] assms(3-) by simp
  then show ?thesis by auto
qed

lemma fields_complete:
  "wf_fields fs \<Longrightarrow> list_all (\<lambda>f. field_decoder n (snd f)) fs \<Longrightarrow> accepts_fields fs gvs p \<Longrightarrow> live s
    \<Longrightarrow> kind s = None \<Longrightarrow> rd s = p @ rest \<Longrightarrow> stack s = of_nat (length p) # ls \<Longrightarrow> length (rd s) < n
    \<Longrightarrow> \<exists>s'. decodeFields n fs acc s = Some (Inr (acc @ gvs), s') \<and> adv (length p) s s'"
proof (induction fs arbitrary: acc s gvs p)
  case Nil
  then show ?case by (auto intro: adv_refl)
next
  case (Cons f fs)
  obtain opt t where f: "f = (opt, t)" by force
  have d: "field_decoder n t" and wf: "wf_fields fs" "is_tail t \<longrightarrow> \<not> opt \<and> fs = []" using Cons.prems(1,2) f by auto
  show ?case
  proof (cases "opt \<and> gvs = zeroFields (f # fs) \<and> p = []")
    case True
    then have "\<not> is_tail t" using wf by blast
    then have "value_decoder (decode n t) (accepts t) n"
      using field_decoder_plain [OF d] by (simp add: exact_decoder_def)
    then have "decode n t s = Some (Inl EOL, s)"
      using value_decoder.eol [of "decode n t" "accepts t" n s ls] True Cons.prems by simp
    then show ?thesis using True f Cons.prems(4) by (auto intro: adv_refl)
  next
    case False
    then obtain v gvs' b q where g: "gvs = (isZero t v, v) # gvs'" "accepts t v b" "accepts_fields fs gvs' q" "p = b @ q"
      using Cons.prems(3) f by auto
    have len: "length p < 2 ^ 64" using Cons.prems(4,6) by (simp add: live_def)
    have "\<exists>s1. decode n t s = Some (Inr v, s1) \<and> adv (length b) s s1 \<and> kind s1 = None"
    proof (cases "is_tail t")
      case True
      then obtain t' where t: "t = TTail t'" by (auto simp: is_tail_TTail)
      then obtain vs where "v = GTailSlice vs" "payload (accepts t') vs b" using g(2) by auto
      moreover have "q = []" using True wf g(3) by simp
      ultimately show ?thesis
        using tail_complete [of n t' vs b s rest ls] d t Cons.prems g(4) by (simp add: field_decoder_tail)
    next
      case False
      then have "value_decoder (decode n t) (accepts t) n"
        using field_decoder_plain [OF d] by (simp add: exact_decoder_def)
      moreover have "fits (length b) s"
        using Cons.prems(7) g(4) len by (simp add: fits_def unat_of_nat_small flip: of_nat_add)
      ultimately show ?thesis
        using value_decoder.complete [of "decode n t" "accepts t" n v b s "q @ rest"] g Cons.prems by simp
    qed
    then obtain s1 where s1: "decode n t s = Some (Inr v, s1)" "adv (length b) s s1" "kind s1 = None" by blast
    have "\<exists>s'. decodeFields n fs (acc @ [(isZero t v, v)]) s1 = Some (Inr ((acc @ [(isZero t v, v)]) @ gvs'), s')
      \<and> adv (length q) s1 s'"
      using s1(2,3) Cons.prems g wf(1) f by (intro Cons.IH) (auto simp: adv_def consume_Cons)
    then show ?thesis using f g s1 adv_trans [OF s1(2)] by auto
  qed
qed

subsection \<open>Every decoder is exact\<close>

lemma decode_struct_in_list:
  "decode n (TStruct fs) = in_list (\<lambda>_. decodeFields n fs []) (wrapS stream_ListEnd) (\<lambda>fvs. GStruct fvs (firstOptionalField fs))"
  by (auto simp: fun_eq_iff in_list_def)

lemma struct_decoder:
  assumes wf: "wf_fields fs" and d: "list_all (\<lambda>f. field_decoder n (snd f)) fs"
  shows "exact_decoder (decode n (TStruct fs)) (accepts (TStruct fs)) n"
proof -
  let ?f = "\<lambda>fvs. GStruct fvs (firstOptionalField fs)"
  let ?d = "in_list (\<lambda>_. decodeFields n fs []) (wrapS stream_ListEnd) ?f"
  let ?R = "\<lambda>w b. \<exists>v p. w = ?f v \<and> accepts_fields fs v p \<and> b = rlp_list p"
  have "value_decoder ?d ?R (Suc n)"
  proof (rule in_list_value_decoder [OF list_end_simps(2)], goal_cases)
    case (1 m s)
    then show ?case using fields_total [OF d] by blast
  next
    case (2 m s v s')
    then show ?case using fields_sound [OF wf d, of s "[]" v s'] by auto
  next
    case (3 v p s rest ls)
    then show ?case using fields_complete [OF wf d, of v p s rest ls "[]"] by auto
  next
    case (4 m s s')
    then show ?case using fields_not_EOL by blast
  qed
  moreover have "exact_decoder_axioms ?d ?R"
    using fields_sound [OF wf d, of _ "[]"] by (intro in_list_exact) fastforce+
  ultimately have "exact_decoder ?d ?R (Suc n)" by (rule exact_decoder.intro)
  then have "exact_decoder ?d ?R n" by (rule exact_decoder_mono) simp
  moreover have "accepts (TStruct fs) = ?R" by (simp add: fun_eq_iff)
  ultimately show ?thesis by (simp only: decode_struct_in_list)
qed


lemma exact_rel: "exact_decoder d R n \<Longrightarrow> (\<And>v b. R v b \<longleftrightarrow> R' v b) \<Longrightarrow> exact_decoder d R' n"
proof -
  assume d: "exact_decoder d R n" and e: "\<And>v b. R v b \<longleftrightarrow> R' v b"
  have "R = R'" by (intro ext) (rule e)
  then show ?thesis using d by simp
qed

lemma exact_map:
  assumes "exact_decoder d R n" and "d' = pureD (\<lambda>v. Inr (f v)) d" and "\<And>w b. R' w b \<longleftrightarrow> (\<exists>v. w = f v \<and> R v b)"
  shows "exact_decoder d' R' n"
  using exact_decoder_pureD [OF assms(1), of "\<lambda>v. Inr (f v)"] unfolding assms(2)
  by (rule exact_rel) (auto simp: assms(3))

lemma decodeBool_decoder: "exact_decoder (decode n TBool) (accepts TBool) n"
proof -
  let ?g = "\<lambda>num :: u64. if num = 0 then Inr False else if num = 1 then Inr True else Inl (ErrInvalidBool num)"
  have "exact_decoder (\<lambda>s. Some (stream_uint 8 s)) (uint_enc 8) n" by (intro uint_decoder) simp
  from exact_decoder_pureD [OF this, of ?g]
  have "exact_decoder (pureD ?g (\<lambda>s. Some (stream_uint 8 s))) (\<lambda>x b. \<exists>num. uint_enc 8 num b \<and> ?g num = Inr x) n"
    by simp
  moreover have "pureD ?g (\<lambda>s. Some (stream_uint 8 s)) = (\<lambda>s. Some (stream_Bool s))"
    by (subst bindS_pure [symmetric]) (simp add: fun_eq_iff stream_Bool_def bindS_def split: prod.splits sum.splits)
  moreover have "?g num = Inr x \<longleftrightarrow> num = of_bool x" for num x
    by (cases x) auto
  then have "(\<exists>num. uint_enc 8 num b \<and> ?g num = Inr x) \<longleftrightarrow> b = rlp_str (BE (of_bool x))" for x b
    by (cases x) (simp_all add: uint_enc_def)
  ultimately have "exact_decoder (\<lambda>s. Some (stream_Bool s)) (\<lambda>x b. b = rlp_str (BE (of_bool x))) n" by simp
  from exact_decoder_wrapS [OF this] show ?thesis
    by (rule exact_map [where f = GBool])
      (auto simp: fun_eq_iff decodeBool_def pureD_def bindS_def bindD_def split: prod.splits sum.splits)
qed

lemma ptr_decoder:
  assumes e: "exact_decoder (decode n t) (accepts t) n" and k: "k \<noteq> ByteK"
  shows "exact_decoder (decode n (TPtr nilOK k t)) (accepts (TPtr nilOK k t)) n"
proof (cases nilOK)
  case True
  let ?RA = "\<lambda>v b. v = GPtr k None \<and> b = nil_bytes k"
  let ?RB = "\<lambda>w b. \<exists>v. accepts t v b \<and> Inr (GPtr k (Some v)) = (Inr w :: rlp_error + gval)"
  have "exact_decoder (pureD (\<lambda>v. Inr (GPtr k (Some v))) (decode n t)) ?RB n"
    using e by (rule exact_decoder_pureD) simp
  from by_kind_exact_decoder [OF nil_exact_decoder [OF k] this asks_kind_simps(2)]
  have d: "exact_decoder (decode n (TPtr True k t)) (by_kind_rel is_empty ?RA ?RB) n"
    unfolding decode_nil_ptr .
  have f: "accepts t w b \<Longrightarrow> framed b" for w b using e value_decoder.framed by (auto simp: exact_decoder_def)
  have "by_kind_rel is_empty ?RA ?RB v b \<longleftrightarrow> accepts (TPtr True k t) v b" for v b
    using tagged_nil [OF k] tagged_nonempty [of b] f by (auto simp: by_kind_rel_def)
  with d have "exact_decoder (decode n (TPtr True k t)) (accepts (TPtr True k t)) n" by (rule exact_rel)
  moreover have "nilOK = True" using True by simp
  ultimately show ?thesis by (simp only:)
next
  case False
  then have "decode n (TPtr nilOK k t) = pureD (\<lambda>v. Inr (GPtr k (Some v))) (decode n t)"
    by (simp add: fun_eq_iff pureD_def)
  with e show ?thesis by (rule exact_map) (use False in auto)
qed

lemmas decoder_defs = decodeRawValue_def decodeUint_def decodeString_def decodeByteSlice_def
  pureD_def bindS_def bindD_def

lemma base_decoders:
  "exact_decoder (decode n TRawValue) (accepts TRawValue) n"
  "exact_decoder (decode n TBigIntPtr) (accepts TBigIntPtr) n"
  "exact_decoder (decode n TBigInt) (accepts TBigInt) n"
  "exact_decoder (decode n TString) (accepts TString) n"
  "exact_decoder (decode n TBytes) (accepts TBytes) n"
  "exact_decoder (decode n TInterface) (accepts TInterface) n"
proof -
  show "exact_decoder (decode n TRawValue) (accepts TRawValue) n"
    by (rule exact_map [OF Raw_decoder, where f = GRawValue])
      (auto simp: fun_eq_iff decoder_defs split: prod.splits sum.splits)
  show "exact_decoder (decode n TBigIntPtr) (accepts TBigIntPtr) n"
    by (rule exact_map [OF decodeBigInt_decoder, where f = "\<lambda>i. GBigIntPtr (Some i)"])
      (auto simp: fun_eq_iff decoder_defs split: prod.splits sum.splits)
  show "exact_decoder (decode n TBigInt) (accepts TBigInt) n"
    by (rule exact_map [OF decodeBigInt_decoder, where f = GBigInt])
      (auto simp: fun_eq_iff decoder_defs split: prod.splits sum.splits)
  show "exact_decoder (decode n TString) (accepts TString) n"
    by (rule exact_map [OF exact_decoder_wrapS [OF Bytes_decoder], where f = GString])
      (auto simp: fun_eq_iff decoder_defs split: prod.splits sum.splits)
  show "exact_decoder (decode n TBytes) (accepts TBytes) n"
    by (rule exact_map [OF exact_decoder_wrapS [OF Bytes_decoder], where f = GBytes])
      (auto simp: fun_eq_iff decoder_defs split: prod.splits sum.splits)
  have "decode n TInterface = decodeInterface n" "accepts TInterface = iface_enc" by (simp_all add: fun_eq_iff)
  then show "exact_decoder (decode n TInterface) (accepts TInterface) n" using interface_decoder by simp
qed

lemma sized_decoders:
  "bits \<in> {8, 16, 32, 64} \<Longrightarrow> exact_decoder (decode n (TUint bits)) (accepts (TUint bits)) n"
  "len < 2 ^ 63 \<Longrightarrow> exact_decoder (decode n (TByteArray len)) (accepts (TByteArray len)) n"
proof -
  show "bits \<in> {8, 16, 32, 64} \<Longrightarrow> exact_decoder (decode n (TUint bits)) (accepts (TUint bits)) n"
    by (rule exact_map [OF exact_decoder_wrapS [OF uint_decoder], where f = GUint])
      (auto simp: fun_eq_iff decoder_defs uint_enc_def split: prod.splits sum.splits)
  assume "len < 2 ^ 63"
  moreover have "decode n (TByteArray len) = (\<lambda>s. Some (decodeByteArray len s))"
    "accepts (TByteArray len) = (\<lambda>v b. \<exists>c. v = GByteArray c \<and> length c = len \<and> b = rlp_str c)"
    by (simp_all add: fun_eq_iff)
  ultimately show "exact_decoder (decode n (TByteArray len)) (accepts (TByteArray len)) n"
    using bytearray_decoder by simp
qed

lemma slice_decoder:
  assumes "exact_decoder (decode n t) (accepts t) n"
  shows "exact_decoder (decode n (TSlice t)) (accepts (TSlice t)) n"
proof (rule exact_map)
  show "exact_decoder (decodeListSlice n (decode n t)) (\<lambda>vs b. \<exists>p. payload (accepts t) vs p \<and> b = rlp_list p) n"
    using exact_decoder.slice_exact_decoder [OF assms, of n] by (auto intro: exact_decoder_mono)
qed (auto simp: fun_eq_iff pureD_def)

lemma array_decoder:
  assumes "exact_decoder (decode n t) (accepts t) n"
  shows "exact_decoder (decode n (TArray len t)) (accepts (TArray len t)) n"
proof (rule exact_map)
  show "exact_decoder (decodeListArray len (decode n t))
    (\<lambda>vs b. \<exists>p. (length vs = len \<and> payload (accepts t) vs p) \<and> b = rlp_list p) n"
    using exact_decoder.array_exact_decoder [OF assms, of len] by (auto intro: exact_decoder_mono)
qed (auto simp: fun_eq_iff pureD_def)

lemma wf_fields_types: "wf_fields fs \<Longrightarrow> f \<in> set fs \<Longrightarrow> wf_typ (snd f)"
  by (induction fs) auto

lemma field_decoderI:
  "\<not> is_tail t \<Longrightarrow> exact_decoder (decode n t) (accepts t) n \<Longrightarrow> field_decoder n t"
  by (cases t) (simp_all only: field_decoder_def gtyp.case is_tail.simps not_True_eq_False)

lemma decode_exact: "wf_typ t \<Longrightarrow> field_decoder n t"
proof (induction t)
  case (TPtr nilOK k t)
  then have "exact_decoder (decode n t) (accepts t) n" "k \<noteq> ByteK" by (auto intro: field_decoder_plain)
  then show ?case by (intro field_decoderI ptr_decoder) simp_all
next
  case (TStruct fs)
  have "field_decoder n (snd f)" if "f \<in> set fs" for f
    using TStruct.IH [OF that, of "snd f"] wf_fields_types [of fs f] TStruct.prems that by (cases f) auto
  then show ?case using TStruct.prems by (intro field_decoderI struct_decoder) (simp_all add: list_all_iff)
next
  case (TSlice t)
  then have "exact_decoder (decode n t) (accepts t) n" by (auto intro: field_decoder_plain)
  then show ?case by (intro field_decoderI slice_decoder) simp_all
next
  case (TTail t)
  then show ?case by (auto simp: field_decoder_tail intro: field_decoder_plain)
next
  case (TArray len t)
  then have "exact_decoder (decode n t) (accepts t) n" by (auto intro: field_decoder_plain)
  then show ?case by (intro field_decoderI array_decoder) simp_all
next
  case (TUint bits)
  then show ?case by (intro field_decoderI sized_decoders) simp_all
next
  case (TByteArray len)
  then show ?case by (intro field_decoderI sized_decoders) simp_all
qed (intro field_decoderI base_decoders decodeBool_decoder; simp)+

end
