(* ===== verification/Rlp_Roundtrip.thy ===== *)
theory Rlp_Roundtrip
  imports Rlp_Decode_Correct
begin

text \<open>
  The decoder against the encoder: what a type accepts is what the encoder writes for the values
  of the type, up to missing optional fields.
\<close>

interpretation str_dec: exact_decoder "\<lambda>s. Some (stream_Bytes s)" "\<lambda>c b. b = rlp_str c" N for N
  by (rule Bytes_decoder)

interpretation iface_dec: exact_decoder "decodeInterface n" iface_enc n for n
  by (rule interface_decoder)

subsection \<open>Accepted encodings are the encoder's\<close>

fun no_optional :: "gtyp \<Rightarrow> bool"
  and no_optional_fields :: "(bool \<times> gtyp) list \<Rightarrow> bool" where
  "no_optional (TPtr nilOK k t) = no_optional t"
| "no_optional (TSlice t) = no_optional t"
| "no_optional (TTail t) = no_optional t"
| "no_optional (TArray n t) = no_optional t"
| "no_optional (TStruct fs) = no_optional_fields fs"
| "no_optional t = True"
| "no_optional_fields [] = True"
| "no_optional_fields ((opt, t) # fs) = (\<not> opt \<and> no_optional t \<and> no_optional_fields fs)"

lemma firstOptionalField_none: "no_optional_fields fs \<Longrightarrow> firstOptionalField fs = length fs"
proof (induction fs)
  case (Cons f fs)
  then show ?case by (cases f) simp
qed simp

lemma structFields_all: "structFields gvs (length gvs) = gvs"
  by (simp add: structFields_def lastField.simps)

lemma payload_enc_list:
  "payload R vs p \<Longrightarrow> (\<And>v b. R v b \<Longrightarrow> enc v = Inr b) \<Longrightarrow> enc_list vs = Inr p"
proof (induction vs arbitrary: p)
  case (Cons v vs)
  then obtain b q where "R v b" "payload R vs q" "p = b @ q" by (auto simp: payload_Cons)
  then show ?case using Cons by simp
qed simp

lemma payload_of_enc_list:
  "enc_list vs = Inr p \<Longrightarrow> (\<And>v b. v \<in> set vs \<Longrightarrow> enc v = Inr b \<Longrightarrow> R v b) \<Longrightarrow> payload R vs p"
  by (induction vs arbitrary: p) (auto simp: payload_Cons split: sum.splits)

lemma nil_bytes_enc: "enc (GPtr k None) = Inr (nil_bytes k)"
  by (simp add: nil_bytes_def nilEncoding_def rlp_list_def rlp_str_def rlp_head_def)

lemma accepts_enc:
  "accepts t v b \<Longrightarrow> no_optional t \<Longrightarrow> enc v = Inr b"
  "accepts_fields fs gvs p \<Longrightarrow> no_optional_fields fs \<Longrightarrow> length gvs = length fs \<and> enc_list (map snd gvs) = Inr p"
proof (induction t v b and fs gvs p rule: accepts_accepts_fields.induct)
  case (4 nilOK k t v b)
  then show ?case using nil_bytes_enc by auto
next
  case (10 t v b)
  then obtain vs p where v: "v = GSlice vs" "payload (accepts t) vs p" "b = rlp_list p" by auto
  then have "enc_list vs = Inr p" using payload_enc_list [OF v(2)] 10 by auto
  then show ?case using v by simp
next
  case (11 t v b)
  then obtain vs where v: "v = GTailSlice vs" "payload (accepts t) vs b" by auto
  then have "enc_list vs = Inr b" using payload_enc_list [OF v(2)] 11 by auto
  then show ?case using v by simp
next
  case (12 n t v b)
  then obtain vs p where v: "v = GSlice vs" "payload (accepts t) vs p" "b = rlp_list p" by auto
  then have "enc_list vs = Inr p" using payload_enc_list [OF v(2)] 12 by auto
  then show ?case using v by simp
next
  case (13 fs v b)
  then obtain gvs p where v: "v = GStruct gvs (firstOptionalField fs)" "accepts_fields fs gvs p" "b = rlp_list p"
    by auto
  then have "length gvs = length fs" "enc_list (map snd gvs) = Inr p" using 13 by auto
  then show ?case using v 13 structFields_all [of gvs] by (simp add: firstOptionalField_none)
next
  case (14 v b)
  then show ?case by (simp add: iface_enc_def)
next
  case (16 opt t fs gvs p)
  then show ?case by auto
qed auto


subsection \<open>Typed values\<close>

text \<open>The values of a type, as a decoder leaves them: non-negative big integers, no pointers
  to a value with an empty encoding under the \<open>nil\<close> tag, optional fields zero from some field
  on.\<close>

fun has_type :: "gtyp \<Rightarrow> gval \<Rightarrow> bool"
  and has_fields :: "(bool \<times> gtyp) list \<Rightarrow> (bool \<times> gval) list \<Rightarrow> bool" where
  "has_type TRawValue v = (case v of GRawValue b \<Rightarrow> is_raw b | _ \<Rightarrow> False)"
| "has_type TBigIntPtr v = (case v of GBigIntPtr (Some i) \<Rightarrow> 0 \<le> i | _ \<Rightarrow> False)"
| "has_type TBigInt v = (case v of GBigInt i \<Rightarrow> 0 \<le> i | _ \<Rightarrow> False)"
| "has_type (TPtr nilOK k t) v = (case v of
     GPtr k' (Some w) \<Rightarrow> k' = k \<and> has_type t w \<and>
       (nilOK \<longrightarrow> enc w \<noteq> Inr (nil_bytes StringK) \<and> enc w \<noteq> Inr (nil_bytes ListK))
   | GPtr k' None \<Rightarrow> nilOK \<and> k' = k
   | _ \<Rightarrow> False)"
| "has_type (TUint bits) v = (case v of GUint i \<Rightarrow> unat i < 2 ^ bits | _ \<Rightarrow> False)"
| "has_type TBool v = (case v of GBool x \<Rightarrow> True | _ \<Rightarrow> False)"
| "has_type TString v = (case v of GString c \<Rightarrow> True | _ \<Rightarrow> False)"
| "has_type TBytes v = (case v of GBytes c \<Rightarrow> True | _ \<Rightarrow> False)"
| "has_type (TByteArray n) v = (case v of GByteArray c \<Rightarrow> length c = n | _ \<Rightarrow> False)"
| "has_type (TSlice t) v = (case v of GSlice vs \<Rightarrow> list_all (has_type t) vs | _ \<Rightarrow> False)"
| "has_type (TTail t) v = (case v of GTailSlice vs \<Rightarrow> list_all (has_type t) vs | _ \<Rightarrow> False)"
| "has_type (TArray n t) v = (case v of GSlice vs \<Rightarrow> length vs = n \<and> list_all (has_type t) vs | _ \<Rightarrow> False)"
| "has_type (TStruct fs) v = (case v of GStruct gvs fo \<Rightarrow> fo = firstOptionalField fs \<and> has_fields fs gvs | _ \<Rightarrow> False)"
| "has_type TInterface v = iface v"
| "has_fields [] gvs = (gvs = [])"
| "has_fields ((opt, t) # fs) gvs = (case gvs of [] \<Rightarrow> False
     | (z, v) # gvs' \<Rightarrow> opt \<and> gvs = zeroFields ((opt, t) # fs)
         \<or> z = isZero t v \<and> has_type t v \<and> has_fields fs gvs')"

lemma zero_unique:
  "has_type t v \<Longrightarrow> isZero t v \<Longrightarrow> v = zeroval t"
  "has_fields fs gvs \<Longrightarrow> list_all fst gvs \<Longrightarrow> gvs = zeroFields fs"
proof (induction t v and fs gvs rule: has_type_has_fields.induct)
  case (12 n t v)
  then obtain vs where "v = GSlice vs" "length vs = n" "list_all (has_type t) vs" "list_all (isZero t) vs"
    by (auto split: gval.splits)
  then show ?case using 12 by (auto simp: list_all_iff intro: replicate_eqI)
next
  case (16 opt t fs gvs)
  then show ?case by (auto simp: zeroFields_def split: list.splits prod.splits)
qed (auto simp: zeroFields_def split: gval.splits option.splits)

subsection \<open>Fields that are written\<close>

lemma lastField_Suc: "lastField (g # gvs) (Suc fo) (Suc n) = Suc (lastField gvs fo n)"
proof (induction n)
  case 0
  then show ?case by (simp add: lastField.simps)
next
  case (Suc n)
  then show ?case by (subst (1 2) lastField.simps) simp
qed

lemma lastField_zero:
  "lastField (g # gvs) 0 (Suc n) = (if lastField gvs 0 n = 0 \<and> fst g then 0 else Suc (lastField gvs 0 n))"
proof (induction n)
  case 0
  then show ?case by (simp add: lastField.simps)
next
  case (Suc n)
  then show ?case by (subst (1 2 3) lastField.simps) simp
qed

lemma lastField_all: "n \<le> length gvs \<Longrightarrow> lastField gvs 0 n = 0 \<longleftrightarrow> list_all fst (take n gvs)"
proof (induction n)
  case 0
  then show ?case by (simp add: lastField.simps)
next
  case (Suc n)
  then show ?case by (subst lastField.simps) (simp add: take_Suc_conv_app_nth)
qed

lemma structFields_Cons:
  "structFields (g # gvs) (Suc fo) = g # structFields gvs fo"
  "structFields (g # gvs) 0 = (if list_all fst (g # gvs) then [] else g # structFields gvs 0)"
  using lastField_all [of "length gvs" gvs]
  by (auto simp: structFields_def lastField_Suc lastField_zero)

lemma structFields_Nil: "structFields [] fo = []"
  by (simp add: structFields_def)

lemma structFields_optional:
  assumes "list_all (\<lambda>f. fst f \<or> is_tail (snd f)) fs" and "wf_fields fs" and "has_fields fs gvs"
  shows "structFields gvs (firstOptionalField fs) = structFields gvs 0"
proof (cases fs)
  case Nil
  then show ?thesis using assms by (simp add: structFields_def)
next
  case (Cons f fs')
  then obtain opt t where f: "f = (opt, t)" by force
  show ?thesis
  proof (cases opt)
    case False
    then obtain t' where "t = TTail t'" "fs' = []" using assms(1,2) Cons f by (auto simp: is_tail_TTail)
    then show ?thesis
      using assms(3) Cons f False by (auto simp: structFields_Cons structFields_Nil split: list.splits prod.splits)
  qed (simp add: Cons f)
qed


lemma enc_list_Cons:
  "enc_list (v # vs) = Inr p \<longleftrightarrow> (\<exists>b q. enc v = Inr b \<and> enc_list vs = Inr q \<and> p = b @ q)"
  by (auto split: sum.splits)

lemma map_sum_Inr: "map_sum id f x = Inr y \<longleftrightarrow> (\<exists>p. x = Inr p \<and> y = f p)"
  by (cases x) auto

lemma enc_accepts:
  "has_type t v \<Longrightarrow> wf_typ t \<Longrightarrow> enc v = Inr b \<Longrightarrow> accepts t v b"
  "has_fields fs gvs \<Longrightarrow> wf_fields fs \<Longrightarrow> enc_list (map snd (structFields gvs (firstOptionalField fs))) = Inr p
    \<Longrightarrow> accepts_fields fs gvs p"
proof (induction t v and fs gvs arbitrary: b and p rule: has_type_has_fields.induct)
  case (4 nilOK k t v)
  then show ?case using nil_bytes_enc [of k]
    by (auto split: gval.splits option.splits simp del: enc.simps(6) simp: enc.simps(5))
next
  case (10 t v)
  from 10(2) obtain vs where vs: "v = GSlice vs" "list_all (has_type t) vs" by (cases v) simp_all
  then obtain p where v: "enc_list vs = Inr p" "b = rlp_list p" using 10(4) by (auto simp: map_sum_Inr)
  have "payload (accepts t) vs p"
    by (rule payload_of_enc_list [OF v(1)]) (use vs 10(1,3) in \<open>auto simp: list_all_iff\<close>)
  then show ?case using v vs by auto
next
  case (11 t v)
  from 11(2) obtain vs where vs: "v = GTailSlice vs" "list_all (has_type t) vs" by (cases v) simp_all
  have "payload (accepts t) vs b"
    by (rule payload_of_enc_list) (use vs 11 in \<open>auto simp: list_all_iff\<close>)
  then show ?case using vs by auto
next
  case (12 n t v)
  from 12(2) obtain vs where vs: "v = GSlice vs" "length vs = n" "list_all (has_type t) vs" by (cases v) simp_all
  then obtain p where v: "enc_list vs = Inr p" "b = rlp_list p" using 12(4) by (auto simp: map_sum_Inr)
  have "payload (accepts t) vs p"
    by (rule payload_of_enc_list [OF v(1)]) (use vs 12(1,3) in \<open>auto simp: list_all_iff\<close>)
  then show ?case using v vs by auto
next
  case (13 fs v)
  then show ?case by (cases v) (auto simp: map_sum_Inr)
next
  case (14 v)
  then show ?case by (simp add: iface_enc_def)
next
  case (16 opt t fs gvs)
  then obtain z v gvs' where g: "gvs = (z, v) # gvs'" by (auto split: list.splits)
  consider (zero) "opt" "list_all fst gvs" | (field) "\<not> (opt \<and> list_all fst gvs)" by blast
  then show ?case
  proof cases
    case zero
    have "gvs = zeroFields ((opt, t) # fs)" using 16(3) zero zero_unique(2) by blast
    moreover have "p = []" using zero 16(5) g by (simp add: structFields_Cons)
    ultimately show ?thesis using zero by simp
  next
    case field
    have "list_all fst (zeroFields fs)" for fs by (induction fs) (auto simp: zeroFields_def)
    then have "\<not> (opt \<and> gvs = zeroFields ((opt, t) # fs))" using field by metis
    then have t: "z = isZero t v" "has_type t v" "has_fields fs gvs'"
      using 16(3) g by auto
    have "structFields gvs (firstOptionalField ((opt, t) # fs)) = (z, v) # structFields gvs' (firstOptionalField fs)"
      using field g structFields_optional [of fs gvs'] t(3) 16(4) by (auto simp: structFields_Cons)
    then have "enc_list (v # map snd (structFields gvs' (firstOptionalField fs))) = Inr p"
      using 16(5) by (simp only: list.map snd_conv)
    then obtain b q where e: "enc v = Inr b" "enc_list (map snd (structFields gvs' (firstOptionalField fs))) = Inr q" "p = b @ q"
      unfolding enc_list_Cons by blast
    have "wf_typ t" "wf_fields fs" using 16(4) by simp_all
    then have "accepts t v b" "accepts_fields fs gvs' q"
      using 16(1) [OF g refl t(2) _ e(1)] 16(2) [OF g refl t(3) _ e(2)] by blast+
    then show ?thesis unfolding g accepts_fields.simps t(1) e(3) by blast
  qed
qed (auto simp: structFields_Nil split: gval.split_asm option.split_asm if_split_asm)

subsection \<open>\<open>DecodeBytes\<close>\<close>

lemma DecodeBytes_accepts:
  assumes "wf_typ t" and "\<not> is_tail t" and "length b < 2 ^ 63"
  shows "DecodeBytes t b \<noteq> None \<and> (DecodeBytes t b = Some (Inr v) \<longleftrightarrow> accepts t v b)"
proof -
  let ?s = "Reset b (of_nat (length b))" and ?n = "Suc (length b)"
  have e: "exact_decoder (decode ?n t) (accepts t) ?n"
    using decode_exact assms(1,2) by (blast intro: field_decoder_plain)
  then have d: "value_decoder (decode ?n t) (accepts t) ?n" by (simp add: exact_decoder_def)
  have s: "live ?s" "kind ?s = None" "rd ?s = b" "stack ?s = []"
    using assms(3) by (simp_all add: live_def Reset_def)
  have "decode ?n t ?s \<noteq> None" using value_decoder.total [OF d s(1,2)] s(3) by simp
  moreover have "accepts t v b" if "decode ?n t ?s = Some (Inr v, s')" "rd s' = []" for s'
    using exact_decoder.sound [OF e s(1,2) that(1)] that(2) s(3) by auto
  moreover have "DecodeBytes t b = Some (Inr v)" if "accepts t v b"
    using value_decoder.complete [OF d that s(1,2), of "[]"] s(3,4)
    by (auto simp: DecodeBytes_def fits_def adv_def)
  ultimately show ?thesis
    by (auto simp: DecodeBytes_def split: option.splits prod.splits sum.splits if_splits)
qed

subsection \<open>Properties\<close>

text \<open>C4: \<open>DecodeBytes\<close> inverts \<open>EncodeToBytes\<close>: a value of a type whose encoding fits a
  slice is encoded to its RLP encoding and decoded back to itself, at every Go type with a
  decoder, including pointers with the \<open>nil\<close> tag, tail fields and optional fields.\<close>

theorem DecodeBytes_EncodeToBytes:
  assumes "wf_typ t" and "\<not> is_tail t" and "has_type t v" and "enc v = Inr b" and "length b < 2 ^ 63"
  shows "EncodeToBytes v = Inr b \<and> DecodeBytes t b = Some (Inr v)"
  using DecodeBytes_accepts [OF assms(1,2,5)] enc_accepts(1) [OF assms(3,1,4)] EncodeToBytes_enc [of v] assms(4,5)
  by simp

theorem DecodeBytes_EncodeToBytes_witness:
  "EncodeToBytes (GStruct [(False, GUint 7), (True, GBytes [])] 1) = Inr [0xC1, 7] \<and>
   DecodeBytes (TStruct [(False, TUint 64), (True, TBytes)]) [0xC1, 7]
     = Some (Inr (GStruct [(False, GUint 7), (True, GBytes [])] 1))"
  by (rule DecodeBytes_EncodeToBytes)
    (simp_all add: zeroFields_def structFields_Cons structFields_Nil BE_small rlp_str_def rlp_list_def rlp_head_def)

text \<open>C5: malleability. For a type without optional fields, \<open>DecodeBytes\<close> accepts only what
  \<open>EncodeToBytes\<close> writes: a successful decoding determines its input.\<close>

theorem DecodeBytes_canonical:
  assumes "wf_typ t" and "\<not> is_tail t" and "no_optional t" and "length b < 2 ^ 63"
    and "DecodeBytes t b = Some (Inr v)"
  shows "EncodeToBytes v = Inr b"
  using DecodeBytes_accepts [OF assms(1,2,4), of v] accepts_enc(1) [of t v b] assms(3-5) EncodeToBytes_enc [of v]
  by simp

theorem DecodeBytes_canonical_witness:
  "EncodeToBytes (GSlice [GUint 1, GUint 2]) = Inr [0xC2, 1, 2]"
proof (rule DecodeBytes_canonical [of "TSlice (TUint 8)"])
  have "accepts (TSlice (TUint 8)) (GSlice [GUint 1, GUint 2]) [0xC2, 1, 2]"
    by (rule enc_accepts(1)) (simp_all add: BE_small rlp_str_def rlp_list_def rlp_head_def)
  then show "DecodeBytes (TSlice (TUint 8)) [0xC2, 1, 2] = Some (Inr (GSlice [GUint 1, GUint 2]))"
    using DecodeBytes_accepts [of "TSlice (TUint 8)" "[0xC2, 1, 2]" "GSlice [GUint 1, GUint 2]"]
    by (simp del: accepts.simps)
qed simp_all

text \<open>C6: \<open>DecodeBytes\<close> always returns, with a value or an error: the bound on the element
  loops and on the nesting of interfaces, the length of the input, is never reached.\<close>

theorem DecodeBytes_total:
  assumes "wf_typ t" and "\<not> is_tail t" and "length b < 2 ^ 63"
  shows "\<exists>r. DecodeBytes t b = Some r"
  using DecodeBytes_accepts [OF assms, of undefined] by blast

theorem DecodeBytes_total_witness:
  "\<exists>r. DecodeBytes TInterface [0xC1, 0xC1, 0x80] = Some r"
  by (rule DecodeBytes_total) simp_all



end
