(* ===== verification/Params.thy ===== *)
theory Params
  imports Prelude
begin

text \<open>
  The chain configuration (\<open>params/config.go\<close>): which fork is active at which block, the
  check that the forks are scheduled in order, and the check that a new configuration does
  not change the past of a chain that has already been imported.

  A \<open>*big.Int\<close> is an \<open>int option\<close>, \<open>None\<close> being the nil pointer.
\<close>

record CongressConfig =
  Period :: u64
  Epoch :: u64
  EnableDevVerification :: bool
  FeeReceiver :: "address option"

record ChainConfig =
  ChainID :: "int option"
  HomesteadBlock :: "int option"
  DAOForkBlock :: "int option"
  DAOForkSupport :: bool
  EIP150Block :: "int option"
  EIP150Hash :: hash
  EIP155Block :: "int option"
  EIP158Block :: "int option"
  ByzantiumBlock :: "int option"
  ConstantinopleBlock :: "int option"
  PetersburgBlock :: "int option"
  IstanbulBlock :: "int option"
  MuirGlacierBlock :: "int option"
  BerlinBlock :: "int option"
  LondonBlock :: "int option"
  ArrowGlacierBlock :: "int option"
  TerminalTotalDifficulty :: "int option"
  RedCoastBlock :: "int option"
  SophonBlock :: "int option"
  RewardPoolBlock :: "int option"
  Congress :: "CongressConfig option"

definition isForked :: "int option \<Rightarrow> int option \<Rightarrow> bool" where
  "isForked s head = (case (s, head) of (Some b, Some h) \<Rightarrow> b \<le> h | _ \<Rightarrow> False)"

definition configNumEqual :: "int option \<Rightarrow> int option \<Rightarrow> bool" where
  "configNumEqual x y =
    (if x = None then y = None else if y = None then x = None else the x = the y)"

definition isForkIncompatible :: "int option \<Rightarrow> int option \<Rightarrow> int option \<Rightarrow> bool" where
  "isForkIncompatible s1 s2 head \<longleftrightarrow>
    (isForked s1 head \<or> isForked s2 head) \<and> \<not> configNumEqual s1 s2"

definition IsHomestead :: "ChainConfig \<Rightarrow> int option \<Rightarrow> bool" where
  "IsHomestead c num = isForked (HomesteadBlock c) num"

definition IsDAOFork :: "ChainConfig \<Rightarrow> int option \<Rightarrow> bool" where
  "IsDAOFork c num = isForked (DAOForkBlock c) num"

definition IsEIP150 :: "ChainConfig \<Rightarrow> int option \<Rightarrow> bool" where
  "IsEIP150 c num = isForked (EIP150Block c) num"

definition IsEIP155 :: "ChainConfig \<Rightarrow> int option \<Rightarrow> bool" where
  "IsEIP155 c num = isForked (EIP155Block c) num"

definition IsEIP158 :: "ChainConfig \<Rightarrow> int option \<Rightarrow> bool" where
  "IsEIP158 c num = isForked (EIP158Block c) num"

definition IsByzantium :: "ChainConfig \<Rightarrow> int option \<Rightarrow> bool" where
  "IsByzantium c num = isForked (ByzantiumBlock c) num"

definition IsConstantinople :: "ChainConfig \<Rightarrow> int option \<Rightarrow> bool" where
  "IsConstantinople c num = isForked (ConstantinopleBlock c) num"

definition IsMuirGlacier :: "ChainConfig \<Rightarrow> int option \<Rightarrow> bool" where
  "IsMuirGlacier c num = isForked (MuirGlacierBlock c) num"

definition IsPetersburg :: "ChainConfig \<Rightarrow> int option \<Rightarrow> bool" where
  "IsPetersburg c num \<longleftrightarrow>
    isForked (PetersburgBlock c) num \<or>
    PetersburgBlock c = None \<and> isForked (ConstantinopleBlock c) num"

definition IsIstanbul :: "ChainConfig \<Rightarrow> int option \<Rightarrow> bool" where
  "IsIstanbul c num = isForked (IstanbulBlock c) num"

definition IsBerlin :: "ChainConfig \<Rightarrow> int option \<Rightarrow> bool" where
  "IsBerlin c num = isForked (BerlinBlock c) num"

definition IsLondon :: "ChainConfig \<Rightarrow> int option \<Rightarrow> bool" where
  "IsLondon c num = isForked (LondonBlock c) num"

definition IsArrowGlacier :: "ChainConfig \<Rightarrow> int option \<Rightarrow> bool" where
  "IsArrowGlacier c num = isForked (ArrowGlacierBlock c) num"

definition IsTerminalPoWBlock :: "ChainConfig \<Rightarrow> int \<Rightarrow> int \<Rightarrow> bool" where
  "IsTerminalPoWBlock c parentTotalDiff totalDiff =
    (case TerminalTotalDifficulty c of
       None \<Rightarrow> False
     | Some t \<Rightarrow> parentTotalDiff < t \<and> totalDiff \<ge> t)"

definition IsRedCoast :: "ChainConfig \<Rightarrow> int option \<Rightarrow> bool" where
  "IsRedCoast c num = isForked (RedCoastBlock c) num"

definition IsSophon :: "ChainConfig \<Rightarrow> int option \<Rightarrow> bool" where
  "IsSophon c num = isForked (SophonBlock c) num"

definition IsRewardPool :: "ChainConfig \<Rightarrow> int option \<Rightarrow> bool" where
  "IsRewardPool c num = isForked (RewardPoolBlock c) num"

record Rules =
  R_ChainID :: int
  R_IsHomestead :: bool
  R_IsEIP150 :: bool
  R_IsEIP155 :: bool
  R_IsEIP158 :: bool
  R_IsByzantium :: bool
  R_IsConstantinople :: bool
  R_IsPetersburg :: bool
  R_IsIstanbul :: bool
  R_IsBerlin :: bool
  R_IsLondon :: bool

definition config_Rules :: "ChainConfig \<Rightarrow> int option \<Rightarrow> Rules" where
  "config_Rules c num = \<lparr>
     R_ChainID = (case ChainID c of None \<Rightarrow> 0 | Some i \<Rightarrow> i),
     R_IsHomestead = IsHomestead c num,
     R_IsEIP150 = IsEIP150 c num,
     R_IsEIP155 = IsEIP155 c num,
     R_IsEIP158 = IsEIP158 c num,
     R_IsByzantium = IsByzantium c num,
     R_IsConstantinople = IsConstantinople c num,
     R_IsPetersburg = IsPetersburg c num,
     R_IsIstanbul = IsIstanbul c num,
     R_IsBerlin = IsBerlin c num,
     R_IsLondon = IsLondon c num\<rparr>"

subsection \<open>Compatibility of two configurations\<close>

record ConfigCompatError =
  What :: string
  StoredConfig :: "int option"
  NewConfig :: "int option"
  RewindTo :: u64

text \<open>\<open>big.Int.Uint64\<close> of a positive number: its low 64 bits.\<close>

definition newCompatError :: "string \<Rightarrow> int option \<Rightarrow> int option \<Rightarrow> ConfigCompatError" where
  "newCompatError what storedblock newblock =
    (let rew = (case storedblock of
                  None \<Rightarrow> newblock
                | Some s \<Rightarrow> (case newblock of
                               None \<Rightarrow> storedblock
                             | Some n \<Rightarrow> if s < n then storedblock else newblock))
     in \<lparr>What = what, StoredConfig = storedblock, NewConfig = newblock,
         RewindTo = (case rew of
                       None \<Rightarrow> 0
                     | Some r \<Rightarrow> if r > 0 then word_of_int r - 1 else 0)\<rparr>)"

definition checkCompatible ::
  "ChainConfig \<Rightarrow> ChainConfig \<Rightarrow> int option \<Rightarrow> ConfigCompatError option" where
  "checkCompatible c newcfg head =
    (if isForkIncompatible (HomesteadBlock c) (HomesteadBlock newcfg) head
     then Some (newCompatError ''Homestead fork block'' (HomesteadBlock c) (HomesteadBlock newcfg))
     else if isForkIncompatible (DAOForkBlock c) (DAOForkBlock newcfg) head
     then Some (newCompatError ''DAO fork block'' (DAOForkBlock c) (DAOForkBlock newcfg))
     else if IsDAOFork c head \<and> DAOForkSupport c \<noteq> DAOForkSupport newcfg
     then Some (newCompatError ''DAO fork support flag'' (DAOForkBlock c) (DAOForkBlock newcfg))
     else if isForkIncompatible (EIP150Block c) (EIP150Block newcfg) head
     then Some (newCompatError ''EIP150 fork block'' (EIP150Block c) (EIP150Block newcfg))
     else if isForkIncompatible (EIP155Block c) (EIP155Block newcfg) head
     then Some (newCompatError ''EIP155 fork block'' (EIP155Block c) (EIP155Block newcfg))
     else if isForkIncompatible (EIP158Block c) (EIP158Block newcfg) head
     then Some (newCompatError ''EIP158 fork block'' (EIP158Block c) (EIP158Block newcfg))
     else if IsEIP158 c head \<and> \<not> configNumEqual (ChainID c) (ChainID newcfg)
     then Some (newCompatError ''EIP158 chain ID'' (EIP158Block c) (EIP158Block newcfg))
     else if isForkIncompatible (ByzantiumBlock c) (ByzantiumBlock newcfg) head
     then Some (newCompatError ''Byzantium fork block'' (ByzantiumBlock c) (ByzantiumBlock newcfg))
     else if isForkIncompatible (ConstantinopleBlock c) (ConstantinopleBlock newcfg) head
     then Some (newCompatError ''Constantinople fork block''
                  (ConstantinopleBlock c) (ConstantinopleBlock newcfg))
     else if isForkIncompatible (PetersburgBlock c) (PetersburgBlock newcfg) head \<and>
             isForkIncompatible (ConstantinopleBlock c) (PetersburgBlock newcfg) head
     then Some (newCompatError ''Petersburg fork block'' (PetersburgBlock c) (PetersburgBlock newcfg))
     else if isForkIncompatible (IstanbulBlock c) (IstanbulBlock newcfg) head
     then Some (newCompatError ''Istanbul fork block'' (IstanbulBlock c) (IstanbulBlock newcfg))
     else if isForkIncompatible (MuirGlacierBlock c) (MuirGlacierBlock newcfg) head
     then Some (newCompatError ''Muir Glacier fork block''
                  (MuirGlacierBlock c) (MuirGlacierBlock newcfg))
     else if isForkIncompatible (BerlinBlock c) (BerlinBlock newcfg) head
     then Some (newCompatError ''Berlin fork block'' (BerlinBlock c) (BerlinBlock newcfg))
     else if isForkIncompatible (LondonBlock c) (LondonBlock newcfg) head
     then Some (newCompatError ''London fork block'' (LondonBlock c) (LondonBlock newcfg))
     else if isForkIncompatible (RedCoastBlock c) (RedCoastBlock newcfg) head
     then Some (newCompatError ''RedCoast fork block'' (RedCoastBlock c) (RedCoastBlock newcfg))
     else if isForkIncompatible (ArrowGlacierBlock c) (ArrowGlacierBlock newcfg) head
     then Some (newCompatError ''Arrow Glacier fork block''
                  (ArrowGlacierBlock c) (ArrowGlacierBlock newcfg))
     else if isForkIncompatible (RewardPoolBlock c) (RewardPoolBlock newcfg) head
     then Some (newCompatError ''RewardPool fork block''
                  (RewardPoolBlock c) (RewardPoolBlock newcfg))
     else None)"

lemmas fork_simps = isForked_def configNumEqual_def isForkIncompatible_def

lemma big_Uint64_pred:
  assumes "0 < r" "r \<le> uint h"
  shows "(word_of_int r :: u64) - 1 < h"
proof -
  have b: "uint h < 2 ^ 64" using unsigned_less [of h, where ?'a = int] by simp
  have "(word_of_int r :: u64) - 1 = word_of_int (r - 1)" by (metis wi_hom_sub word_1_wi)
  moreover have "uint (word_of_int (r - 1) :: u64) = r - 1"
    unfolding uint_word_of_int using assms b by simp
  ultimately show ?thesis using assms by (simp add: word_less_def)
qed

lemma newCompatError_rewind:
  assumes "isForked s (Some (uint h)) \<or> isForked n (Some (uint h))"
  shows "RewindTo (newCompatError w s n) < h \<or> RewindTo (newCompatError w s n) = 0"
  using assms
  by (auto simp: isForked_def newCompatError_def Let_def intro!: big_Uint64_pred
      split: option.splits if_splits)

lemma if_SomeE:
  assumes "(if b then Some x else y) = Some e"
  obtains "b" "e = x" | "y = Some e"
proof (cases b)
  case True
  with assms show ?thesis by (intro that(1)) simp_all
next
  case False
  with assms show ?thesis by (intro that(2)) simp
qed

text \<open>A conflict at height \<open>h\<close> is repaired by rewinding strictly below \<open>h\<close>, or to
  the genesis block.\<close>

lemma checkCompatible_rewind:
  assumes "checkCompatible c newcfg (Some (uint h)) = Some e"
  shows "RewindTo e < h \<or> RewindTo e = 0"
  using assms unfolding checkCompatible_def
  by - (elim if_SomeE; (hypsubst, rule newCompatError_rewind)?;
      simp add: isForkIncompatible_def IsDAOFork_def IsEIP158_def)

text \<open>The loop of \<open>CheckCompatible\<close> looks for the lowest conflict. It ends because the
  head moves strictly down until it is the genesis block.\<close>

function CheckCompatible_loop ::
  "ChainConfig \<Rightarrow> ChainConfig \<Rightarrow> ConfigCompatError option \<Rightarrow> u64 \<Rightarrow> ConfigCompatError option"
where
  "CheckCompatible_loop c newcfg lasterr bhead =
    (case checkCompatible c newcfg (Some (uint bhead)) of
       None \<Rightarrow> lasterr
     | Some err \<Rightarrow>
         (if (case lasterr of None \<Rightarrow> False | Some l \<Rightarrow> RewindTo err = RewindTo l)
          then lasterr
          else CheckCompatible_loop c newcfg (Some err) (RewindTo err)))"
  by pat_completeness auto

termination
proof (relation "measures [\<lambda>(c, newcfg, lasterr, bhead). unat bhead,
    \<lambda>(c, newcfg, lasterr, bhead). case lasterr of Some l \<Rightarrow> (if RewindTo l = 0 then 0 else 1) | None \<Rightarrow> 1]",
    goal_cases)
  case 1
  show ?case by simp
next
  case (2 c newcfg lasterr bhead err)
  from checkCompatible_rewind [OF 2(1)] 2(2) show ?case
    by (cases "unat bhead") (auto simp: word_less_nat_alt unat_eq_0 split: option.splits if_splits)
qed

declare CheckCompatible_loop.simps [simp del]

definition CheckCompatible ::
  "ChainConfig \<Rightarrow> ChainConfig \<Rightarrow> u64 \<Rightarrow> ConfigCompatError option" where
  "CheckCompatible c newcfg height = CheckCompatible_loop c newcfg None height"

subsection \<open>The order of the forks\<close>

record fork =
  fork_name :: string
  fork_block :: "int option"
  fork_optional :: bool
  fork_minValue :: "int option"

datatype fork_error =
    ForkNotEnabled string string "int option"
  | ForkBefore string "int option" string "int option"
  | ForkBelowMin string "int option" "int option"

definition plain_fork :: "string \<Rightarrow> int option \<Rightarrow> fork" where
  "plain_fork n b = \<lparr>fork_name = n, fork_block = b, fork_optional = False, fork_minValue = None\<rparr>"

definition optional_fork :: "string \<Rightarrow> int option \<Rightarrow> fork" where
  "optional_fork n b = plain_fork n b \<lparr>fork_optional := True\<rparr>"

definition zero_fork :: fork where
  "zero_fork = plain_fork [] None"

text \<open>The two loops of \<open>CheckConfigForkOrder\<close> differ in the comparison (the forks of
  congress must be at strictly increasing blocks) and in the minimal block of the first.\<close>

fun forkOrder_loop :: "fork \<Rightarrow> fork list \<Rightarrow> fork_error option" where
  "forkOrder_loop lastFork [] = None"
| "forkOrder_loop lastFork (cur # rest) =
    (if fork_name lastFork \<noteq> [] \<and> fork_block lastFork = None \<and> fork_block cur \<noteq> None
     then Some (ForkNotEnabled (fork_name lastFork) (fork_name cur) (fork_block cur))
     else if fork_name lastFork \<noteq> [] \<and> fork_block lastFork \<noteq> None \<and> fork_block cur \<noteq> None \<and>
             the (fork_block lastFork) > the (fork_block cur)
     then Some (ForkBefore (fork_name lastFork) (fork_block lastFork)
                  (fork_name cur) (fork_block cur))
     else forkOrder_loop
            (if \<not> fork_optional cur \<or> fork_block cur \<noteq> None then cur else lastFork) rest)"

fun congressOrder_loop :: "fork \<Rightarrow> fork list \<Rightarrow> fork_error option" where
  "congressOrder_loop lastFork [] = None"
| "congressOrder_loop lastFork (cur # rest) =
    (if fork_block cur \<noteq> None \<and> fork_minValue cur \<noteq> None \<and>
        the (fork_block cur) < the (fork_minValue cur)
     then Some (ForkBelowMin (fork_name cur) (fork_block cur) (fork_minValue cur))
     else if fork_name lastFork \<noteq> [] \<and> fork_block lastFork = None \<and> fork_block cur \<noteq> None
     then Some (ForkNotEnabled (fork_name lastFork) (fork_name cur) (fork_block cur))
     else if fork_name lastFork \<noteq> [] \<and> fork_block lastFork \<noteq> None \<and> fork_block cur \<noteq> None \<and>
             the (fork_block lastFork) \<ge> the (fork_block cur)
     then Some (ForkBefore (fork_name lastFork) (fork_block lastFork)
                  (fork_name cur) (fork_block cur))
     else congressOrder_loop
            (if \<not> fork_optional cur \<or> fork_block cur \<noteq> None then cur else lastFork) rest)"

definition CheckConfigForkOrder :: "ChainConfig \<Rightarrow> fork_error option" where
  "CheckConfigForkOrder c =
    (case forkOrder_loop zero_fork
       [plain_fork ''homesteadBlock'' (HomesteadBlock c),
        optional_fork ''daoForkBlock'' (DAOForkBlock c),
        plain_fork ''eip150Block'' (EIP150Block c),
        plain_fork ''eip155Block'' (EIP155Block c),
        plain_fork ''eip158Block'' (EIP158Block c),
        plain_fork ''byzantiumBlock'' (ByzantiumBlock c),
        plain_fork ''constantinopleBlock'' (ConstantinopleBlock c),
        plain_fork ''petersburgBlock'' (PetersburgBlock c),
        plain_fork ''istanbulBlock'' (IstanbulBlock c),
        optional_fork ''muirGlacierBlock'' (MuirGlacierBlock c),
        plain_fork ''berlinBlock'' (BerlinBlock c),
        plain_fork ''londonBlock'' (LondonBlock c)] of
       Some e \<Rightarrow> Some e
     | None \<Rightarrow> congressOrder_loop zero_fork
       [plain_fork ''redCoastBlock'' (RedCoastBlock c) \<lparr>fork_minValue := Some 2\<rparr>,
        plain_fork ''sophonBlock'' (SophonBlock c),
        optional_fork ''rewardPoolBlock'' (RewardPoolBlock c)])"

text \<open>An ordered list of forks: each enabled fork has all non-optional earlier ones enabled,
  at a block not above its own.\<close>

definition fork_le :: "fork \<Rightarrow> fork \<Rightarrow> bool" where
  "fork_le f g \<longleftrightarrow> (\<forall>n. isForked (fork_block g) n \<longrightarrow> isForked (fork_block f) n)"

definition required :: "fork \<Rightarrow> bool" where
  "required f \<longleftrightarrow> \<not> fork_optional f \<and> fork_name f \<noteq> []"

lemma fork_le_trans: "fork_le f g \<Longrightarrow> fork_le g h \<Longrightarrow> fork_le f h"
  by (simp add: fork_le_def)

lemma fork_leI:
  "\<lbrakk>\<not> (fork_block f = None \<and> fork_block g \<noteq> None);
    \<not> (fork_block f \<noteq> None \<and> fork_block g \<noteq> None \<and> the (fork_block f) > the (fork_block g))\<rbrakk>
   \<Longrightarrow> fork_le f g"
  by (auto simp: fork_le_def isForked_def split: option.splits)

lemma fork_le_disabled: "fork_block g = None \<Longrightarrow> fork_le f g"
  by (simp add: fork_le_def isForked_def)

text \<open>When the loop accepts a list, the fork before it and every non-optional fork of it is
  active whenever a later fork of the list is.\<close>

lemma forkOrder_loop_le:
  assumes "forkOrder_loop f fs = None" "fork_name f \<noteq> []" "\<forall>g \<in> set fs. fork_name g \<noteq> []"
  shows "(\<forall>g \<in> set fs. fork_le f g) \<and> sorted_wrt (\<lambda>g h. required g \<longrightarrow> fork_le g h) fs"
  using assms
proof (induction fs arbitrary: f)
  case Nil
  then show ?case by simp
next
  case (Cons g fs)
  let ?l = "if \<not> fork_optional g \<or> fork_block g \<noteq> None then g else f"
  from Cons.prems(1,2) have fg: "fork_le f g" and rest: "forkOrder_loop ?l fs = None"
    by (auto intro!: fork_leI split: if_splits)
  have "fork_name ?l \<noteq> []" using Cons.prems by auto
  from Cons.IH [OF rest this] Cons.prems
  have IH: "\<forall>h \<in> set fs. fork_le ?l h" "sorted_wrt (\<lambda>g h. required g \<longrightarrow> fork_le g h) fs" by auto
  have "\<forall>h \<in> set fs. fork_le f h" using IH(1) fg by (auto intro: fork_le_trans split: if_splits)
  moreover have "\<forall>h \<in> set fs. required g \<longrightarrow> fork_le g h" using IH(1) by (auto simp: required_def)
  ultimately show ?case using fg IH(2) by auto
qed

lemma forkOrder_loop_sorted:
  assumes "forkOrder_loop zero_fork fs = None" "\<forall>g \<in> set fs. fork_name g \<noteq> []"
    "fs \<noteq> []" "required (hd fs)"
  shows "sorted_wrt (\<lambda>g h. required g \<longrightarrow> fork_le g h) fs"
proof -
  obtain g gs where fs: "fs = g # gs" using assms(3) by (cases fs) auto
  from assms have "forkOrder_loop g gs = None" unfolding fs by (simp add: zero_fork_def plain_fork_def required_def)
  from forkOrder_loop_le [OF this] assms(2) show ?thesis by (auto simp: fs)
qed

lemma plain_fork_simps [simp]:
  "fork_name (plain_fork n b) = n" "fork_block (plain_fork n b) = b"
  "fork_optional (plain_fork n b) = False" "fork_minValue (plain_fork n b) = None"
  "fork_name (optional_fork n b) = n" "fork_block (optional_fork n b) = b"
  "fork_optional (optional_fork n b) = True" "fork_minValue (optional_fork n b) = None"
  by (simp_all add: plain_fork_def optional_fork_def)

text \<open>C9: When \<open>CheckConfigForkOrder\<close> accepts a configuration, the rules are
  cumulative: at every block where a fork is active, the mandatory forks before it are active
  too; and of the forks of congress, RedCoast starts at block 2 or later and Sophon and
  RewardPool start at strictly later blocks than the fork they build on.\<close>

theorem CheckConfigForkOrder_cumulative:
  assumes "CheckConfigForkOrder c = None"
  shows "(IsLondon c n \<longrightarrow> IsBerlin c n) \<and> (IsBerlin c n \<longrightarrow> IsIstanbul c n) \<and>
    (IsMuirGlacier c n \<longrightarrow> IsIstanbul c n) \<and>
    (IsIstanbul c n \<longrightarrow> IsPetersburg c n) \<and> (IsPetersburg c n \<longrightarrow> IsConstantinople c n) \<and>
    (IsConstantinople c n \<longrightarrow> IsByzantium c n) \<and> (IsByzantium c n \<longrightarrow> IsEIP158 c n) \<and>
    (IsEIP158 c n \<longrightarrow> IsEIP155 c n) \<and> (IsEIP155 c n \<longrightarrow> IsEIP150 c n) \<and>
    (IsEIP150 c n \<longrightarrow> IsHomestead c n) \<and> (IsDAOFork c n \<longrightarrow> IsHomestead c n) \<and>
    (IsRedCoast c (Some b) \<longrightarrow> 2 \<le> b) \<and>
    (IsSophon c (Some b) \<longrightarrow> IsRedCoast c (Some (b - 1))) \<and>
    (IsRewardPool c (Some b) \<longrightarrow> IsSophon c (Some (b - 1)))"
proof -
  let ?fs = "[plain_fork ''homesteadBlock'' (HomesteadBlock c),
        optional_fork ''daoForkBlock'' (DAOForkBlock c),
        plain_fork ''eip150Block'' (EIP150Block c),
        plain_fork ''eip155Block'' (EIP155Block c),
        plain_fork ''eip158Block'' (EIP158Block c),
        plain_fork ''byzantiumBlock'' (ByzantiumBlock c),
        plain_fork ''constantinopleBlock'' (ConstantinopleBlock c),
        plain_fork ''petersburgBlock'' (PetersburgBlock c),
        plain_fork ''istanbulBlock'' (IstanbulBlock c),
        optional_fork ''muirGlacierBlock'' (MuirGlacierBlock c),
        plain_fork ''berlinBlock'' (BerlinBlock c),
        plain_fork ''londonBlock'' (LondonBlock c)]"
  have fs: "forkOrder_loop zero_fork ?fs = None"
    using assms by (simp add: CheckConfigForkOrder_def del: forkOrder_loop.simps split: option.splits)
  have srt: "sorted_wrt (\<lambda>g h. required g \<longrightarrow> fork_le g h) ?fs"
    by (rule forkOrder_loop_sorted [OF fs]) (simp_all add: required_def)
  have cong: "congressOrder_loop zero_fork
       [plain_fork ''redCoastBlock'' (RedCoastBlock c) \<lparr>fork_minValue := Some 2\<rparr>,
        plain_fork ''sophonBlock'' (SophonBlock c),
        optional_fork ''rewardPoolBlock'' (RewardPoolBlock c)] = None"
    using assms fs by (simp add: CheckConfigForkOrder_def del: forkOrder_loop.simps congressOrder_loop.simps)
  have congress: "(IsRedCoast c (Some b) \<longrightarrow> 2 \<le> b) \<and>
    (IsSophon c (Some b) \<longrightarrow> IsRedCoast c (Some (b - 1))) \<and>
    (IsRewardPool c (Some b) \<longrightarrow> IsSophon c (Some (b - 1)))"
    using cong
    by (cases "RedCoastBlock c"; cases "SophonBlock c"; cases "RewardPoolBlock c")
      (auto simp: IsRedCoast_def IsSophon_def IsRewardPool_def isForked_def zero_fork_def
        split: if_splits)
  have petersburg: "IsIstanbul c n \<longrightarrow> IsPetersburg c n" "IsPetersburg c n \<longrightarrow> IsConstantinople c n"
    using srt unfolding IsIstanbul_def IsPetersburg_def IsConstantinople_def
    by (simp_all add: required_def fork_le_def)
  show ?thesis using srt congress petersburg
    by (simp add: required_def fork_le_def IsLondon_def IsBerlin_def IsIstanbul_def IsByzantium_def
        IsConstantinople_def IsMuirGlacier_def IsEIP158_def IsEIP155_def IsEIP150_def
        IsHomestead_def IsDAOFork_def)
qed

text \<open>A configuration with the Ethereum forks in order and two forks of congress.\<close>

definition sample_config :: ChainConfig where
  "sample_config = \<lparr>ChainID = Some 170, HomesteadBlock = Some 0, DAOForkBlock = None,
     DAOForkSupport = True, EIP150Block = Some 0, EIP150Hash = [], EIP155Block = Some 0,
     EIP158Block = Some 0, ByzantiumBlock = Some 0, ConstantinopleBlock = Some 0,
     PetersburgBlock = Some 0, IstanbulBlock = Some 0, MuirGlacierBlock = Some 0,
     BerlinBlock = Some 337, LondonBlock = Some 337, ArrowGlacierBlock = None,
     TerminalTotalDifficulty = None, RedCoastBlock = Some 2, SophonBlock = Some 100,
     RewardPoolBlock = None,
     Congress = Some \<lparr>Period = 3, Epoch = 200, EnableDevVerification = True, FeeReceiver = None\<rparr>\<rparr>"

theorem CheckConfigForkOrder_cumulative_witness:
  "CheckConfigForkOrder sample_config = None \<and> IsLondon sample_config (Some 400) \<and>
   IsBerlin sample_config (Some 400)"
proof -
  have ok: "CheckConfigForkOrder sample_config = None"
    by (simp add: CheckConfigForkOrder_def sample_config_def zero_fork_def)
  have "IsLondon sample_config (Some 400)" by (simp add: IsLondon_def sample_config_def isForked_def)
  with CheckConfigForkOrder_cumulative [OF ok, of "Some 400" 0] ok show ?thesis by blast
qed

subsection \<open>What a compatible configuration promises\<close>

lemma configNumEqual_refl [simp]: "configNumEqual s s"
  by (simp add: configNumEqual_def)

lemma isForkIncompatible_refl [simp]: "\<not> isForkIncompatible s s h"
  by (simp add: isForkIncompatible_def)

lemma not_incompatible:
  assumes "\<not> isForkIncompatible s1 s2 (Some h)" "n \<le> h"
  shows "isForked s1 (Some n) = isForked s2 (Some n)"
  using assms by (auto simp: fork_simps split: option.splits if_splits)

lemma if_NoneE:
  assumes "(if b then Some x else y) = None"
  obtains "\<not> b" "y = None"
proof (cases b)
  case True
  with assms show ?thesis by simp
next
  case False
  with assms show ?thesis by (intro that) simp_all
qed

lemma CheckCompatible_loop_None:
  "CheckCompatible_loop c newcfg lasterr h = None \<longleftrightarrow>
   lasterr = None \<and> checkCompatible c newcfg (Some (uint h)) = None"
proof (induction c newcfg lasterr h rule: CheckCompatible_loop.induct)
  case (1 c newcfg lasterr h)
  show ?case
  proof (cases "checkCompatible c newcfg (Some (uint h))")
    case None
    then show ?thesis by (simp add: CheckCompatible_loop.simps)
  next
    case (Some err)
    show ?thesis
    proof (cases "case lasterr of None \<Rightarrow> False | Some l \<Rightarrow> RewindTo err = RewindTo l")
      case True
      then have "CheckCompatible_loop c newcfg lasterr h = lasterr"
        using Some by (subst CheckCompatible_loop.simps) simp
      with True Some show ?thesis by (auto split: option.splits)
    next
      case False
      then have "CheckCompatible_loop c newcfg lasterr h =
          CheckCompatible_loop c newcfg (Some err) (RewindTo err)"
        using Some by (subst CheckCompatible_loop.simps) simp
      with 1 [OF Some False] Some show ?thesis by simp
    qed
  qed
qed

lemma CheckCompatible_loop_lowest:
  assumes "CheckCompatible_loop c newcfg lasterr h = Some e"
    "\<And>l. lasterr = Some l \<Longrightarrow> RewindTo l = h"
  shows "(checkCompatible c newcfg (Some (uint (RewindTo e))) = None \<or> RewindTo e = 0) \<and>
    RewindTo e \<le> h"
  using assms
proof (induction c newcfg lasterr h rule: CheckCompatible_loop.induct)
  case (1 c newcfg lasterr h)
  show ?case
  proof (cases "checkCompatible c newcfg (Some (uint h))")
    case None
    with 1(2) have "lasterr = Some e" by (simp add: CheckCompatible_loop.simps)
    with 1(3) None show ?thesis by auto
  next
    case (Some err)
    note rew = checkCompatible_rewind [OF Some]
    show ?thesis
    proof (cases "\<exists>l. lasterr = Some l \<and> RewindTo err = RewindTo l")
      case True
      then obtain l where l: "lasterr = Some l" "RewindTo err = RewindTo l" by auto
      then have "CheckCompatible_loop c newcfg lasterr h = Some l"
        using Some by (subst CheckCompatible_loop.simps) simp
      with 1(2,3) l rew show ?thesis by auto
    next
      case False
      then have c: "\<not> (case lasterr of None \<Rightarrow> False | Some l \<Rightarrow> RewindTo err = RewindTo l)"
        by (auto split: option.splits)
      have "CheckCompatible_loop c newcfg lasterr h =
          CheckCompatible_loop c newcfg (Some err) (RewindTo err)"
        using Some c by (subst CheckCompatible_loop.simps) simp
      with 1(2) have "CheckCompatible_loop c newcfg (Some err) (RewindTo err) = Some e" by simp
      from 1(1) [OF Some c this] rew show ?thesis by fastforce
    qed
  qed
qed




text \<open>C12: \<open>checkCompatible\<close> compares every fork of congress but Sophon: a configuration
  that moves the Sophon fork is reported as compatible at every height, also where that
  activates or removes the fork at blocks that are already imported.\<close>

theorem CheckCompatible_ignores_Sophon:
  "CheckCompatible c (c \<lparr>SophonBlock := b\<rparr>) h = None \<and>
   IsSophon (c \<lparr>SophonBlock := Some 0\<rparr>) (Some (uint h)) \<and>
   \<not> IsSophon (c \<lparr>SophonBlock := None\<rparr>) (Some (uint h))"
  by (simp add: CheckCompatible_def CheckCompatible_loop_None checkCompatible_def
      IsSophon_def isForked_def)

text \<open>Without that hypothesis the past may change unnoticed. A nil Petersburg block stands for
  the Constantinople block, but \<open>checkCompatible\<close> takes it for a fork that is not scheduled:
  setting it above the head is accepted although blocks before the head lose the fork.\<close>

lemma CheckCompatible_Petersburg_gap:
  assumes c: "c = sample_config \<lparr>PetersburgBlock := None\<rparr>"
    and n: "newcfg = c \<lparr>PetersburgBlock := Some 100\<rparr>"
  shows "CheckCompatible c newcfg 50 = None \<and> IsPetersburg c (Some 10) \<and> \<not> IsPetersburg newcfg (Some 10)"
  by (simp add: assms CheckCompatible_def CheckCompatible_loop_None checkCompatible_def
      IsPetersburg_def sample_config_def fork_simps IsDAOFork_def)

end
