(* ===== verification/Rlp_Reader.thy ===== *)
theory Rlp_Reader
  imports Rlp_Encode_Correct
begin

text \<open>
  The other two ways out of the encoding buffer (\<open>rlp/encode.go\<close>): \<open>Encode\<close>, which
  writes the encoding to an \<open>io.Writer\<close> piece by piece, and \<open>EncodeToReader\<close>, whose
  \<open>encReader\<close> hands it out in pieces of the size of the caller's buffer. Both deliver the
  bytes of \<open>EncodeToBytes\<close>.
\<close>

subsection \<open>Writing to an io.Writer\<close>

text \<open>An \<open>io.Writer\<close> with state \<open>'w\<close>: \<open>Write\<close> returns the number of bytes written
  and an error, here of an arbitrary type.\<close>

type_synonym ('w, 'e) io_Write = "bytes \<Rightarrow> 'w \<Rightarrow> (nat \<times> 'e option) \<times> 'w"

fun toWriter_loop ::
  "('w, 'e) io_Write \<Rightarrow> bytes \<Rightarrow> nat \<Rightarrow> listhead list \<Rightarrow> 'w \<Rightarrow> 'e option \<times> 'w" where
  "toWriter_loop Write s strpos [] out =
     (if strpos < length s
      then (let ((n, err), out) = Write (drop strpos s) out in (err, out))
      else (None, out))"
| "toWriter_loop Write s strpos (head # heads) out =
     (let ((n, err), out) =
        (if offset head - strpos > 0
         then Write (take (offset head - strpos) (drop strpos s)) out
         else ((0, None), out))
      in if err \<noteq> None then (err, out)
         else let ((m, err), out) = Write (listhead_encode head) out
              in if err \<noteq> None then (err, out)
                 else toWriter_loop Write s (strpos + n) heads out)"

definition toWriter :: "('w, 'e) io_Write \<Rightarrow> encbuf \<Rightarrow> 'w \<Rightarrow> 'e option \<times> 'w" where
  "toWriter Write w out = toWriter_loop Write (str w) 0 (lheads w) out"

definition rlp_Encode ::
  "('w, 'e) io_Write \<Rightarrow> gval \<Rightarrow> 'w \<Rightarrow> (rlp_error + 'e option) \<times> 'w" where
  "rlp_Encode Write v out =
     (let eb = encbuf_reset \<lparr>str = [], lheads = [], lhsize = 0\<rparr> in
      case writeVal v eb of
        Inl e \<Rightarrow> (Inl e, out)
      | Inr w \<Rightarrow> (let (err, out) = toWriter Write w out in (Inr err, out)))"

subsection \<open>Reading from an encReader\<close>

text \<open>\<open>buf\<close> is \<open>None\<close> at the end of the encoding, \<open>piece\<close> is \<open>None\<close> when no piece is
  pending.\<close>

record encReader =
  r_buf :: "encbuf option"
  r_lhpos :: nat
  r_strpos :: nat
  r_piece :: "bytes option"

definition next_piece :: "encReader \<Rightarrow> bytes option \<times> encReader" where
  "next_piece r =
     (case r_buf r of
        None \<Rightarrow> (None, r)
      | Some w \<Rightarrow>
          (if r_piece r \<noteq> None then (r_piece r, r)
           else if r_lhpos r < length (lheads w) then
             (let head = lheads w ! r_lhpos r in
              if offset head - r_strpos r > 0
              then (Some (take (offset head - r_strpos r) (drop (r_strpos r) (str w))),
                    r\<lparr>r_strpos := offset head\<rparr>)
              else (Some (listhead_encode head), r\<lparr>r_lhpos := r_lhpos r + 1\<rparr>))
           else if r_strpos r < length (str w)
             then (Some (drop (r_strpos r) (str w)), r\<lparr>r_strpos := length (str w)\<rparr>)
           else (None, r)))"

text \<open>What is left of the reader, as the measure of its loop.\<close>

definition reader_measure :: "encReader \<Rightarrow> nat" where
  "reader_measure r =
     (case r_buf r of
        None \<Rightarrow> 0
      | Some w \<Rightarrow> 2 * (length (lheads w) - r_lhpos r)
          + 2 * (length (str w) + sum_list (map offset (lheads w)) - r_strpos r)
          + (case r_piece r of None \<Rightarrow> 0 | Some p \<Rightarrow> 1))"

lemma next_piece_measure:
  assumes "next_piece r = (Some p, r')"
  shows "reader_measure (r'\<lparr>r_piece := None\<rparr>) < reader_measure r"
proof (cases "r_buf r")
  case (Some w)
  have "offset (lheads w ! i) \<le> sum_list (map offset (lheads w))" if "i < length (lheads w)" for i
    using that by (intro member_le_sum_list) auto
  then show ?thesis
    using assms Some
    by (auto simp: next_piece_def reader_measure_def Let_def split: if_splits option.splits)
      (force dest: spec [of _ "r_lhpos r"])+
qed (use assms in \<open>simp add: next_piece_def\<close>)

text \<open>\<open>Read\<close> on a buffer with room for \<open>k\<close> bytes: the bytes copied, whether the error is
  \<open>io.EOF\<close>, and the reader after the call. The accumulator is what the loop has copied.\<close>

function Read_loop :: "nat \<Rightarrow> bytes \<Rightarrow> encReader \<Rightarrow> bytes \<times> bool \<times> encReader" where
  "Read_loop k acc r =
     (case next_piece r of
        (None, r) \<Rightarrow> (acc, True, r\<lparr>r_piece := None, r_buf := None\<rparr>)
      | (Some p, r) \<Rightarrow>
          (let nn = min (k - length acc) (length p); acc' = acc @ take nn p in
           if nn < length p then (acc', False, r\<lparr>r_piece := Some (drop nn p)\<rparr>)
           else Read_loop k acc' (r\<lparr>r_piece := None\<rparr>)))"
  by pat_completeness auto
termination
  by (relation "measure (\<lambda>(k, acc, r). reader_measure r)") (auto intro: next_piece_measure sym)

declare Read_loop.simps [simp del]

definition enc_Read :: "nat \<Rightarrow> encReader \<Rightarrow> bytes \<times> bool \<times> encReader" where
  "enc_Read k r = Read_loop k [] r"

definition EncodeToReader :: "gval \<Rightarrow> rlp_error + (nat \<times> encReader)" where
  "EncodeToReader v =
     (let eb = encbuf_reset \<lparr>str = [], lheads = [], lhsize = 0\<rparr> in
      case writeVal v eb of
        Inl e \<Rightarrow> Inl e
      | Inr w \<Rightarrow> Inr (encbuf_size w, \<lparr>r_buf = Some w, r_lhpos = 0, r_strpos = 0, r_piece = None\<rparr>))"

subsection \<open>Both deliver the encoding\<close>

text \<open>Writing into memory: the writer behind a hash state or a \<open>bytes.Buffer\<close>.\<close>

definition buffer_Write :: "(bytes, 'e) io_Write" where
  "buffer_Write b out = ((length b, None), out @ b)"

lemma toWriter_loop_buffer:
  "toWriter_loop buffer_Write s p hs out = (None, out @ toBytes_loop s p hs)"
  by (induction buffer_Write s p hs out rule: toWriter_loop.induct)
    (auto simp: buffer_Write_def Let_def)

text \<open>A value whose encoding exists and has a size in the range of Go's \<open>int\<close>.\<close>

definition encodable :: "gval \<Rightarrow> bool" where
  "encodable v \<longleftrightarrow> (case enc v of Inl _ \<Rightarrow> False | Inr b \<Rightarrow> length b < 2 ^ 63)"

lemma encodableD:
  "encodable v \<Longrightarrow> \<exists>b. enc v = Inr b \<and> EncodeToBytes v = Inr b \<and> length b < 2 ^ 63"
  using EncodeToBytes_enc [of v] by (auto simp: encodable_def split: sum.splits)

lemma rlp_Encode_buffer:
  assumes "encodable v"
  shows "rlp_Encode (buffer_Write :: (bytes, unit) io_Write) v out = (Inr None, out @ projr (enc v))"
proof -
  from encodableD [OF assms] obtain b where b: "enc v = Inr b" "EncodeToBytes v = Inr b" by blast
  then obtain w where "writeVal v (encbuf_reset \<lparr>str = [], lheads = [], lhsize = 0\<rparr>) = Inr w" "toBytes w = b"
    by (auto simp: EncodeToBytes_def split: sum.splits)
  then show ?thesis
    by (simp add: rlp_Encode_def toWriter_def toWriter_loop_buffer b flip: toBytes_def)
qed

text \<open>What a reader has still to deliver, and the positions it may be in.\<close>

definition reader_rest :: "encReader \<Rightarrow> bytes" where
  "reader_rest r =
     (case r_buf r of
        None \<Rightarrow> []
      | Some w \<Rightarrow> (case r_piece r of None \<Rightarrow> [] | Some p \<Rightarrow> p)
          @ toBytes_loop (str w) (r_strpos r) (drop (r_lhpos r) (lheads w)))"

definition reader_ok :: "encReader \<Rightarrow> bool" where
  "reader_ok r \<longleftrightarrow>
     (case r_buf r of
        None \<Rightarrow> True
      | Some w \<Rightarrow> frag_ok (str w) (lheads w) \<and> r_strpos r \<le> length (str w) \<and> r_piece r \<noteq> Some [])"

lemma listhead_encode_nonempty: "listhead_encode h \<noteq> []"
  by (simp add: listhead_encode_def puthead_def Let_def)

lemma next_piece_Some:
  assumes "next_piece r = (Some p, r')" "reader_ok r"
  shows "p \<noteq> [] \<and> reader_ok (r'\<lparr>r_piece := None\<rparr>) \<and> r_buf r' = r_buf r \<and>
    reader_rest r = p @ reader_rest (r'\<lparr>r_piece := None\<rparr>)"
proof (cases "r_buf r")
  case (Some w)
  let ?heads = "drop (r_lhpos r) (lheads w)"
  show ?thesis
  proof (cases "r_piece r")
    case None
    show ?thesis
    proof (cases "r_lhpos r < length (lheads w)")
      case True
      then have d: "?heads = lheads w ! r_lhpos r # drop (Suc (r_lhpos r)) (lheads w)"
        by (simp add: Cons_nth_drop_Suc)
      have o: "offset (lheads w ! r_lhpos r) \<le> length (str w)"
        using assms(2) Some True by (auto simp: reader_ok_def frag_ok_def)
      show ?thesis
      proof (cases "r_strpos r < offset (lheads w ! r_lhpos r)")
        case True
        with assms Some None d o \<open>r_lhpos r < length (lheads w)\<close> show ?thesis
          by (auto simp: next_piece_def reader_ok_def reader_rest_def Let_def)
      next
        case False
        with assms Some None d o \<open>r_lhpos r < length (lheads w)\<close> show ?thesis
          by (auto simp: next_piece_def reader_ok_def reader_rest_def Let_def listhead_encode_nonempty)
      qed
    next
      case False
      with assms Some None show ?thesis
        by (auto simp: next_piece_def reader_ok_def reader_rest_def split: if_splits)
    qed
  next
    case (Some q)
    with assms \<open>r_buf r = Some w\<close> show ?thesis
      by (auto simp: next_piece_def reader_ok_def reader_rest_def)
  qed
qed (use assms in \<open>simp add: next_piece_def\<close>)

lemma next_piece_None:
  "next_piece r = (None, r') \<Longrightarrow> reader_rest r = []"
  by (auto simp: next_piece_def reader_rest_def Let_def split: option.splits if_splits)

lemma Read_loop_rest:
  assumes "Read_loop k acc r = (out, eof, r')" "reader_ok r" "length acc \<le> k"
  shows "\<exists>new. out = acc @ new \<and> reader_rest r = new @ reader_rest r' \<and> reader_ok r' \<and>
    length out \<le> k \<and> (if eof then reader_rest r' = [] else length out = k \<and> reader_rest r' \<noteq> [])"
  using assms
proof (induction k acc r rule: Read_loop.induct)
  case (1 k acc r)
  show ?case
  proof (cases "next_piece r")
    case (Pair q r1)
    show ?thesis
    proof (cases q)
      case None
      with Pair 1(2-) next_piece_None [of r r1] show ?thesis
        by (auto simp: Read_loop.simps [of k acc r] reader_rest_def reader_ok_def)
    next
      case (Some p)
      let ?nn = "min (k - length acc) (length p)"
      let ?r1 = "r1\<lparr>r_piece := None\<rparr>"
      have np: "next_piece r = (Some p, r1)" using Pair Some by simp
      note ok = next_piece_Some [OF np 1(3)]
      show ?thesis
      proof (cases "?nn < length p")
        case True
        then have nn: "?nn = k - length acc" "k - length acc < length p" by auto
        then have out: "out = acc @ take ?nn p" "eof = False" "r' = r1\<lparr>r_piece := Some (drop ?nn p)\<rparr>"
          using 1(2) np by (auto simp: Read_loop.simps [of k acc r] Let_def)
        obtain w where w: "r_buf r1 = Some w"
          using np ok by (auto simp: next_piece_def split: option.splits)
        have "reader_rest r' = drop ?nn p @ reader_rest ?r1"
          by (simp add: reader_rest_def out w)
        moreover have "reader_ok r'" using conjunct1 [OF conjunct2 [OF ok]] nn w by (simp add: reader_ok_def out)
        ultimately show ?thesis using ok out True 1(4) by (intro exI [of _ "take ?nn p"]) auto
      next
        case False
        then have nn: "?nn = length p" "length p \<le> k - length acc" by auto
        have rec: "Read_loop k (acc @ take ?nn p) ?r1 = (out, eof, r')"
          using 1(2) np False by (simp add: Read_loop.simps [of k acc r] Let_def)
        have "length (acc @ take ?nn p) \<le> k" using nn 1(4) by simp
        from 1(1) [OF Pair [symmetric] Some refl refl False rec _ this] ok
        obtain new where n: "out = (acc @ take ?nn p) @ new \<and> reader_rest ?r1 = new @ reader_rest r' \<and> reader_ok r' \<and>
          length out \<le> k \<and> (if eof then reader_rest r' = [] else length out = k \<and> reader_rest r' \<noteq> [])"
          by blast
        then have "length (acc @ p @ new) \<le> k" "\<not> eof \<Longrightarrow> length (acc @ p @ new) = k"
          using nn by (auto split: if_splits)
        with n ok nn show ?thesis by (intro exI [of _ "p @ new"]) (auto split: if_splits)
      qed
    qed
  qed
qed

text \<open>Reading with a given sequence of buffer sizes.\<close>

fun read_all :: "nat list \<Rightarrow> encReader \<Rightarrow> bytes" where
  "read_all [] r = []"
| "read_all (k # ks) r = (let (out, eof, r') = enc_Read k r in out @ (if eof then [] else read_all ks r'))"

lemma read_all_rest:
  "reader_ok r \<Longrightarrow> read_all ks r = take (sum_list ks) (reader_rest r)"
proof (induction ks arbitrary: r)
  case Nil
  then show ?case by simp
next
  case (Cons k ks)
  obtain out eof r' where rd: "enc_Read k r = (out, eof, r')" by (metis prod_cases3)
  from Read_loop_rest [OF rd [unfolded enc_Read_def] Cons.prems]
  have r: "reader_rest r = out @ reader_rest r'" "reader_ok r'" "length out \<le> k"
    "if eof then reader_rest r' = [] else length out = k \<and> reader_rest r' \<noteq> []" by auto
  show ?case
  proof (cases eof)
    case True
    with r rd show ?thesis by simp
  next
    case False
    with r rd Cons.IH [OF r(2)] show ?thesis by simp
  qed
qed

text \<open>C8: the three ways out of the encoder agree. For every value with an encoding of less
  than \<open>2 ^ 63\<close> bytes, \<open>Encode\<close> into memory appends the bytes of \<open>EncodeToBytes\<close>,
  \<open>EncodeToReader\<close> announces their number, and reading with buffers of any sizes delivers them
  in order, up to the total size of the buffers; an encoding error is the same for the three.\<close>

theorem Encode_and_EncodeToReader:
  assumes "\<forall>bs. enc v = Inr bs \<longrightarrow> length bs < 2 ^ 63"
  shows "case EncodeToBytes v of
     Inl e \<Rightarrow> rlp_Encode (buffer_Write :: (bytes, 'e) io_Write) v out = (Inl e, out) \<and> EncodeToReader v = Inl e
   | Inr b \<Rightarrow> rlp_Encode (buffer_Write :: (bytes, 'e) io_Write) v out = (Inr None, out @ b) \<and>
       (\<exists>r. EncodeToReader v = Inr (length b, r) \<and> (\<forall>ks. read_all ks r = take (sum_list ks) b))"
proof -
  let ?eb = "encbuf_reset \<lparr>str = [], lheads = [], lhsize = 0\<rparr>"
  show ?thesis
  proof (cases "writeVal v ?eb")
    case (Inl e)
    then show ?thesis by (simp add: EncodeToBytes_def rlp_Encode_def EncodeToReader_def)
  next
    case (Inr w)
    let ?r = "\<lparr>r_buf = Some w, r_lhpos = 0, r_strpos = 0, r_piece = None\<rparr>"
    have b: "EncodeToBytes v = Inr (toBytes w)" using Inr by (simp add: EncodeToBytes_def)
    then have "enc v = Inr (toBytes w)" using EncodeToBytes_enc [OF assms] by simp
    then have "wrote ?eb w (toBytes w)"
      using writeVal_writes(1) [of v ?eb] Inr assms by (simp add: writes_def)
    then have "reader_ok ?r" "reader_rest ?r = toBytes w" "encbuf_size w = length (toBytes w)"
      by (auto simp: wrote_def encbuf_reset_def reader_ok_def reader_rest_def toBytes_def encbuf_size_def)
    with Inr b show ?thesis
      by (simp add: rlp_Encode_def EncodeToReader_def toWriter_def toWriter_loop_buffer toBytes_def
          read_all_rest)
  qed
qed

theorem Encode_and_EncodeToReader_witness:
  "rlp_Encode (buffer_Write :: (bytes, unit) io_Write) (GSlice [GUint 5]) [7] = (Inr None, [7, 0xC1, 5])"
proof -
  have e: "enc (GSlice [GUint 5]) = Inr [0xC1, 5]"
    by (simp add: BE_small rlp_str_def rlp_list_def rlp_head_def)
  then have "EncodeToBytes (GSlice [GUint 5]) = Inr [0xC1, 5]" by (subst EncodeToBytes_enc) auto
  with Encode_and_EncodeToReader [where ?'e = unit, of "GSlice [GUint 5]" "[7]"] e show ?thesis by simp
qed

end
