(* ===== verification/Block_Header.thy ===== *)
theory Block_Header
  imports Rlp_Roundtrip Rlp_Reader
begin

text \<open>
  The block header (\<open>core/types/block.go\<close>) with its RLP form and its hash
  (\<open>core/types/hashing.go\<close>). Keccak-256 is a parameter of the definitions.
\<close>

record Header =
  ParentHash :: hash
  UncleHash :: hash
  Coinbase :: address
  Root :: hash
  TxHash :: hash
  ReceiptHash :: hash
  Bloom :: bytes
  Difficulty :: "int option"
  Number :: "int option"
  GasLimit :: u64
  GasUsed :: u64
  Time :: u64
  Extra :: bytes
  MixDigest :: hash
  Nonce :: bytes
  BaseFee :: "int option"

text \<open>The fields as the encoder sees them, with their types: arrays of bytes, big integers,
  \<open>uint64\<close>s and a byte slice; the base fee is an optional field.\<close>

definition header_types :: "gtyp list" where
  "header_types = [TByteArray 32, TByteArray 32, TByteArray 20, TByteArray 32, TByteArray 32,
     TByteArray 32, TByteArray 256, TBigIntPtr, TBigIntPtr, TUint 64, TUint 64, TUint 64, TBytes,
     TByteArray 32, TByteArray 8]"

definition header_values :: "Header \<Rightarrow> gval list" where
  "header_values h = [GByteArray (ParentHash h), GByteArray (UncleHash h), GByteArray (Coinbase h),
     GByteArray (Root h), GByteArray (TxHash h), GByteArray (ReceiptHash h), GByteArray (Bloom h),
     GBigIntPtr (Difficulty h), GBigIntPtr (Number h), GUint (GasLimit h), GUint (GasUsed h),
     GUint (Time h), GBytes (Extra h), GByteArray (MixDigest h), GByteArray (Nonce h)]"

definition header_typ :: gtyp where
  "header_typ = TStruct (map (Pair False) header_types @ [(True, TBigIntPtr)])"

definition header_gval :: "Header \<Rightarrow> gval" where
  "header_gval h =
     GStruct (map2 (\<lambda>t v. (isZero t v, v)) header_types (header_values h)
       @ [(BaseFee h = None, GBigIntPtr (BaseFee h))]) 15"

text \<open>\<open>rlpHash\<close> encodes into the hash state and reads the digest; the error of
  \<open>rlp.Encode\<close> is dropped, so a value that cannot be encoded has the hash of no data.\<close>

definition rlpHash :: "(bytes \<Rightarrow> hash) \<Rightarrow> gval \<Rightarrow> hash" where
  "rlpHash keccak x =
     (let (err, sha) = rlp_Encode (buffer_Write :: (bytes, unit) io_Write) x [] in keccak sha)"

definition header_Hash :: "(bytes \<Rightarrow> hash) \<Rightarrow> Header \<Rightarrow> hash" where
  "header_Hash keccak h = rlpHash keccak (header_gval h)"

datatype sanity_error =
    TooLargeNumber nat
  | TooLargeDifficulty nat
  | TooLargeExtra nat
  | TooLargeBaseFee nat

definition SanityCheck :: "Header \<Rightarrow> sanity_error option" where
  "SanityCheck h =
     (if (case Number h of Some n \<Rightarrow> \<not> (0 \<le> n \<and> n < 2 ^ 64) | None \<Rightarrow> False)
      then Some (TooLargeNumber (BitLen (nat \<bar>the (Number h)\<bar>)))
      else if (case Difficulty h of Some d \<Rightarrow> BitLen (nat \<bar>d\<bar>) > 80 | None \<Rightarrow> False)
      then Some (TooLargeDifficulty (BitLen (nat \<bar>the (Difficulty h)\<bar>)))
      else if length (Extra h) > 100 * 1024
      then Some (TooLargeExtra (length (Extra h)))
      else if (case BaseFee h of Some f \<Rightarrow> BitLen (nat \<bar>f\<bar>) > 256 | None \<Rightarrow> False)
      then Some (TooLargeBaseFee (BitLen (nat \<bar>the (BaseFee h)\<bar>)))
      else None)"

definition EmptyBody :: "hash \<Rightarrow> hash \<Rightarrow> Header \<Rightarrow> bool" where
  "EmptyBody EmptyRootHash EmptyUncleHash h \<longleftrightarrow>
     TxHash h = EmptyRootHash \<and> UncleHash h = EmptyUncleHash"

definition EmptyReceipts :: "hash \<Rightarrow> Header \<Rightarrow> bool" where
  "EmptyReceipts EmptyRootHash h \<longleftrightarrow> ReceiptHash h = EmptyRootHash"

subsection \<open>Well-formed headers\<close>

text \<open>The lengths are those of the Go arrays; the big integers are set and not negative, as in
  every header that was decoded.\<close>

definition wf_header :: "Header \<Rightarrow> bool" where
  "wf_header h \<longleftrightarrow>
     length (ParentHash h) = 32 \<and> length (UncleHash h) = 32 \<and> length (Coinbase h) = 20 \<and>
     length (Root h) = 32 \<and> length (TxHash h) = 32 \<and> length (ReceiptHash h) = 32 \<and>
     length (Bloom h) = 256 \<and> (\<exists>d \<ge> 0. Difficulty h = Some d) \<and> (\<exists>n \<ge> 0. Number h = Some n) \<and>
     length (MixDigest h) = 32 \<and> length (Nonce h) = 8 \<and> (\<forall>f. BaseFee h = Some f \<longrightarrow> 0 \<le> f)"

lemma header_gval_typed: "wf_header h \<Longrightarrow> has_type header_typ (header_gval h)"
  using unat_u64_less
  by (cases "BaseFee h")
    (auto simp: wf_header_def header_typ_def header_gval_def header_types_def header_values_def
      zeroFields_def)

lemma header_typ_wf [simp]: "wf_typ header_typ" "\<not> is_tail header_typ"
  by (simp_all add: header_typ_def header_types_def)

lemma header_gval_inj:
  "header_gval h = header_gval h' \<longleftrightarrow> h = h'"
  by (cases h; cases h') (auto simp: header_gval_def header_types_def header_values_def)

text \<open>An encoding determines a typed value, because it decodes to it.\<close>

lemma enc_inj:
  assumes "wf_typ t" "\<not> is_tail t" "has_type t v" "has_type t v'"
    and "enc v = Inr b" "enc v' = Inr b" "length b < 2 ^ 63"
  shows "v = v'"
proof -
  have "DecodeBytes t b = Some (Inr v)" "DecodeBytes t b = Some (Inr v')"
    using DecodeBytes_accepts [OF assms(1,2,7)] enc_accepts(1) assms by blast+
  then show ?thesis by simp
qed

lemma rlpHash_enc: "encodable v \<Longrightarrow> rlpHash keccak v = keccak (projr (enc v))"
  by (simp add: rlpHash_def rlp_Encode_buffer)

subsection \<open>Sizes\<close>

lemma rlp_str_BE_le: "BitLen n \<le> 256 \<Longrightarrow> length (rlp_str (BE n)) \<le> 37"
  using rlp_str_length_le [of "BE n"] by (simp add: length_BE) linarith

lemma BitLen_unat: "BitLen (unat (w :: u64)) \<le> 256"
  using BitLen_less [OF unat_u64_less, of w] by simp

text \<open>\<open>enc_le v n\<close>: the value has an encoding of at most \<open>n\<close> bytes.\<close>

definition enc_le :: "gval \<Rightarrow> nat \<Rightarrow> bool" where
  "enc_le v n \<longleftrightarrow> (case enc v of Inl _ \<Rightarrow> False | Inr b \<Rightarrow> length b \<le> n)"

lemma enc_le_array: "length b < 2 ^ 32 \<Longrightarrow> length b + 5 \<le> n \<Longrightarrow> enc_le (GByteArray b) n"
  "length b < 2 ^ 32 \<Longrightarrow> length b + 5 \<le> n \<Longrightarrow> enc_le (GBytes b) n"
  using rlp_str_length_le [of b] by (simp_all add: enc_le_def)

lemma enc_le_big: "0 \<le> i \<Longrightarrow> BitLen (nat i) \<le> 256 \<Longrightarrow> enc_le (GBigIntPtr (Some i)) 37"
  using rlp_str_BE_le [of "nat i"] by (simp add: enc_le_def)

lemma enc_le_uint: "enc_le (GUint i) 37"
  using rlp_str_BE_le [OF BitLen_unat, of i] by (simp add: enc_le_def)

lemma enc_list_le:
  "list_all2 enc_le vs ns \<Longrightarrow> \<exists>b. enc_list vs = Inr b \<and> length b \<le> sum_list ns"
proof (induction vs ns rule: list_all2_induct)
  case (Cons v vs n ns)
  then show ?case by (auto simp: enc_le_def split: sum.splits)
qed simp

lemma sane_header_encodable:
  assumes "wf_header h" "SanityCheck h = None"
  shows "encodable (header_gval h)"
proof -
  have bits: "\<exists>d. Difficulty h = Some d \<and> 0 \<le> d \<and> BitLen (nat d) \<le> 256"
    "\<exists>n. Number h = Some n \<and> 0 \<le> n \<and> BitLen (nat n) \<le> 256"
    "length (Extra h) \<le> 102400"
    "\<And>f. BaseFee h = Some f \<Longrightarrow> 0 \<le> f \<and> BitLen (nat f) \<le> 256"
    using assms BitLen_less [of "nat (the (Number h))" 64]
    by (auto simp: wf_header_def SanityCheck_def nat_less_iff split: if_splits)
  let ?f = "case BaseFee h of None \<Rightarrow> [] | Some f \<Rightarrow> [GBigIntPtr (Some f)]"
  let ?ns = "[37, 37, 25, 37, 37, 37, 261, 37, 37, 37, 37, 37, 102405, 37, 13 :: nat]"
  have "list_all2 enc_le (header_values h) ?ns"
    using assms(1) bits(1-3)
    by (auto simp: header_values_def wf_header_def intro!: enc_le_array enc_le_big enc_le_uint)
  moreover have "list_all2 enc_le ?f (map (\<lambda>_. 37) ?f)"
    using bits(4) by (auto intro!: enc_le_big split: option.splits)
  ultimately have "list_all2 enc_le (header_values h @ ?f) (?ns @ map (\<lambda>_. 37) ?f)"
    by (rule list_all2_appendI)
  from enc_list_le [OF this] obtain b
    where b: "enc_list (header_values h @ ?f) = Inr b" "length b \<le> sum_list (?ns @ map (\<lambda>_. 37) ?f)"
    by blast
  have len: "length b \<le> 103300" using b(2) by (cases "BaseFee h") simp_all
  have "map snd (structFields (map2 (\<lambda>t v. (isZero t v, v)) header_types (header_values h)
       @ [(BaseFee h = None, GBigIntPtr (BaseFee h))]) 15) = header_values h @ ?f"
    by (cases "BaseFee h")
      (simp_all add: structFields_def header_types_def header_values_def lastField.simps)
  then have "enc (header_gval h) = Inr (rlp_list b)" using b(1) by (simp add: header_gval_def)
  moreover have "length (rlp_list b) < 2 ^ 63"
    using len rlp_head_length_le [of "length b" "0xC0"] by (simp add: rlp_list_def)
  ultimately show ?thesis by (simp add: encodable_def)
qed

text \<open>C13: a well-formed header that passes \<open>SanityCheck\<close> is encoded and decoded back to itself, and its hash is the Keccak
  digest of that encoding.\<close>

theorem Header_roundtrip:
  assumes "wf_header h" "SanityCheck h = None"
  shows "\<exists>b. EncodeToBytes (header_gval h) = Inr b \<and>
    DecodeBytes header_typ b = Some (Inr (header_gval h)) \<and> header_Hash keccak h = keccak b"
proof -
  have e: "encodable (header_gval h)" using assms by (rule sane_header_encodable)
  from encodableD [OF this] obtain b
    where b: "enc (header_gval h) = Inr b" "EncodeToBytes (header_gval h) = Inr b" "length b < 2 ^ 63"
    by blast
  have "DecodeBytes header_typ b = Some (Inr (header_gval h))"
    using DecodeBytes_accepts [OF header_typ_wf b(3)]
      enc_accepts(1) [OF header_gval_typed [OF assms(1)] _ b(1)] by simp
  then show ?thesis using b e by (simp add: header_Hash_def rlpHash_enc)
qed

text \<open>A header without a base fee, all fields zero.\<close>

definition zero_header :: Header where
  "zero_header = \<lparr>ParentHash = replicate 32 0, UncleHash = replicate 32 0, Coinbase = replicate 20 0,
     Root = replicate 32 0, TxHash = replicate 32 0, ReceiptHash = replicate 32 0,
     Bloom = replicate 256 0, Difficulty = Some 0, Number = Some 0, GasLimit = 0, GasUsed = 0,
     Time = 0, Extra = [], MixDigest = replicate 32 0, Nonce = replicate 8 0, BaseFee = None\<rparr>"

lemma BitLen_0 [simp]: "BitLen 0 = 0"
  by (simp add: BitLen.simps)

theorem Header_roundtrip_witness:
  "\<exists>b. EncodeToBytes (header_gval zero_header) = Inr b \<and>
    DecodeBytes header_typ b = Some (Inr (header_gval zero_header)) \<and> header_Hash rev zero_header = rev b"
  by (rule Header_roundtrip) (simp_all add: wf_header_def zero_header_def SanityCheck_def)

lemma header_enc_inj:
  assumes "wf_header h" "wf_header h'" "SanityCheck h = None" "SanityCheck h' = None"
    and "enc (header_gval h) = enc (header_gval h')"
  shows "h = h'"
proof -
  from encodableD [OF sane_header_encodable [OF assms(1,3)]] obtain b
    where "enc (header_gval h) = Inr b" "length b < 2 ^ 63" by blast
  then have "header_gval h = header_gval h'"
    using enc_inj [OF header_typ_wf header_gval_typed [OF assms(1)] header_gval_typed [OF assms(2)]]
      assms(5) by auto
  then show ?thesis by (simp add: header_gval_inj)
qed



end
