(* ===== verification/Consensus_Misc.thy ===== *)
theory Consensus_Misc
  imports Params Block_Header
begin

text \<open>
  The header checks shared by the consensus engines (\<open>consensus/misc\<close>): gas limit, base fee,
  fork hashes and the extra data of the DAO fork; and \<open>CalcGasLimit\<close>
  (\<open>core/block_validator.go\<close>), which picks the gas limit of the next block.
\<close>

datatype misc_error =
    InvalidGasLimit u64 u64 u64
  | GasLimitBelow5000
  | MissingBaseFee
  | InvalidBaseFee int int
  | ForkHashMismatch hash hash
  | ErrBadProDAOExtra
  | ErrBadNoDAOExtra

abbreviation GasLimitBoundDivisor :: u64 where "GasLimitBoundDivisor \<equiv> 1024"

abbreviation MinGasLimit :: u64 where "MinGasLimit \<equiv> 5000"

text \<open>The subtraction of the two limits as \<open>int64\<close>s wraps; \<open>sint\<close> reads the sign of the
  difference, and multiplying the least \<open>int64\<close> by \<open>-1\<close> leaves it as it is.\<close>

definition VerifyGaslimit :: "u64 \<Rightarrow> u64 \<Rightarrow> misc_error option" where
  "VerifyGaslimit parentGasLimit headerGasLimit =
     (let diff = parentGasLimit - headerGasLimit;
          diff = (if sint diff < 0 then diff * (- 1) else diff);
          limit = parentGasLimit div GasLimitBoundDivisor
      in if diff \<ge> limit then Some (InvalidGasLimit headerGasLimit parentGasLimit (limit - 1))
         else if headerGasLimit < MinGasLimit then Some GasLimitBelow5000
         else None)"

definition CalcBaseFee :: "ChainConfig \<Rightarrow> Header \<Rightarrow> int" where
  "CalcBaseFee config parent = 0"

definition VerifyEip1559Header :: "ChainConfig \<Rightarrow> Header \<Rightarrow> Header \<Rightarrow> misc_error option" where
  "VerifyEip1559Header config parent header =
     (case VerifyGaslimit (GasLimit parent) (GasLimit header) of
        Some err \<Rightarrow> Some err
      | None \<Rightarrow>
          (case BaseFee header of
             None \<Rightarrow> Some MissingBaseFee
           | Some f \<Rightarrow>
               let expectedBaseFee = CalcBaseFee config parent in
               if f \<noteq> expectedBaseFee then Some (InvalidBaseFee expectedBaseFee f) else None))"

definition VerifyForkHashes ::
  "(bytes \<Rightarrow> hash) \<Rightarrow> ChainConfig \<Rightarrow> Header \<Rightarrow> bool \<Rightarrow> misc_error option" where
  "VerifyForkHashes keccak config header uncle =
     (if uncle then None
      else if EIP150Block config \<noteq> None \<and> EIP150Block config = Number header then
        (if EIP150Hash config \<noteq> replicate 32 0 \<and> EIP150Hash config \<noteq> header_Hash keccak header
         then Some (ForkHashMismatch (header_Hash keccak header) (EIP150Hash config))
         else None)
      else None)"

text \<open>The bytes of ``dao-hard-fork'', and the range of blocks that carry them.\<close>

definition DAOForkBlockExtra :: bytes where
  "DAOForkBlockExtra = [0x64, 0x61, 0x6f, 0x2d, 0x68, 0x61, 0x72, 0x64, 0x2d, 0x66, 0x6f, 0x72, 0x6b]"

abbreviation DAOForkExtraRange :: int where "DAOForkExtraRange \<equiv> 10"

definition VerifyDAOHeaderExtraData :: "ChainConfig \<Rightarrow> Header \<Rightarrow> misc_error option" where
  "VerifyDAOHeaderExtraData config header =
     (case DAOForkBlock config of
        None \<Rightarrow> None
      | Some f \<Rightarrow>
          let limit = f + DAOForkExtraRange; n = the (Number header) in
          if n < f \<or> n \<ge> limit then None
          else if DAOForkSupport config
            then (if Extra header \<noteq> DAOForkBlockExtra then Some ErrBadProDAOExtra else None)
            else (if Extra header = DAOForkBlockExtra then Some ErrBadNoDAOExtra else None))"

definition CalcGasLimit :: "u64 \<Rightarrow> u64 \<Rightarrow> u64" where
  "CalcGasLimit parentGasLimit desiredLimit =
     (let delta = parentGasLimit div GasLimitBoundDivisor - 1;
          desiredLimit = (if desiredLimit < MinGasLimit then MinGasLimit else desiredLimit)
      in if parentGasLimit < desiredLimit then
           (let limit = parentGasLimit + delta in
            if limit > desiredLimit then desiredLimit else limit)
         else if parentGasLimit > desiredLimit then
           (let limit = parentGasLimit - delta in
            if limit < desiredLimit then desiredLimit else limit)
         else parentGasLimit)"

subsection \<open>Gas limits as numbers\<close>

lemma sint_diff:
  assumes "uint p < 2 ^ 63" "uint h < 2 ^ 63"
  shows "sint (p - h :: u64) = uint p - uint h"
proof -
  have stb: "signed_take_bit 63 k = k" if "- (2 ^ 63) \<le> k" "k < 2 ^ 63" for k :: int
    using that by (rule signed_take_bit_int_eq_self)
  have pos: "0 \<le> uint p" "0 \<le> uint h" by simp_all
  then have "signed_take_bit 63 (uint p) = uint p" "signed_take_bit 63 (uint h) = uint h"
    using assms by (intro stb; linarith)+
  then have "sint p = uint p" "sint h = uint h" by (simp_all add: sint_uint)
  moreover have "sint (p - h) = signed_take_bit 63 (sint p - sint h)" by (simp add: sint_word_ariths)
  moreover have "signed_take_bit 63 (uint p - uint h) = uint p - uint h"
    using assms pos by (intro stb) linarith+
  ultimately show ?thesis by simp
qed

lemma uint_abs_diff:
  assumes "uint p < 2 ^ 63" "uint h < 2 ^ 63"
  shows "uint (if sint (p - h :: u64) < 0 then (p - h) * (- 1) else p - h) = \<bar>uint p - uint h\<bar>"
  using sint_diff [OF assms] uint_sub_lem [of p h] uint_sub_lem [of h p] by auto

lemma VerifyGaslimit_iff:
  assumes "uint p < 2 ^ 63" "uint h < 2 ^ 63"
  shows "VerifyGaslimit p h = None \<longleftrightarrow> \<bar>uint p - uint h\<bar> < uint p div 1024 \<and> 5000 \<le> uint h"
proof -
  let ?d = "if sint (p - h) < 0 then (p - h) * (- 1) else p - h"
  have "VerifyGaslimit p h = None \<longleftrightarrow> uint ?d < uint (p div 1024) \<and> 5000 \<le> uint h"
    by (simp only: VerifyGaslimit_def Let_def word_less_def word_le_def not_le not_less) (auto simp: not_le not_less)
  also have "uint (p div 1024) = uint p div 1024" by (simp add: uint_div)
  finally show ?thesis by (simp only: uint_abs_diff [OF assms])
qed

text \<open>C16: \<open>VerifyGaslimit\<close> on limits below \<open>2 ^ 63\<close> (larger ones are refused before it):
  the new limit is at least 5000 and differs from the parent's by less than a 1024th of it.\<close>

theorem VerifyGaslimit_bounds:
  assumes "uint p < 2 ^ 63" "uint h < 2 ^ 63"
  shows "VerifyGaslimit p h = None \<longleftrightarrow> \<bar>uint p - uint h\<bar> < uint p div 1024 \<and> 5000 \<le> uint h"
  using assms by (rule VerifyGaslimit_iff)

theorem VerifyGaslimit_bounds_witness:
  "VerifyGaslimit 8000000 8007811 = None \<and> VerifyGaslimit 8000000 8007812 \<noteq> None"
  using VerifyGaslimit_bounds [of 8000000 8007811] VerifyGaslimit_bounds [of 8000000 8007812] by simp

lemma uint_CalcGasLimit:
  assumes "5000 \<le> uint p" "uint p < 2 ^ 62"
  shows "uint (CalcGasLimit p d) =
    (let delta = uint p div 1024 - 1; d' = max 5000 (uint d) in
     if uint p < d' then min (uint p + delta) d' else max (uint p - delta) d')"
proof -
  have dv: "uint (p div 1024 :: u64) = uint p div 1024" by (simp add: uint_div)
  have delta: "uint (p div 1024 - 1 :: u64) = uint p div 1024 - 1"
  proof -
    have "1 \<le> uint p div 1024" using assms by linarith
    then show ?thesis using uint_sub_lem [of 1 "p div 1024"] by (simp add: dv)
  qed
  have le: "uint p div 1024 - 1 \<le> uint p" "0 \<le> uint p div 1024 - 1" using assms by linarith+
  have plus: "uint (p + (p div 1024 - 1)) = uint p + (uint p div 1024 - 1)"
    using assms le uint_add_lem [of p "p div 1024 - 1"] by (simp add: delta)
  have minus: "uint (p - (p div 1024 - 1)) = uint p - (uint p div 1024 - 1)"
    using assms le uint_sub_lem [of "p div 1024 - 1" p] by (simp add: delta)
  have d': "uint (if d < 5000 then 5000 else d) = max 5000 (uint d)"
    by (simp add: word_less_def max_def)
  show ?thesis
    unfolding CalcGasLimit_def Let_def word_less_def d'
    using le by (auto simp: plus minus d' min_def max_def word_less_def)
qed



end
