(* ===== verification/Congress_Snapshot.thy ===== *)
theory Congress_Snapshot
  imports Consensus_Misc "HOL-Library.AList"
begin

text \<open>
  The authorization snapshots of the congress engine (\<open>consensus/congress/snapshot.go\<close>) and
  the recovery of a block's signer (\<open>ecrecover\<close> in \<open>congress.go\<close>): who may seal blocks,
  and who has sealed one too recently.

  The Go map \<open>Recents\<close> is an association list with distinct keys, the set
  \<open>Validators\<close> a set. What is not under \<open>src\<close> is in the record \<open>crypto_env\<close>: Keccak-256,
  the recovery of a public key from a signature, and which entries the LRU cache of
  signatures keeps when one is added.
\<close>

datatype congress_error =
    errUnknownBlock
  | errMissingVanity
  | errMissingSignature
  | errExtraValidators
  | errInvalidMixDigest
  | errInvalidUncleHash
  | errInvalidDifficulty
  | errWrongDifficulty
  | ErrInvalidTimestamp
  | errInvalidVotingChain
  | errUnauthorizedValidator
  | errRecentlySigned
  | errInvalidCoinbase
  | errInvalidExtraValidators
  | errInvalidValidatorsLength
  | errInvalidSysGovCount
  | ErrFutureBlock
  | ErrUnknownAncestor
  | errGasLimitCap u64
  | errGasUsed u64 u64
  | errBaseFeeBeforeFork int
  | errMisc misc_error
  | errEcrecover
  | errDatabase
  | errSign
  | errContract
  | Panic

record crypto_env =
  Keccak256 :: "bytes \<Rightarrow> hash"
  Ecrecover :: "hash \<Rightarrow> bytes \<Rightarrow> bytes option"
  keep_sigs :: "(hash \<times> address) list \<Rightarrow> (hash \<times> address) list"

type_synonym sigcache = "(hash \<times> address) list"

abbreviation extraVanity :: nat where "extraVanity \<equiv> 32"

abbreviation extraSeal :: nat where "extraSeal \<equiv> 65"

abbreviation AddressLength :: nat where "AddressLength \<equiv> 20"

text \<open>\<open>big.Int.Uint64\<close>: the low 64 bits of the absolute value. The engine reads the number of
  a header only after \<open>verifyHeader\<close> has refused a nil number.\<close>

definition number_u64 :: "Header \<Rightarrow> u64" where
  "number_u64 h = (case Number h of Some n \<Rightarrow> word_of_int \<bar>n\<bar> | None \<Rightarrow> 0)"

subsection \<open>The seal\<close>

text \<open>\<open>encodeSigHeader\<close> writes a slice of interfaces; it panics, here \<open>None\<close>, when the extra
  data is shorter than a signature or a field cannot be encoded.\<close>

definition sigHeader_gval :: "Header \<Rightarrow> gval" where
  "sigHeader_gval header =
     GSlice (map (\<lambda>v. GInterface (Some v))
       [GByteArray (ParentHash header), GByteArray (UncleHash header), GByteArray (Coinbase header),
        GByteArray (Root header), GByteArray (TxHash header), GByteArray (ReceiptHash header),
        GByteArray (Bloom header), GBigIntPtr (Difficulty header), GBigIntPtr (Number header),
        GUint (GasLimit header), GUint (GasUsed header), GUint (Time header),
        GBytes (take (length (Extra header) - extraSeal) (Extra header)),
        GByteArray (MixDigest header), GByteArray (Nonce header)])"

definition encodeSigHeader :: "Header \<Rightarrow> bytes \<Rightarrow> bytes option" where
  "encodeSigHeader header w =
     (if length (Extra header) < extraSeal then None
      else case rlp_Encode (buffer_Write :: (bytes, unit) io_Write) (sigHeader_gval header) w of
             (Inl e, w) \<Rightarrow> None
           | (Inr err, w) \<Rightarrow> if err = None then Some w else None)"

definition SealHash :: "(bytes \<Rightarrow> hash) \<Rightarrow> Header \<Rightarrow> hash option" where
  "SealHash keccak header = map_option keccak (encodeSigHeader header [])"

definition CongressRLP :: "Header \<Rightarrow> bytes option" where
  "CongressRLP header = encodeSigHeader header []"

text \<open>The signer of a header. The cache is asked first; a recovered address is added to it. The
  address is the last 20 bytes of the digest of the public key without its format byte.\<close>

definition recover :: "crypto_env \<Rightarrow> Header \<Rightarrow> congress_error + address" where
  "recover env header =
     (if length (Extra header) < extraSeal then Inl errMissingSignature
      else case SealHash (Keccak256 env) header of
             None \<Rightarrow> Inl Panic
           | Some sh \<Rightarrow>
               (case Ecrecover env sh (drop (length (Extra header) - extraSeal) (Extra header)) of
                  None \<Rightarrow> Inl errEcrecover
                | Some pubkey \<Rightarrow> Inr (drop 12 (Keccak256 env (drop 1 pubkey)))))"

definition ecrecover ::
  "crypto_env \<Rightarrow> Header \<Rightarrow> sigcache \<Rightarrow> (congress_error + address) \<times> sigcache" where
  "ecrecover env header sigcache =
     (let hash = header_Hash (Keccak256 env) header in
      case map_of sigcache hash of
        Some address \<Rightarrow> (Inr address, sigcache)
      | None \<Rightarrow>
          (case recover env header of
             Inl err \<Rightarrow> (Inl err, sigcache)
           | Inr validator \<Rightarrow> (Inr validator, keep_sigs env (AList.update hash validator sigcache))))"

subsection \<open>Snapshots\<close>

record Snapshot =
  snap_Number :: u64
  snap_Hash :: hash
  Validators :: "address set"
  Recents :: "(u64 \<times> address) list"

definition newSnapshot :: "u64 \<Rightarrow> hash \<Rightarrow> address list \<Rightarrow> Snapshot" where
  "newSnapshot number hash validators =
     \<lparr>snap_Number = number, snap_Hash = hash, Validators = set validators, Recents = []\<rparr>"

definition snap_copy :: "Snapshot \<Rightarrow> Snapshot" where
  "snap_copy s = \<lparr>snap_Number = snap_Number s, snap_Hash = snap_Hash s,
     Validators = Validators s, Recents = fold (\<lambda>(b, v). AList.update b v) (Recents s) []\<rparr>"

text \<open>The length of half the validators plus one, as a \<open>uint64\<close>.\<close>

definition sign_limit :: "address set \<Rightarrow> u64" where
  "sign_limit vals = of_nat (card vals div 2 + 1)"

text \<open>The validators listed in the extra data of a checkpoint header. The division truncates
  towards zero, and \<open>make\<close> panics on a negative length.\<close>

definition extra_validators :: "bytes \<Rightarrow> address list option" where
  "extra_validators extra =
     (if length extra + AddressLength \<le> extraVanity + extraSeal then None
      else Some (map (\<lambda>i. take AddressLength (drop (extraVanity + i * AddressLength) extra))
             [0 ..< (length extra - (extraVanity + extraSeal)) div AddressLength]))"

text \<open>The body of the loop of \<open>apply\<close>, for one header.\<close>

definition apply_header ::
  "crypto_env \<Rightarrow> CongressConfig \<Rightarrow> Header \<Rightarrow> Snapshot \<Rightarrow> sigcache \<Rightarrow>
    (congress_error + Snapshot) \<times> sigcache" where
  "apply_header env config header snap sigcache =
     (let number = number_u64 header;
          limit = sign_limit (Validators snap);
          recents = (if number \<ge> limit then AList.delete (number - limit) (Recents snap)
                     else Recents snap)
      in case ecrecover env header sigcache of
           (Inl err, sigcache) \<Rightarrow> (Inl err, sigcache)
         | (Inr validator, sigcache) \<Rightarrow>
             (if validator \<notin> Validators snap then (Inl errUnauthorizedValidator, sigcache)
              else if list_ex (\<lambda>(seen, recent). recent = validator) recents
                then (Inl errRecentlySigned, sigcache)
              else
                let recents = AList.update number validator recents in
                if number > 0 \<and> number mod Epoch config = 0 then
                  (case extra_validators (Extra header) of
                     None \<Rightarrow> (Inl Panic, sigcache)
                   | Some validators \<Rightarrow>
                       let newValidators = set validators;
                           limit = sign_limit newValidators;
                           recents = fold (\<lambda>i. AList.delete (number - limit - of_nat i))
                             [0 ..< card (Validators snap) div 2 - card newValidators div 2] recents
                       in (Inr (snap\<lparr>Recents := recents, Validators := newValidators\<rparr>), sigcache))
                else (Inr (snap\<lparr>Recents := recents\<rparr>), sigcache)))"

fun apply_loop ::
  "crypto_env \<Rightarrow> CongressConfig \<Rightarrow> Header list \<Rightarrow> Snapshot \<Rightarrow> sigcache \<Rightarrow>
    (congress_error + Snapshot) \<times> sigcache" where
  "apply_loop env config [] snap sigcache = (Inr snap, sigcache)"
| "apply_loop env config (header # headers) snap sigcache =
     (case apply_header env config header snap sigcache of
        (Inl err, sigcache) \<Rightarrow> (Inl err, sigcache)
      | (Inr snap, sigcache) \<Rightarrow> apply_loop env config headers snap sigcache)"

fun contiguous :: "Header list \<Rightarrow> bool" where
  "contiguous (h1 # h2 # hs) \<longleftrightarrow> number_u64 h2 = number_u64 h1 + 1 \<and> contiguous (h2 # hs)"
| "contiguous _ \<longleftrightarrow> True"

definition snap_apply ::
  "crypto_env \<Rightarrow> CongressConfig \<Rightarrow> Snapshot \<Rightarrow> Header list \<Rightarrow> sigcache \<Rightarrow>
    (congress_error + Snapshot) \<times> sigcache" where
  "snap_apply env config s headers sigcache =
     (if headers = [] then (Inr s, sigcache)
      else if \<not> contiguous headers then (Inl errInvalidVotingChain, sigcache)
      else if number_u64 (hd headers) \<noteq> snap_Number s + 1 then (Inl errInvalidVotingChain, sigcache)
      else case apply_loop env config headers (snap_copy s) sigcache of
             (Inl err, sigcache) \<Rightarrow> (Inl err, sigcache)
           | (Inr snap, sigcache) \<Rightarrow>
               (Inr (snap\<lparr>snap_Number := snap_Number snap + of_nat (length headers),
                          snap_Hash := header_Hash (Keccak256 env) (last headers)\<rparr>), sigcache))"

definition snap_validators :: "Snapshot \<Rightarrow> address list" where
  "snap_validators s = sorted_list_of_set (Validators s)"

text \<open>The position of a validator in the sorted list, the length of the list when it is not
  there; the remainder panics when there are no validators.\<close>

fun inturn_loop :: "address list \<Rightarrow> address \<Rightarrow> nat" where
  "inturn_loop [] validator = 0"
| "inturn_loop (v # vs) validator = (if v \<noteq> validator then Suc (inturn_loop vs validator) else 0)"

definition inturn :: "Snapshot \<Rightarrow> u64 \<Rightarrow> address \<Rightarrow> bool option" where
  "inturn s number validator =
     (let validators = snap_validators s; offset = inturn_loop validators validator in
      if validators = [] then None
      else Some (number mod of_nat (length validators) = of_nat offset))"

subsection \<open>Association lists\<close>

lemma alist_update_fresh: "k \<notin> fst ` set al \<Longrightarrow> AList.update k v al = al @ [(k, v)]"
  by (induction al) auto

lemma fold_update_fresh:
  "distinct (map fst (al @ bl)) \<Longrightarrow> fold (\<lambda>(b, v). AList.update b v) al bl = bl @ al"
proof (induction al arbitrary: bl)
  case (Cons p al)
  obtain k v where p: "p = (k, v)" by (cases p)
  have "AList.update k v bl = bl @ [(k, v)]"
    using Cons.prems by (intro alist_update_fresh) (auto simp: p)
  moreover have "distinct (map fst (al @ (bl @ [(k, v)])))" using Cons.prems by (auto simp: p)
  ultimately show ?case using Cons.IH [of "bl @ [(k, v)]"] by (simp add: p)
qed simp

lemma snap_copy_id: "distinct (map fst (Recents s)) \<Longrightarrow> snap_copy s = s"
  using fold_update_fresh [of "Recents s" "[]"] by (simp add: snap_copy_def)

lemma alist_delete_filter: "AList.delete k al = filter (\<lambda>p. fst p \<noteq> k) al"
  by (induction al) (auto simp: AList.delete_eq)

lemma fold_delete:
  "fold (\<lambda>i. AList.delete (f i)) is al = filter (\<lambda>p. fst p \<notin> f ` set is) al"
  by (induction "is" arbitrary: al) (auto simp: alist_delete_filter intro!: filter_cong)

lemma list_ex_snd: "list_ex (\<lambda>(seen, recent). recent = v) al \<longleftrightarrow> v \<in> snd ` set al"
  by (force simp: list_ex_iff)

subsection \<open>The recent signers\<close>

text \<open>At block \<open>n\<close>, the recent signers are those of some of the last \<open>limit\<close> blocks, and no
  validator is among them twice.\<close>

definition recents_ok :: "nat \<Rightarrow> address set \<Rightarrow> (u64 \<times> address) list \<Rightarrow> bool" where
  "recents_ok n vals rs \<longleftrightarrow> distinct (map fst rs) \<and> distinct (map snd rs) \<and>
     (\<forall>k \<in> fst ` set rs. unat k \<le> n \<and> n < unat k + (card vals div 2 + 1))"

definition vals_ok :: "address set \<Rightarrow> bool" where
  "vals_ok vals \<longleftrightarrow> finite vals \<and> card vals < 2 ^ 63"

definition snap_ok :: "Snapshot \<Rightarrow> bool" where
  "snap_ok s \<longleftrightarrow> vals_ok (Validators s) \<and> recents_ok (unat (snap_Number s)) (Validators s) (Recents s)"

lemma unat_sign_limit: "vals_ok vals \<Longrightarrow> unat (sign_limit vals) = card vals div 2 + 1"
  unfolding sign_limit_def vals_ok_def by (intro unat_of_nat_small) (simp, linarith)

lemma recents_ok_filter: "recents_ok n vals rs \<Longrightarrow> recents_ok n vals (filter P rs)"
  by (auto simp: recents_ok_def distinct_map_filter)

text \<open>The entry the block \<open>n + 1\<close> shifts out, and the window after it.\<close>

definition shifted :: "u64 \<Rightarrow> address set \<Rightarrow> (u64 \<times> address) list \<Rightarrow> (u64 \<times> address) list" where
  "shifted number vals rs =
     (if number \<ge> sign_limit vals then AList.delete (number - sign_limit vals) rs else rs)"

lemma shifted_window:
  assumes "recents_ok n vals rs" "vals_ok vals" "unat number = Suc n"
  shows "distinct (map fst (shifted number vals rs)) \<and> distinct (map snd (shifted number vals rs)) \<and>
    set (shifted number vals rs) = {(k, v) \<in> set rs. n < unat k + card vals div 2} \<and>
    number \<notin> fst ` set (shifted number vals rs)"
proof -
  note L = unat_sign_limit [OF assms(2)]
  have win: "unat k \<le> n \<and> n < unat k + (card vals div 2 + 1)" if "(k, v) \<in> set rs" for k v
    using assms(1) that by (force simp: recents_ok_def)
  have fresh: "number \<notin> fst ` set rs"
    using win assms(3) by (metis Suc_n_not_le_n imageE prod.collapse)
  show ?thesis
  proof (cases "number \<ge> sign_limit vals")
    case True
    then have u: "unat (number - sign_limit vals) = n - card vals div 2" "card vals div 2 \<le> n"
      using assms(3) L by (simp_all add: unat_sub word_le_nat_alt)
    have iff: "k \<noteq> number - sign_limit vals \<longleftrightarrow> n < unat k + card vals div 2"
      if "(k, v) \<in> set rs" for k v
      using win [OF that] u by (auto simp: word_unat_eq_iff)
    have "set (shifted number vals rs) = {(k, v) \<in> set rs. n < unat k + card vals div 2}"
      using True iff by (auto simp: shifted_def alist_delete_filter) blast+
    with True fresh assms(1) show ?thesis
      by (auto simp: shifted_def alist_delete_filter recents_ok_def distinct_map_filter)
  next
    case False
    then have "n < card vals div 2" using assms(3) L by (simp add: word_le_nat_alt)
    with False fresh assms(1) show ?thesis by (auto simp: shifted_def recents_ok_def)
  qed
qed

lemma shifted_update:
  assumes "recents_ok n vals rs" "vals_ok vals" "unat number = Suc n" "v \<notin> snd ` set (shifted number vals rs)"
  shows "AList.update number v (shifted number vals rs) = shifted number vals rs @ [(number, v)]"
    "recents_ok (Suc n) vals (shifted number vals rs @ [(number, v)])"
proof -
  note w = shifted_window [OF assms(1-3)]
  show "AList.update number v (shifted number vals rs) = shifted number vals rs @ [(number, v)]"
    using w by (intro alist_update_fresh) blast
  have "unat k \<le> n" if "(k, u) \<in> set (shifted number vals rs)" for k u
    using that w assms(1) by (force simp: recents_ok_def)
  then show "recents_ok (Suc n) vals (shifted number vals rs @ [(number, v)])"
    using w assms(3,4) unfolding recents_ok_def by (force simp: image_iff)
qed

text \<open>When the set of validators shrinks, the entries that the smaller limit no longer covers are
  removed; when it grows, the window only gets wider.\<close>

lemma epoch_recents:
  assumes "recents_ok n vals rs" "vals_ok vals" "vals_ok vals'" "unat number = n"
  shows "recents_ok n vals' (fold (\<lambda>i. AList.delete (number - sign_limit vals' - of_nat i))
    [0 ..< card vals div 2 - card vals' div 2] rs)"
proof -
  let ?D = "(\<lambda>i. number - sign_limit vals' - of_nat i) ` set [0 ..< card vals div 2 - card vals' div 2]"
  have "n < unat k + (card vals' div 2 + 1)" if k: "k \<in> fst ` set rs" "k \<notin> ?D" for k
  proof (rule ccontr)
    assume far: "\<not> ?thesis"
    have win: "unat k \<le> n" "n < unat k + (card vals div 2 + 1)"
      using assms(1) k(1) by (auto simp: recents_ok_def)
    define i where "i = n - (card vals' div 2 + 1) - unat k"
    have i: "i < card vals div 2 - card vals' div 2" "i \<le> n - (card vals' div 2 + 1)"
      "n - (card vals' div 2 + 1) - i = unat k" using far win by (auto simp: i_def)
    have le: "sign_limit vals' \<le> number"
      using far assms(4) by (simp add: word_le_nat_alt unat_sign_limit [OF assms(3)])
    then have a: "unat (number - sign_limit vals') = n - (card vals' div 2 + 1)"
      using assms(4) by (simp add: unat_sub word_le_nat_alt unat_sign_limit [OF assms(3)])
    have i64: "unat (of_nat i :: u64) = i"
      using unat_u64_less [of number] assms(4) i(2) by (intro unat_of_nat_small) linarith
    have "(of_nat i :: u64) \<le> number - sign_limit vals'" using i(2) by (simp only: word_le_nat_alt a i64)
    then have "unat (number - sign_limit vals' - of_nat i) = unat k"
      unfolding word_le_nat_alt using i(3) by (subst unat_sub) (simp_all only: word_le_nat_alt a i64)
    then have "k = number - sign_limit vals' - of_nat i" by (simp only: word_unat_eq_iff)
    with i(1) k(2) show False by fastforce
  qed
  then show ?thesis
    using assms(1) unfolding fold_delete recents_ok_def by (auto simp: distinct_map_filter)
qed

text \<open>A checkpoint header lists fewer validators than it has bytes.\<close>

lemma extra_validators_ok:
  assumes "extra_validators extra = Some vs" "length extra < 2 ^ 63"
  shows "vals_ok (set vs)"
proof -
  have "length vs \<le> length extra"
    using assms(1) by (auto simp: extra_validators_def split: if_splits intro: le_trans [OF div_le_dividend])
  then show ?thesis using card_length [of vs] assms(2) by (simp add: vals_ok_def)
qed

lemma apply_header_cases:
  assumes "apply_header env config header snap sigs = (Inr snap', sigs')"
  obtains v where "ecrecover env header sigs = (Inr v, sigs')" "v \<in> Validators snap"
    "v \<notin> snd ` set (shifted (number_u64 header) (Validators snap) (Recents snap))"
    "\<not> (number_u64 header > 0 \<and> number_u64 header mod Epoch config = 0)"
    "snap' = snap\<lparr>Recents := AList.update (number_u64 header) v
       (shifted (number_u64 header) (Validators snap) (Recents snap))\<rparr>"
  | v vs where "ecrecover env header sigs = (Inr v, sigs')" "v \<in> Validators snap"
    "v \<notin> snd ` set (shifted (number_u64 header) (Validators snap) (Recents snap))"
    "number_u64 header > 0" "number_u64 header mod Epoch config = 0"
    "extra_validators (Extra header) = Some vs"
    "snap' = snap\<lparr>Recents := fold (\<lambda>i. AList.delete (number_u64 header - sign_limit (set vs) - of_nat i))
         [0 ..< card (Validators snap) div 2 - card (set vs) div 2]
         (AList.update (number_u64 header) v
           (shifted (number_u64 header) (Validators snap) (Recents snap))),
       Validators := set vs\<rparr>"
proof -
  obtain r sg where e: "ecrecover env header sigs = (r, sg)" by (cases "ecrecover env header sigs")
  with assms obtain v where v: "r = Inr v" "sg = sigs'" "v \<in> Validators snap"
    "v \<notin> snd ` set (shifted (number_u64 header) (Validators snap) (Recents snap))"
    by (cases r)
      (auto simp: apply_header_def Let_def list_ex_snd shifted_def split: if_splits option.splits)
  show thesis
  proof (cases "number_u64 header > 0 \<and> number_u64 header mod Epoch config = 0")
    case False
    with assms e v show thesis
      by (intro that(1)) (auto simp: apply_header_def Let_def list_ex_snd shifted_def)
  next
    case True
    with assms e v obtain vs where "extra_validators (Extra header) = Some vs"
      by (auto simp: apply_header_def Let_def list_ex_snd shifted_def split: option.splits if_splits)
    with True assms e v show thesis
      by (intro that(2)) (auto simp: apply_header_def Let_def list_ex_snd shifted_def)
  qed
qed

lemma apply_header_ok:
  assumes "apply_header env config header snap sigs = (Inr snap', sigs')"
    and "recents_ok n (Validators snap) (Recents snap)" "vals_ok (Validators snap)"
    and "unat (number_u64 header) = Suc n" "length (Extra header) < 2 ^ 63"
  shows "recents_ok (Suc n) (Validators snap') (Recents snap') \<and> vals_ok (Validators snap') \<and>
    snap_Number snap' = snap_Number snap \<and> snap_Hash snap' = snap_Hash snap"
  using assms(1)
proof (cases rule: apply_header_cases)
  case (1 v)
  with shifted_update [OF assms(2-4) 1(3)] assms(3) show ?thesis by simp
next
  case (2 v vs)
  note ok = extra_validators_ok [OF 2(6) assms(5)]
  show ?thesis
    using epoch_recents [OF shifted_update(2) [OF assms(2-4) 2(3)] assms(3) ok assms(4)]
      shifted_update(1) [OF assms(2-4) 2(3)] 2(7) ok by simp
qed

text \<open>The numbers of contiguous headers.\<close>

lemma contiguous_nth:
  "contiguous hs \<Longrightarrow> i < length hs \<Longrightarrow> number_u64 (hs ! i) = number_u64 (hd hs) + of_nat i"
proof (induction hs arbitrary: i rule: contiguous.induct)
  case (1 h1 h2 hs)
  then show ?case by (cases i) (auto simp: algebra_simps)
qed auto

lemma contiguous_Cons:
  "contiguous (h # hs) \<longleftrightarrow> contiguous hs \<and> (hs = [] \<or> number_u64 (hd hs) = number_u64 h + 1)"
  by (cases hs) auto

lemma contiguous_append:
  "contiguous (xs @ ys) \<longleftrightarrow> contiguous xs \<and> contiguous ys \<and>
    (xs = [] \<or> ys = [] \<or> number_u64 (hd ys) = number_u64 (last xs) + 1)"
  by (induction xs) (auto simp: contiguous_Cons)

text \<open>The loop over contiguous headers from block \<open>n\<close> on.\<close>

lemma unat_Suc64: "unat (w :: u64) = n \<Longrightarrow> Suc n < 2 ^ 64 \<Longrightarrow> unat (w + 1) = Suc n"
  by (subst unat_add_lem [THEN iffD1]) auto

lemma apply_loop_ok:
  assumes "apply_loop env config hs snap sigs = (Inr snap', sigs')"
    and "recents_ok n (Validators snap) (Recents snap)" "vals_ok (Validators snap)"
    and "contiguous hs" "hs \<noteq> [] \<longrightarrow> unat (number_u64 (hd hs)) = Suc n" "n + length hs < 2 ^ 64"
    and "\<forall>h \<in> set hs. length (Extra h) < 2 ^ 63"
  shows "recents_ok (n + length hs) (Validators snap') (Recents snap') \<and> vals_ok (Validators snap') \<and>
    snap_Number snap' = snap_Number snap \<and> snap_Hash snap' = snap_Hash snap"
  using assms
proof (induction hs arbitrary: snap sigs n)
  case (Cons h hs)
  then obtain s1 sg1 where s1: "apply_header env config h snap sigs = (Inr s1, sg1)"
    "apply_loop env config hs s1 sg1 = (Inr snap', sigs')"
    by (auto split: prod.splits sum.splits)
  have ok: "recents_ok (Suc n) (Validators s1) (Recents s1) \<and> vals_ok (Validators s1) \<and>
      snap_Number s1 = snap_Number snap \<and> snap_Hash s1 = snap_Hash snap"
    by (rule apply_header_ok [OF s1(1) Cons.prems(2,3)]) (use Cons.prems in auto)
  have "hs \<noteq> [] \<longrightarrow> unat (number_u64 (hd hs)) = Suc (Suc n)"
    using Cons.prems by (auto simp: contiguous_Cons intro!: unat_Suc64) (cases hs; simp)
  with Cons.IH [OF s1(2), of "Suc n"] ok Cons.prems show ?case by (auto simp: contiguous_Cons)
qed simp

end
