(* ===== verification/Congress_Seal.thy ===== *)
theory Congress_Seal
  imports Congress_Snapshot
begin

text \<open>
  What the seal of a congress block covers: the RLP form that is signed is the encoding of the
  header without its last 65 bytes of extra data and without its base fee. The end of the theory
  holds a concrete environment and headers for it, on which the statements about the engine are
  evaluated.
\<close>

definition unsealed :: "Header \<Rightarrow> Header" where
  "unsealed h = h\<lparr>Extra := take (length (Extra h) - extraSeal) (Extra h), BaseFee := None\<rparr>"

lemma enc_list_interface: "enc_list (map (\<lambda>v. GInterface (Some v)) vs) = enc_list vs"
  by (induction vs) (auto split: sum.split)

lemma enc_sigHeader: "enc (sigHeader_gval h) = enc (header_gval (unsealed h))"
proof -
  let ?g = "unsealed h"
  have "map snd (structFields (map2 (\<lambda>t v. (isZero t v, v)) header_types (header_values ?g)
       @ [(BaseFee ?g = None, GBigIntPtr (BaseFee ?g))]) 15) = header_values ?g"
    by (simp add: structFields_def header_types_def header_values_def lastField.simps unsealed_def)
  then have "enc (header_gval ?g) = map_sum id rlp_list (enc_list (header_values ?g))"
    by (simp add: header_gval_def)
  moreover have "sigHeader_gval h = GSlice (map (\<lambda>v. GInterface (Some v)) (header_values ?g))"
    by (simp add: sigHeader_gval_def header_values_def unsealed_def)
  ultimately show ?thesis by (simp add: enc_list_interface)
qed

lemma unsealed_sane:
  "wf_header h \<Longrightarrow> wf_header (unsealed h)"
  "SanityCheck h = None \<Longrightarrow> SanityCheck (unsealed h) = None"
  by (auto simp: wf_header_def SanityCheck_def unsealed_def split: if_splits)

lemma encodeSigHeader_sane:
  assumes "wf_header h" "SanityCheck h = None" "extraSeal \<le> length (Extra h)"
  shows "encodeSigHeader h w = Some (w @ projr (enc (header_gval (unsealed h))))"
proof -
  have "encodable (sigHeader_gval h)"
    using sane_header_encodable [OF unsealed_sane(1) [OF assms(1)] unsealed_sane(2) [OF assms(2)]]
    by (simp add: encodable_def enc_sigHeader)
  from rlp_Encode_buffer [OF this] show ?thesis
    using assms(3) by (simp add: encodeSigHeader_def enc_sigHeader)
qed

text \<open>C22: what the seal commits to. The bytes that a validator signs determine every field of the
  header but the 65 bytes of the seal and the base fee, and depend on nothing else.\<close>

theorem CongressRLP_binding:
  assumes "wf_header h" "SanityCheck h = None" "extraSeal \<le> length (Extra h)"
    and "wf_header h'" "SanityCheck h' = None" "extraSeal \<le> length (Extra h')"
  shows "CongressRLP h = CongressRLP h' \<longleftrightarrow> unsealed h = unsealed h'"
proof -
  note s = unsealed_sane(1) [OF assms(1)] unsealed_sane(2) [OF assms(2)]
    unsealed_sane(1) [OF assms(4)] unsealed_sane(2) [OF assms(5)]
  have "\<exists>b. enc (header_gval (unsealed h)) = Inr b" "\<exists>b. enc (header_gval (unsealed h')) = Inr b"
    using encodableD [OF sane_header_encodable] s by blast+
  then show ?thesis
    using header_enc_inj [of "unsealed h" "unsealed h'"] s encodeSigHeader_sane [OF assms(1-3)]
      encodeSigHeader_sane [OF assms(4-6)]
    by (auto simp: CongressRLP_def)
qed

text \<open>C23: the seal does not cover the base fee. Changing the base fee of a sealed header keeps the
  hash that is signed, and so the signer recovered from the seal.\<close>

theorem SealHash_ignores_BaseFee:
  "SealHash k (h\<lparr>BaseFee := f\<rparr>) = SealHash k h \<and> recover env (h\<lparr>BaseFee := f\<rparr>) = recover env h"
proof -
  have e: "encodeSigHeader (h\<lparr>BaseFee := f\<rparr>) w = encodeSigHeader h w" for w
    by (simp add: encodeSigHeader_def sigHeader_gval_def)
  then have "SealHash k (h\<lparr>BaseFee := f\<rparr>) = SealHash k h" for k by (simp add: SealHash_def)
  then show ?thesis by (simp add: recover_def cong: option.case_cong)
qed

subsection \<open>A concrete environment\<close>

text \<open>The digest is the data itself, the seal holds the address of its signer in its first 20
  bytes, and the cache keeps nothing.\<close>

definition sample_env :: crypto_env where
  "sample_env = \<lparr>Keccak256 = (\<lambda>b. b),
     Ecrecover = (\<lambda>sealhash sig. Some (replicate 13 0 @ take 20 sig)), keep_sigs = (\<lambda>c. [])\<rparr>"

definition sample_addr :: "byte \<Rightarrow> address" where
  "sample_addr b = replicate 20 b"

definition sample_header :: "int \<Rightarrow> byte \<Rightarrow> Header" where
  "sample_header n b = zero_header\<lparr>Number := Some n, Coinbase := sample_addr b, Difficulty := Some 1,
     Extra := replicate 32 0 @ sample_addr b @ replicate 45 0\<rparr>"

lemma BitLen_1 [simp]: "BitLen (Suc 0) = 1"
  by (simp add: BitLen.simps)

lemma sample_header_sane:
  assumes "0 \<le> n" "n < 2 ^ 64"
  shows "wf_header (sample_header n b)" "SanityCheck (sample_header n b) = None"
  using assms
  by (auto simp: sample_header_def zero_header_def sample_addr_def wf_header_def SanityCheck_def)

lemma length_sample [simp]:
  "length (Extra (sample_header n b)) = 97" "length (sample_addr b) = 20"
  by (simp_all add: sample_header_def sample_addr_def)

lemma recover_sample:
  assumes "0 \<le> n" "n < 2 ^ 64"
  shows "recover sample_env (sample_header n b) = Inr (sample_addr b)"
proof -
  have "drop 32 (Extra (sample_header n b)) = sample_addr b @ replicate 45 0"
    by (simp add: sample_header_def)
  then show ?thesis
    using encodeSigHeader_sane [OF sample_header_sane [OF assms]]
    by (simp add: recover_def SealHash_def) (simp add: sample_env_def)
qed

lemma ecrecover_sample [simp]:
  "0 \<le> n \<Longrightarrow> n < 2 ^ 64 \<Longrightarrow>
   ecrecover sample_env (sample_header n b) [] = (Inr (sample_addr b), [])"
  by (simp add: ecrecover_def recover_sample) (simp add: sample_env_def)

lemma sample_addr_inj [simp]: "sample_addr a = sample_addr b \<longleftrightarrow> a = b"
  by (simp add: sample_addr_def)

lemma number_sample [simp]: "number_u64 (sample_header n b) = word_of_int \<bar>n\<bar>"
  by (simp add: number_u64_def sample_header_def)

lemma sample_Hash_inj:
  assumes "0 \<le> n" "n < 2 ^ 64" "0 \<le> m" "m < 2 ^ 64"
  shows "header_Hash (Keccak256 sample_env) (sample_header n a) =
    header_Hash (Keccak256 sample_env) (sample_header m b) \<longleftrightarrow> sample_header n a = sample_header m b"
proof
  note sn = sample_header_sane [OF assms(1,2), of a] and sm = sample_header_sane [OF assms(3,4), of b]
  assume "header_Hash (Keccak256 sample_env) (sample_header n a) =
    header_Hash (Keccak256 sample_env) (sample_header m b)"
  then have "projr (enc (header_gval (sample_header n a))) = projr (enc (header_gval (sample_header m b)))"
    using sn sm sane_header_encodable by (simp add: header_Hash_def rlpHash_enc) (simp add: sample_env_def)
  moreover have "\<exists>b'. enc (header_gval (sample_header n a)) = Inr b'"
    "\<exists>b'. enc (header_gval (sample_header m b)) = Inr b'"
    using encodableD sane_header_encodable sn sm by blast+
  ultimately have "enc (header_gval (sample_header n a)) = enc (header_gval (sample_header m b))" by auto
  then show "sample_header n a = sample_header m b" using header_enc_inj sn sm by blast
qed simp

theorem CongressRLP_binding_witness:
  "CongressRLP (sample_header 1 2) \<noteq> CongressRLP (sample_header 2 2) \<and>
   CongressRLP (sample_header 1 2) = CongressRLP (sample_header 1 2\<lparr>BaseFee := Some 7\<rparr>)"
proof -
  have w: "wf_header (sample_header 1 2)" "SanityCheck (sample_header 1 2) = None"
    "wf_header (sample_header 2 2)" "SanityCheck (sample_header 2 2) = None"
    by (simp_all add: sample_header_sane)
  then have f: "wf_header (sample_header 1 2\<lparr>BaseFee := Some 7\<rparr>)" "SanityCheck (sample_header 1 2\<lparr>BaseFee := Some 7\<rparr>) = None"
    using BitLen_less [of 7 3] by (auto simp: wf_header_def SanityCheck_def split: if_splits)
  have "unsealed (sample_header 1 2) \<noteq> unsealed (sample_header 2 2)"
    by (simp add: unsealed_def sample_header_def zero_header_def)
  moreover have "unsealed (sample_header 1 2) = unsealed (sample_header 1 2\<lparr>BaseFee := Some 7\<rparr>)"
    by (simp add: unsealed_def)
  ultimately show ?thesis
    using CongressRLP_binding [OF w(1,2) _ w(3,4)] CongressRLP_binding [OF w(1,2) _ f] by simp
qed

end
