(* ===== verification/Congress_Snapshot_Correct.thy ===== *)
theory Congress_Snapshot_Correct
  imports Congress_Seal
begin

text \<open>
  What the snapshots of congress guarantee: the window of recent signers is an invariant of
  \<open>apply\<close>, applying headers in batches or one by one is the same, no validator seals two
  blocks within half the validator set, yet half of the validators can always seal the next
  block, and exactly one of them is in turn.
\<close>

subsection \<open>The invariant\<close>

lemma newSnapshot_ok: "length vs < 2 ^ 63 \<Longrightarrow> snap_ok (newSnapshot n h vs)"
  using card_length [of vs] by (simp add: newSnapshot_def snap_ok_def vals_ok_def recents_ok_def)

lemma snap_apply_cases:
  assumes "snap_apply env config s hs sigs = (Inr s', sigs')"
  obtains "hs = []" "s' = s" "sigs' = sigs"
  | snap where "hs \<noteq> []" "contiguous hs" "number_u64 (hd hs) = snap_Number s + 1"
    "apply_loop env config hs (snap_copy s) sigs = (Inr snap, sigs')"
    "s' = snap\<lparr>snap_Number := snap_Number snap + of_nat (length hs),
               snap_Hash := header_Hash (Keccak256 env) (last hs)\<rparr>"
  using assms by (auto simp: snap_apply_def split: if_splits prod.splits sum.splits)

lemma snap_apply_ok:
  assumes "snap_apply env config s hs sigs = (Inr s', sigs')" "snap_ok s"
    and "unat (snap_Number s) + length hs < 2 ^ 64" "\<forall>h \<in> set hs. length (Extra h) < 2 ^ 63"
  shows "snap_ok s' \<and> unat (snap_Number s') = unat (snap_Number s) + length hs \<and>
    snap_Number s' = snap_Number s + of_nat (length hs)"
  using assms(1)
proof (cases rule: snap_apply_cases)
  case 1
  with assms(2) show ?thesis by simp
next
  case (2 snap)
  have cp: "snap_copy s = s" using assms(2) by (intro snap_copy_id) (simp add: snap_ok_def recents_ok_def)
  have "unat (number_u64 (hd hs)) = Suc (unat (snap_Number s))"
    using 2(1,3) assms(3) by (cases hs) (auto intro!: unat_Suc64)
  with apply_loop_ok [OF 2(4) [unfolded cp], of "unat (snap_Number s)"] 2 assms
  have ok: "recents_ok (unat (snap_Number s) + length hs) (Validators snap) (Recents snap)"
    "vals_ok (Validators snap)" "snap_Number snap = snap_Number s"
    by (auto simp: snap_ok_def)
  have "unat (of_nat (length hs) :: u64) = length hs"
    using assms(3) by (intro unat_of_nat_small) linarith
  then have "unat (snap_Number s + of_nat (length hs)) = unat (snap_Number s) + length hs"
    using assms(3) by (subst unat_add_lem [THEN iffD1]) simp_all
  with ok 2(5) show ?thesis by (simp add: snap_ok_def)
qed

text \<open>C17: the window of recent signers is an invariant of \<open>apply\<close>. A snapshot built from
  genesis by \<open>apply\<close> lists, under distinct blocks of the last \<open>len(Validators)/2 + 1\<close> ones,
  distinct signers, also across epochs that change the validators; it advances by the number of
  headers applied and takes the hash of the last.\<close>

theorem snap_apply_invariant:
  assumes "snap_apply env config s hs sigs = (Inr s', sigs')" "snap_ok s"
    and "unat (snap_Number s) + length hs < 2 ^ 64" "\<forall>h \<in> set hs. length (Extra h) < 2 ^ 63"
  shows "snap_ok s' \<and> unat (snap_Number s') = unat (snap_Number s) + length hs \<and>
    snap_Hash s' = (if hs = [] then snap_Hash s else header_Hash (Keccak256 env) (last hs))"
proof -
  have "snap_Hash s' = (if hs = [] then snap_Hash s else header_Hash (Keccak256 env) (last hs))"
    using assms(1) by (cases rule: snap_apply_cases) simp_all
  with snap_apply_ok [OF assms] show ?thesis by blast
qed

subsection \<open>Batches\<close>

lemma snap_apply_Nil [simp]: "snap_apply env config s [] sigs = (Inr s, sigs)"
  by (simp add: snap_apply_def)

lemma apply_loop_append:
  "apply_loop env config (hs1 @ hs2) snap sigs =
    (case apply_loop env config hs1 snap sigs of
       (Inl err, sigs) \<Rightarrow> (Inl err, sigs)
     | (Inr snap, sigs) \<Rightarrow> apply_loop env config hs2 snap sigs)"
  by (induction hs1 arbitrary: snap sigs) (auto split: prod.splits sum.splits)

lemma apply_header_stamp:
  "apply_header env config h (snap\<lparr>snap_Number := n, snap_Hash := b\<rparr>) sigs =
    (case apply_header env config h snap sigs of
       (Inl err, sigs) \<Rightarrow> (Inl err, sigs)
     | (Inr snap, sigs) \<Rightarrow> (Inr (snap\<lparr>snap_Number := n, snap_Hash := b\<rparr>), sigs))"
  by (simp add: apply_header_def Let_def split: prod.split sum.split option.split)

lemma apply_loop_stamp:
  "apply_loop env config hs (snap\<lparr>snap_Number := n, snap_Hash := b\<rparr>) sigs =
    (case apply_loop env config hs snap sigs of
       (Inl err, sigs) \<Rightarrow> (Inl err, sigs)
     | (Inr snap, sigs) \<Rightarrow> (Inr (snap\<lparr>snap_Number := n, snap_Hash := b\<rparr>), sigs))"
  by (induction hs arbitrary: snap sigs) (auto simp: apply_header_stamp split: prod.splits sum.splits)

lemma apply_loop_Number:
  "apply_loop env config hs snap sigs = (Inr u, g) \<Longrightarrow> snap_Number u = snap_Number snap"
proof (induction hs arbitrary: snap sigs)
  case (Cons h hs)
  then obtain s1 sg1 where s1: "apply_header env config h snap sigs = (Inr s1, sg1)"
    "apply_loop env config hs s1 sg1 = (Inr u, g)"
    by (auto split: prod.splits sum.splits)
  from s1(1) have "snap_Number s1 = snap_Number snap" by (cases rule: apply_header_cases) simp_all
  with Cons.IH [OF s1(2)] show ?case by simp
qed simp

lemma snap_apply_iff:
  assumes "hs \<noteq> []" "snap_copy s = s"
  shows "snap_apply env config s hs sigs = (Inr s', g) \<longleftrightarrow>
    contiguous hs \<and> number_u64 (hd hs) = snap_Number s + 1 \<and>
    (\<exists>u. apply_loop env config hs s sigs = (Inr u, g) \<and>
       s' = u\<lparr>snap_Number := snap_Number u + of_nat (length hs),
              snap_Hash := header_Hash (Keccak256 env) (last hs)\<rparr>)"
proof (cases "apply_loop env config hs s sigs")
  case (Pair r g')
  with assms show ?thesis by (cases r) (auto simp: snap_apply_def)
qed

lemma last_number:
  "contiguous hs \<Longrightarrow> hs \<noteq> [] \<Longrightarrow> number_u64 (last hs) + 1 = number_u64 (hd hs) + of_nat (length hs)"
  using contiguous_nth [of hs "length hs - 1"]
  by (cases hs rule: rev_cases) (simp_all add: last_conv_nth algebra_simps)

text \<open>Applying a chain of headers at once, or a first part of it and then the rest on the
  snapshot that gives, succeeds alike and gives the same snapshot and the same cache of
  signatures. So a snapshot kept in memory or on disk may be used as the start for any later
  block.\<close>

theorem snap_apply_append:
  assumes "snap_ok s" "unat (snap_Number s) + length (hs1 @ hs2) < 2 ^ 64"
    "\<forall>h \<in> set (hs1 @ hs2). length (Extra h) < 2 ^ 63"
  shows "snap_apply env config s (hs1 @ hs2) sigs = (Inr s2, sigs2) \<longleftrightarrow>
    (\<exists>s1 sigs1. snap_apply env config s hs1 sigs = (Inr s1, sigs1) \<and>
       snap_apply env config s1 hs2 sigs1 = (Inr s2, sigs2))"
proof (cases "hs1 = [] \<or> hs2 = []")
  case True
  then show ?thesis by auto
next
  case False
  have cp: "snap_copy t = t" if "snap_ok t" for t
    using that by (intro snap_copy_id) (simp add: snap_ok_def recents_ok_def)
  have start: "number_u64 (hd hs2) = number_u64 (last hs1) + 1 \<longleftrightarrow> number_u64 (hd hs2) = snap_Number s1 + 1"
    if "snap_apply env config s hs1 sigs = (Inr s1, sigs1)" for s1 sigs1
  proof -
    have "snap_Number s1 = snap_Number s + of_nat (length hs1)"
      using snap_apply_ok [OF that assms(1)] assms by simp
    moreover have "contiguous hs1" "number_u64 (hd hs1) = snap_Number s + 1"
      using that False by (auto simp: snap_apply_def split: if_splits)
    ultimately have "number_u64 (last hs1) + 1 = snap_Number s1 + 1"
      using last_number [of hs1] False by (simp add: algebra_simps)
    then show ?thesis by simp
  qed
  have ok1: "snap_ok s1" if "snap_apply env config s hs1 sigs = (Inr s1, sigs1)" for s1 sigs1
    using snap_apply_ok [OF that assms(1)] assms by simp
  show ?thesis
  proof (cases "contiguous hs1 \<and> number_u64 (hd hs1) = snap_Number s + 1")
    case True
    obtain r1 g1 where r1: "apply_loop env config hs1 s sigs = (r1, g1)"
      by (cases "apply_loop env config hs1 s sigs")
    show ?thesis
    proof (cases r1)
      case (Inl e)
      with r1 \<open>\<not> (hs1 = [] \<or> hs2 = [])\<close> cp [OF assms(1)] show ?thesis
        by (simp add: snap_apply_iff apply_loop_append)
    next
      case (Inr t)
      let ?s1 = "t\<lparr>snap_Number := snap_Number t + of_nat (length hs1),
                   snap_Hash := header_Hash (Keccak256 env) (last hs1)\<rparr>"
      have a1: "snap_apply env config s hs1 sigs = (Inr ?s1, g1)"
        using True False r1 Inr assms(1) by (simp add: snap_apply_def cp)
      have t: "contiguous (hs1 @ hs2) \<longleftrightarrow> contiguous hs2 \<and> number_u64 (hd hs2) = snap_Number ?s1 + 1"
        using start [OF a1] True False by (simp only: contiguous_append) auto
      have l2: "apply_loop env config hs2 ?s1 g1 = (case apply_loop env config hs2 t g1 of
         (Inl err, sigs) \<Rightarrow> (Inl err, sigs)
       | (Inr snap, sigs) \<Rightarrow> (Inr (snap\<lparr>snap_Number := snap_Number t + of_nat (length hs1),
           snap_Hash := header_Hash (Keccak256 env) (last hs1)\<rparr>), sigs))"
        by (rule apply_loop_stamp)
      have lhs: "snap_apply env config s (hs1 @ hs2) sigs = (Inr s2, sigs2) \<longleftrightarrow>
          contiguous (hs1 @ hs2) \<and> (\<exists>u. apply_loop env config hs2 t g1 = (Inr u, sigs2) \<and>
            s2 = u\<lparr>snap_Number := snap_Number u + of_nat (length (hs1 @ hs2)),
                   snap_Hash := header_Hash (Keccak256 env) (last hs2)\<rparr>)"
        using True False r1 Inr cp [OF assms(1)]
        by (simp add: snap_apply_iff apply_loop_append del: length_append)
      have rhs: "snap_apply env config ?s1 hs2 g1 = (Inr s2, sigs2) \<longleftrightarrow>
          contiguous (hs1 @ hs2) \<and> (\<exists>u. apply_loop env config hs2 t g1 = (Inr u, sigs2) \<and>
            s2 = u\<lparr>snap_Number := snap_Number t + of_nat (length hs1) + of_nat (length hs2),
                   snap_Hash := header_Hash (Keccak256 env) (last hs2)\<rparr>)"
      proof (cases "apply_loop env config hs2 t g1")
        case (Pair r2 g2)
        then show ?thesis
          using False cp [OF ok1 [OF a1]] by (cases r2) (auto simp: snap_apply_iff t l2)
      qed
      have "snap_Number u = snap_Number t" if "apply_loop env config hs2 t g1 = (Inr u, sigs2)" for u
        using that by (rule apply_loop_Number)
      then have "snap_apply env config s (hs1 @ hs2) sigs = (Inr s2, sigs2) \<longleftrightarrow>
          snap_apply env config ?s1 hs2 g1 = (Inr s2, sigs2)"
        unfolding lhs rhs by (auto simp: add.assoc)
      then show ?thesis using a1 by simp
    qed
  next
    case False
    with \<open>\<not> (hs1 = [] \<or> hs2 = [])\<close> cp [OF assms(1)] show ?thesis
      by (simp add: snap_apply_iff contiguous_append) blast
  qed
qed

subsection \<open>The cache of signatures\<close>

text \<open>Of an LRU cache the engine relies on one thing: what it holds was put there. Dropping
  entries is its business.\<close>

definition keeps_entries :: "crypto_env \<Rightarrow> bool" where
  "keeps_entries env \<longleftrightarrow> (\<forall>c. map_of (keep_sigs env c) \<subseteq>\<^sub>m map_of c)"

text \<open>A cache that holds the signers of headers in \<open>H\<close>, whose hashes are different.\<close>

definition sigs_ok :: "crypto_env \<Rightarrow> Header set \<Rightarrow> sigcache \<Rightarrow> bool" where
  "sigs_ok env H sigs \<longleftrightarrow> inj_on (header_Hash (Keccak256 env)) H \<and>
     (\<forall>h \<in> H. \<forall>a. map_of sigs (header_Hash (Keccak256 env) h) = Some a \<longrightarrow> recover env h = Inr a)"

lemma ecrecover_recover:
  assumes "keeps_entries env" "sigs_ok env H sigs" "h \<in> H"
  shows "fst (ecrecover env h sigs) = recover env h \<and> sigs_ok env H (snd (ecrecover env h sigs))"
proof (cases "map_of sigs (header_Hash (Keccak256 env) h)")
  case None
  let ?hash = "header_Hash (Keccak256 env)"
  show ?thesis
  proof (cases "recover env h")
    case (Inr v)
    let ?c = "keep_sigs env (AList.update (?hash h) v sigs)"
    have "recover env h' = Inr a" if "h' \<in> H" "map_of ?c (?hash h') = Some a" for h' a
    proof -
      have "map_of (AList.update (?hash h) v sigs) (?hash h') = Some a"
        using assms(1) that(2) by (auto simp: keeps_entries_def map_le_def dom_def)
      then have "((map_of sigs)(?hash h \<mapsto> v)) (?hash h') = Some a" by (simp add: update_conv')
      then show ?thesis
        using assms(2,3) that(1) Inr by (auto simp: sigs_ok_def dest: inj_onD split: if_splits)
    qed
    with None Inr assms(2) show ?thesis by (simp add: ecrecover_def Let_def sigs_ok_def)
  qed (use None assms in \<open>simp add: ecrecover_def Let_def\<close>)
next
  case (Some a)
  with assms show ?thesis by (simp add: ecrecover_def Let_def sigs_ok_def)
qed

text \<open>C20: the cache of signatures changes no result. On headers with different hashes, whatever
  the cache drops, \<open>ecrecover\<close> returns what recovering the key from the seal returns, and
  leaves the cache with that property.\<close>

theorem ecrecover_cache_transparent:
  assumes "keeps_entries env" "sigs_ok env H sigs" "h \<in> H"
  shows "\<exists>sigs'. ecrecover env h sigs = (recover env h, sigs') \<and> sigs_ok env H sigs'"
  using ecrecover_recover [OF assms] by (metis prod.collapse)

subsection \<open>How often a validator seals\<close>

lemma apply_loop_signers:
  assumes "apply_loop env config hs snap sigs = (Inr snap', sigs')"
    and "recents_ok n (Validators snap) (Recents snap)" "vals_ok (Validators snap)"
    and "contiguous hs" "hs \<noteq> [] \<longrightarrow> unat (number_u64 (hd hs)) = Suc n" "n + length hs < 2 ^ 64"
    and "\<forall>h \<in> set hs. length (Extra h) < 2 ^ 63 \<and> number_u64 h mod Epoch config \<noteq> 0"
    and "keeps_entries env" "sigs_ok env H sigs" "set hs \<subseteq> H"
  shows "sigs_ok env H sigs' \<and> Validators snap' = Validators snap \<and>
    (\<forall>i < length hs. recover env (hs ! i) \<in> Inr ` Validators snap \<and>
       (length hs - i \<le> card (Validators snap) div 2 + 1 \<longrightarrow>
          (\<exists>v. recover env (hs ! i) = Inr v \<and> (number_u64 (hs ! i), v) \<in> set (Recents snap')))) \<and>
    (\<forall>i j. i < j \<longrightarrow> j < length hs \<longrightarrow> j - i \<le> card (Validators snap) div 2 \<longrightarrow>
       recover env (hs ! i) \<noteq> recover env (hs ! j))"
  using assms
proof (induction hs arbitrary: snap' sigs' rule: rev_induct)
  case (snoc h hs)
  let ?V = "Validators snap" and ?c = "card (Validators snap) div 2"
  from snoc.prems(1) obtain s1 g1 where
    s1: "apply_loop env config hs snap sigs = (Inr s1, g1)" "apply_header env config h s1 g1 = (Inr snap', sigs')"
    by (auto simp: apply_loop_append split: prod.splits sum.splits)
  have pre: "hs \<noteq> [] \<longrightarrow> unat (number_u64 (hd hs)) = Suc n" "contiguous hs" "n + length hs < 2 ^ 64"
    using snoc.prems by (auto simp: contiguous_append)
  have IH: "sigs_ok env H g1 \<and> Validators s1 = ?V \<and>
    (\<forall>i < length hs. recover env (hs ! i) \<in> Inr ` ?V \<and>
       (length hs - i \<le> ?c + 1 \<longrightarrow>
          (\<exists>v. recover env (hs ! i) = Inr v \<and> (number_u64 (hs ! i), v) \<in> set (Recents s1)))) \<and>
    (\<forall>i j. i < j \<longrightarrow> j < length hs \<longrightarrow> j - i \<le> ?c \<longrightarrow> recover env (hs ! i) \<noteq> recover env (hs ! j))"
    by (rule snoc.IH [OF s1(1)]) (use snoc.prems pre in auto)
  have ok1: "recents_ok (n + length hs) (Validators s1) (Recents s1) \<and> vals_ok (Validators s1)"
    using apply_loop_ok [OF s1(1) snoc.prems(2,3) pre(2,1,3)] snoc.prems(7) by auto
  have num: "unat (number_u64 ((hs @ [h]) ! i)) = n + Suc i" if "i < length (hs @ [h])" for i
  proof -
    let ?w = "number_u64 (hd (hs @ [h]))"
    have "number_u64 ((hs @ [h]) ! i) = ?w + of_nat i"
      using contiguous_nth [OF snoc.prems(4) that] .
    moreover have "unat ?w = Suc n" using snoc.prems(5) by simp
    moreover have "unat (of_nat i :: u64) = i" using that snoc.prems(6) by (intro unat_of_nat_small) simp
    ultimately show ?thesis
      using that snoc.prems(6) by (simp add: unat_add_lem [THEN iffD1])
  qed
  have numh: "unat (number_u64 h) = Suc (n + length hs)" using num [of "length hs"] by simp
  let ?R = "shifted (number_u64 h) (Validators s1) (Recents s1)"
  have hH: "h \<in> H" and ep: "number_u64 h mod Epoch config \<noteq> 0" using snoc.prems(7,10) by auto
  from s1(2) obtain v where v: "ecrecover env h g1 = (Inr v, sigs')" "v \<in> ?V" "v \<notin> snd ` set ?R"
    and snap': "snap' = s1\<lparr>Recents := AList.update (number_u64 h) v ?R\<rparr>"
    using ep IH by (cases rule: apply_header_cases) auto
  have rec: "recover env h = Inr v" "sigs_ok env H sigs'"
    using ecrecover_recover [OF snoc.prems(8) _ hH, of g1] IH v(1) by auto
  note win = shifted_window [OF conjunct1 [OF ok1] conjunct2 [OF ok1] numh]
  have R': "Recents snap' = ?R @ [(number_u64 h, v)]"
    using shifted_update(1) [OF conjunct1 [OF ok1] conjunct2 [OF ok1] numh v(3)] snap' by simp
  have kept: "(number_u64 (hs ! i), u) \<in> set ?R"
    if "i < length hs" "length hs - i \<le> ?c" "recover env (hs ! i) = Inr u" for i u
  proof -
    have "(number_u64 (hs ! i), u) \<in> set (Recents s1)" using IH that by force
    moreover have "unat (number_u64 (hs ! i)) = n + Suc i" using num [of i] that(1) by (simp add: nth_append)
    ultimately show ?thesis using win IH that by auto
  qed
  have "recover env (hs ! i) \<noteq> Inr v" if "i < length hs" "length hs - i \<le> ?c" for i
    using kept [OF that] v(3) by force
  moreover have "\<exists>u. recover env (hs ! i) = Inr u \<and> (number_u64 (hs ! i), u) \<in> set (Recents snap')"
    if "i < length hs" "length hs - i \<le> ?c" for i
    using IH kept [OF that] that by (force simp: R')
  ultimately show ?case
    using IH rec v(2) R' snap' by (auto simp: nth_append less_Suc_eq)
qed auto


subsection \<open>Someone can always seal\<close>

lemma card_shifted:
  assumes "recents_ok n vals rs" "vals_ok vals" "unat number = Suc n"
  shows "card (snd ` set (shifted number vals rs)) \<le> card vals div 2"
proof -
  let ?S = "set (shifted number vals rs)"
  note w = shifted_window [OF assms]
  have "unat ` fst ` ?S \<subseteq> {Suc n - card vals div 2 .. n}"
  proof -
    have "unat k \<le> n \<and> n < unat k + card vals div 2" if "(k, v) \<in> ?S" for k v
      using that w assms(1) by (force simp: recents_ok_def)
    then have "unat k \<in> {Suc n - card vals div 2 .. n}" if "(k, v) \<in> ?S" for k v
      using that by fastforce
    then show ?thesis by auto
  qed
  then have "card (unat ` fst ` ?S) \<le> card {Suc n - card vals div 2 .. n}" by (intro card_mono) auto
  moreover have "card (unat ` fst ` ?S) = card (fst ` ?S)"
    by (intro card_image) (simp add: inj_on_def word_unat_eq_iff)
  moreover have "card (fst ` ?S) = card ?S"
    using w by (intro card_image) (auto simp: distinct_map)
  moreover have "card (snd ` ?S) \<le> card ?S" by (intro card_image_le) simp
  ultimately show ?thesis by simp
qed

text \<open>C19: the chain cannot be stuck on recently signed validators. At every block at least half
  of the validators are free to seal the next one: a header with the next number that one of
  them has sealed is applied, whatever else it holds (a checkpoint header must be long enough to
  list validators).\<close>

theorem snap_apply_not_stuck:
  assumes "snap_ok s" "unat (snap_Number s) + 1 < 2 ^ 64"
  shows "\<exists>E \<subseteq> Validators s. card (Validators s) \<le> 2 * card E \<and>
    (\<forall>v \<in> E. \<forall>h sigs sigs'. number_u64 h = snap_Number s + 1 \<longrightarrow>
       ecrecover env h sigs = (Inr v, sigs') \<longrightarrow> extra_validators (Extra h) \<noteq> None \<longrightarrow>
       (\<exists>s'. snap_apply env config s [h] sigs = (Inr s', sigs')))"
proof -
  let ?V = "Validators s" and ?N = "snap_Number s + 1"
  let ?R = "shifted ?N ?V (Recents s)"
  have n: "unat ?N = Suc (unat (snap_Number s))" using assms(2) by (intro unat_Suc64) simp_all
  have ok: "recents_ok (unat (snap_Number s)) ?V (Recents s)" "vals_ok ?V"
    using assms(1) by (simp_all add: snap_ok_def)
  have cp: "snap_copy s = s" using ok by (intro snap_copy_id) (simp add: recents_ok_def)
  let ?E = "?V - snd ` set ?R"
  have "card ?V - card (snd ` set ?R) \<le> card ?E" using ok by (intro diff_card_le_card_Diff) simp
  then have "card ?V \<le> 2 * card ?E" using card_shifted [OF ok n] by linarith
  moreover have "\<exists>s'. snap_apply env config s [h] sigs = (Inr s', sigs')"
    if "v \<in> ?E" "number_u64 h = ?N" "ecrecover env h sigs = (Inr v, sigs')"
      "extra_validators (Extra h) \<noteq> None" for v h sigs sigs'
    using that by (auto simp: snap_apply_iff cp apply_header_def Let_def list_ex_snd shifted_def)
  ultimately show ?thesis by (intro exI [of _ ?E]) blast
qed

subsection \<open>Whose turn it is\<close>

lemma inturn_loop_nth:
  "distinct vs \<Longrightarrow> inturn_loop vs v = i \<longleftrightarrow> (i < length vs \<and> vs ! i = v \<or> i = length vs \<and> v \<notin> set vs)"
proof (induction vs arbitrary: i)
  case (Cons a vs)
  then show ?case by (cases i) (auto simp: nth_mem)
qed auto

lemma inturn_iff:
  assumes "vals_ok (Validators s)" "Validators s \<noteq> {}"
  shows "inturn s number v = Some (v = snap_validators s ! (unat number mod card (Validators s)))"
proof -
  let ?vs = "snap_validators s" and ?i = "inturn_loop (snap_validators s) v"
    and ?m = "unat number mod length (snap_validators s)"
  have len: "length ?vs = card (Validators s)" using assms by (simp add: vals_ok_def snap_validators_def)
  have pos: "0 < length ?vs" using assms len by (simp add: card_gt_0_iff vals_ok_def)
  have l64: "unat (of_nat (length ?vs) :: u64) = length ?vs"
    using assms(1) len by (intro unat_of_nat_small) (simp add: vals_ok_def)
  have d: "distinct ?vs" by (simp add: snap_validators_def)
  have i: "?i < length ?vs \<and> ?vs ! ?i = v \<or> ?i = length ?vs \<and> v \<notin> set ?vs"
    using inturn_loop_nth [OF d, of v ?i] by simp
  then have i64: "unat (of_nat ?i :: u64) = ?i"
    using assms(1) len by (intro unat_of_nat_small) (auto simp: vals_ok_def)
  have "(number mod of_nat (length ?vs) = of_nat ?i) \<longleftrightarrow> ?m = ?i"
    by (simp only: word_unat_eq_iff unat_mod l64 i64)
  also have "\<dots> \<longleftrightarrow> v = ?vs ! ?m"
    using i d mod_less_divisor [OF pos, of "unat number"] by (auto simp: nth_eq_iff_index_eq)
  finally show ?thesis using pos by (auto simp: inturn_def Let_def simp flip: len)
qed

text \<open>C21: the validators are listed in strictly ascending order, and at every block exactly one
  of them is in turn: the one at the position of the block number modulo their number.\<close>

theorem inturn_unique:
  assumes "vals_ok (Validators s)" "Validators s \<noteq> {}"
  shows "sorted_wrt (<) (snap_validators s) \<and> set (snap_validators s) = Validators s \<and>
    (\<forall>v. inturn s number v = Some (v = snap_validators s ! (unat number mod card (Validators s))))"
  using assms inturn_iff [OF assms] by (simp add: snap_validators_def vals_ok_def)

subsection \<open>Three validators\<close>

text \<open>Three validators seal two blocks on top of a snapshot at block 0; the limit is two blocks.\<close>

definition sample_snap :: Snapshot where
  "sample_snap = newSnapshot 0 [] [sample_addr 1, sample_addr 2, sample_addr 3]"

definition sample_config3 :: CongressConfig where
  "sample_config3 = \<lparr>Period = 3, Epoch = 200, EnableDevVerification = False, FeeReceiver = None\<rparr>"

lemma sample_snap_ok [simp]: "snap_ok sample_snap"
  unfolding sample_snap_def by (rule newSnapshot_ok) simp

lemma sample_validators [simp]:
  "Validators sample_snap = {sample_addr 1, sample_addr 2, sample_addr 3}"
  "card (Validators sample_snap) = 3" "snap_Number sample_snap = 0" "Recents sample_snap = []"
  by (simp_all add: sample_snap_def newSnapshot_def)

definition sample_snap1 :: Snapshot where
  "sample_snap1 = sample_snap\<lparr>snap_Number := 1, snap_Hash := header_Hash (Keccak256 sample_env) (sample_header 1 1),
     Recents := [(1, sample_addr 1)]\<rparr>"

definition sample_snap2 :: Snapshot where
  "sample_snap2 = sample_snap\<lparr>snap_Number := 2, snap_Hash := header_Hash (Keccak256 sample_env) (sample_header 2 2),
     Recents := [(1, sample_addr 1), (2, sample_addr 2)]\<rparr>"

lemma sample_copy: "snap_copy sample_snap = sample_snap"
  by (rule snap_copy_id) simp

lemma sample_limit: "sign_limit (Validators sample_snap) = 2"
  unfolding sign_limit_def sample_validators(2) by simp

lemma sample_apply_header:
  "apply_header sample_env sample_config3 (sample_header 1 1) sample_snap [] =
    (Inr (sample_snap\<lparr>Recents := [(1, sample_addr 1)]\<rparr>), [])"
  "apply_header sample_env sample_config3 (sample_header 2 2) (sample_snap\<lparr>Recents := [(1, sample_addr 1)]\<rparr>) [] =
    (Inr (sample_snap\<lparr>Recents := [(1, sample_addr 1), (2, sample_addr 2)]\<rparr>), [])"
  by (simp_all add: apply_header_def Let_def sample_limit sample_config3_def del: sample_validators(1))
    simp_all

lemma sample_apply:
  "snap_apply sample_env sample_config3 sample_snap [sample_header 1 1] [] = (Inr sample_snap1, [])"
  "snap_apply sample_env sample_config3 sample_snap [sample_header 1 1, sample_header 2 2] [] =
    (Inr sample_snap2, [])"
  by (simp_all add: snap_apply_def sample_copy sample_apply_header sample_snap1_def sample_snap2_def)

theorem snap_apply_invariant_witness:
  "snap_apply sample_env sample_config3 sample_snap [sample_header 1 1, sample_header 2 2] [] =
    (Inr sample_snap2, []) \<and> snap_ok sample_snap2"
  using snap_apply_invariant [OF sample_apply(2)] sample_apply(2) by simp

theorem snap_apply_append_witness:
  "\<exists>s1 sigs1. snap_apply sample_env sample_config3 sample_snap [sample_header 1 1] [] = (Inr s1, sigs1) \<and>
     snap_apply sample_env sample_config3 s1 [sample_header 2 2] sigs1 = (Inr sample_snap2, [])"
  using snap_apply_append [of sample_snap "[sample_header 1 1]" "[sample_header 2 2]" sample_env
      sample_config3 "[]" sample_snap2 "[]"] sample_apply(2) by simp

lemma sample_keeps [simp]: "keeps_entries sample_env"
  by (simp add: keeps_entries_def sample_env_def)

lemma sample_sigs_ok: "sigs_ok sample_env {sample_header 1 1, sample_header 2 2} []"
  by (auto simp: sigs_ok_def inj_on_def sample_Hash_inj)

theorem ecrecover_cache_transparent_witness:
  "\<exists>sigs'. ecrecover sample_env (sample_header 1 1) [] = (recover sample_env (sample_header 1 1), sigs') \<and>
    sigs_ok sample_env {sample_header 1 1, sample_header 2 2} sigs'"
  by (rule ecrecover_cache_transparent) (simp_all add: sample_sigs_ok)


theorem snap_apply_not_stuck_witness:
  "\<exists>E \<subseteq> Validators sample_snap2. 3 \<le> 2 * card E"
proof -
  have "snap_ok sample_snap2" using snap_apply_ok [OF sample_apply(2)] by simp
  moreover have "card (Validators sample_snap2) = 3" "unat (snap_Number sample_snap2) + 1 < 2 ^ 64"
    by (simp_all add: sample_snap2_def)
  ultimately show ?thesis using snap_apply_not_stuck [of sample_snap2] by metis
qed

theorem inturn_unique_witness:
  "\<forall>v. inturn sample_snap 7 v = Some (v = snap_validators sample_snap ! (unat (7 :: u64) mod 3))"
  using inturn_unique [of sample_snap 7] sample_snap_ok by (simp add: snap_ok_def)

end
