(* ===== verification/Congress_Engine.thy ===== *)
theory Congress_Engine
  imports Congress_Snapshot_Correct
begin

text \<open>
  The congress engine (\<open>consensus/congress/congress.go\<close>): retrieving the snapshot of a block,
  verifying headers and seals, preparing and sealing a block.

  The mutable parts of the Go struct \<open>Congress\<close> are the record \<open>congress_state\<close>. What the
  engine gets from elsewhere is in \<open>engine_env\<close> (which entries the cache of snapshots keeps,
  whether the database accepts a write, the wallet that signs) and in \<open>chain_reader\<close> (the
  interface \<open>ChainHeaderReader\<close>). The JSON form in which snapshots are stored is not modelled:
  the database holds snapshots.
\<close>

record engine_env =
  crypto :: crypto_env
  keep_recents :: "(hash \<times> Snapshot) list \<Rightarrow> (hash \<times> Snapshot) list"
  db_Put :: "hash \<Rightarrow> Snapshot \<Rightarrow> bool"
  signFn :: "address \<Rightarrow> bytes \<Rightarrow> bytes option"

record chain_reader =
  GetHeader :: "hash \<Rightarrow> u64 \<Rightarrow> Header option"
  GetHeaderByNumber :: "u64 \<Rightarrow> Header option"
  chain_Config :: ChainConfig

record congress_state =
  c_recents :: "(hash \<times> Snapshot) list"
  c_signatures :: sigcache
  c_db :: "(hash \<times> Snapshot) list"
  c_validator :: address

abbreviation checkpointInterval :: u64 where "checkpointInterval \<equiv> 1024"

abbreviation FullImmutabilityThreshold :: nat where "FullImmutabilityThreshold \<equiv> 90000"

abbreviation epochLength :: u64 where "epochLength \<equiv> 30000"

abbreviation diffInTurn :: int where "diffInTurn \<equiv> 2"

abbreviation diffNoTurn :: int where "diffNoTurn \<equiv> 1"

definition Hash_of :: "engine_env \<Rightarrow> Header \<Rightarrow> hash" where
  "Hash_of env h = header_Hash (Keccak256 (crypto env)) h"

text \<open>\<open>New\<close> fixes a missing epoch length; the engine starts with empty caches. A missing
  \<open>Congress\<close> section is a nil dereference, here \<open>None\<close>.\<close>

definition congress_New ::
  "ChainConfig \<Rightarrow> (hash \<times> Snapshot) list \<Rightarrow> (CongressConfig \<times> congress_state) option" where
  "congress_New chainConfig db =
     (case Congress chainConfig of
        None \<Rightarrow> None
      | Some conf \<Rightarrow>
          Some (if Epoch conf = 0 then conf\<lparr>Epoch := epochLength\<rparr> else conf,
                \<lparr>c_recents = [], c_signatures = [], c_db = db, c_validator = replicate 20 0\<rparr>))"

definition Author :: "Header \<Rightarrow> address" where
  "Author header = Coinbase header"

definition Authorize :: "address \<Rightarrow> congress_state \<Rightarrow> congress_state" where
  "Authorize validator st = st\<lparr>c_validator := validator\<rparr>"

definition VerifyUncles :: "Header list \<Rightarrow> bool" where
  "VerifyUncles uncles \<longleftrightarrow> \<not> length uncles > 0"

subsection \<open>Snapshots of blocks\<close>

definition loadSnapshot :: "hash \<Rightarrow> congress_state \<Rightarrow> Snapshot option" where
  "loadSnapshot hash st = map_of (c_db st) hash"

definition snap_store :: "engine_env \<Rightarrow> Snapshot \<Rightarrow> congress_state \<Rightarrow> bool \<times> congress_state" where
  "snap_store env s st =
     (if db_Put env (snap_Hash s) s then (True, st\<lparr>c_db := AList.update (snap_Hash s) s (c_db st)\<rparr>)
      else (False, st))"

text \<open>The sources of a snapshot that one turn of the loop of \<open>snapshot\<close> tries: the cache, the
  database, and, at genesis or at a trusted checkpoint, the header itself.\<close>

definition snapshot_source ::
  "engine_env \<Rightarrow> chain_reader \<Rightarrow> CongressConfig \<Rightarrow> u64 \<Rightarrow> hash \<Rightarrow> nat \<Rightarrow> congress_state \<Rightarrow>
    (congress_error + Snapshot option) \<times> congress_state" where
  "snapshot_source env chain config number hash nheaders st =
     (case map_of (c_recents st) hash of
        Some s \<Rightarrow> (Inr (Some s), st)
      | None \<Rightarrow>
          (case (if number mod checkpointInterval = 0 then loadSnapshot hash st else None) of
             Some s \<Rightarrow> (Inr (Some s), st)
           | None \<Rightarrow>
               (if number = 0 \<or> (number mod Epoch config = 0 \<and>
                   (nheaders > FullImmutabilityThreshold \<or> GetHeaderByNumber chain (number - 1) = None))
                then
                  (case GetHeaderByNumber chain number of
                     None \<Rightarrow> (Inr None, st)
                   | Some checkpoint \<Rightarrow>
                       (case extra_validators (Extra checkpoint) of
                          None \<Rightarrow> (Inl Panic, st)
                        | Some validators \<Rightarrow>
                            let snap = newSnapshot number (Hash_of env checkpoint) validators in
                            (case snap_store env snap st of
                               (False, st) \<Rightarrow> (Inl errDatabase, st)
                             | (True, st) \<Rightarrow> (Inr (Some snap), st))))
                else (Inr None, st))))"

text \<open>The header to gather when there is no snapshot for it, with the parents that are left.\<close>

definition snapshot_gather ::
  "engine_env \<Rightarrow> chain_reader \<Rightarrow> u64 \<Rightarrow> hash \<Rightarrow> Header list \<Rightarrow> congress_error + (Header \<times> Header list)" where
  "snapshot_gather env chain number hash parents =
     (if length parents > 0 then
        let header = last parents in
        if Hash_of env header \<noteq> hash \<or> number_u64 header \<noteq> number then Inl ErrUnknownAncestor
        else Inr (header, butlast parents)
      else case GetHeader chain hash number of
             None \<Rightarrow> Inl ErrUnknownAncestor
           | Some header \<Rightarrow> Inr (header, parents))"

text \<open>The search may run forever (\<open>None\<close>) only when the chain has no genesis block.\<close>

partial_function (option) snapshot_find ::
  "engine_env \<Rightarrow> chain_reader \<Rightarrow> CongressConfig \<Rightarrow> u64 \<Rightarrow> hash \<Rightarrow> Header list \<Rightarrow> Header list \<Rightarrow> congress_state \<Rightarrow>
    ((congress_error + Snapshot \<times> Header list) \<times> congress_state) option" where
  "snapshot_find env chain config number hash parents headers st =
     (case snapshot_source env chain config number hash (length headers) st of
        (Inl err, st) \<Rightarrow> Some (Inl err, st)
      | (Inr (Some snap), st) \<Rightarrow> Some (Inr (snap, headers), st)
      | (Inr None, st) \<Rightarrow>
          (case snapshot_gather env chain number hash parents of
             Inl err \<Rightarrow> Some (Inl err, st)
           | Inr (header, parents) \<Rightarrow>
               snapshot_find env chain config (number - 1) (ParentHash header) parents
                 (headers @ [header]) st))"

definition congress_snapshot ::
  "engine_env \<Rightarrow> chain_reader \<Rightarrow> CongressConfig \<Rightarrow> u64 \<Rightarrow> hash \<Rightarrow> Header list \<Rightarrow> congress_state \<Rightarrow>
    ((congress_error + Snapshot) \<times> congress_state) option" where
  "congress_snapshot env chain config number hash parents st =
     (case snapshot_find env chain config number hash parents [] st of
        None \<Rightarrow> None
      | Some (Inl err, st) \<Rightarrow> Some (Inl err, st)
      | Some (Inr (snap, headers), st) \<Rightarrow>
          (case snap_apply (crypto env) config snap (rev headers) (c_signatures st) of
             (Inl err, sigs) \<Rightarrow> Some (Inl err, st\<lparr>c_signatures := sigs\<rparr>)
           | (Inr snap, sigs) \<Rightarrow>
               let st = st\<lparr>c_signatures := sigs,
                           c_recents := keep_recents env (AList.update (snap_Hash snap) snap (c_recents st))\<rparr>
               in if snap_Number snap mod checkpointInterval = 0 \<and> length headers > 0 then
                    (case snap_store env snap st of
                       (False, st) \<Rightarrow> Some (Inl errDatabase, st)
                     | (True, st) \<Rightarrow> Some (Inr snap, st))
                  else Some (Inr snap, st)))"

subsection \<open>Verification\<close>

text \<open>The part of \<open>verifySeal\<close> after the snapshot of the parent has been retrieved.\<close>

definition verifySeal_snap ::
  "engine_env \<Rightarrow> bool \<Rightarrow> Snapshot \<Rightarrow> Header \<Rightarrow> sigcache \<Rightarrow> (congress_error + unit) \<times> sigcache" where
  "verifySeal_snap env fakeDiff snap header sigs =
     (let number = number_u64 header in
      case ecrecover (crypto env) header sigs of
        (Inl err, sigs) \<Rightarrow> (Inl err, sigs)
      | (Inr signer, sigs) \<Rightarrow>
          (if signer \<noteq> Coinbase header then Inl errInvalidCoinbase
           else if signer \<notin> Validators snap then Inl errUnauthorizedValidator
           else if list_ex (\<lambda>(seen, recent). recent = signer \<and> seen > number - sign_limit (Validators snap))
                     (Recents snap)
             then Inl errRecentlySigned
           else if fakeDiff then Inr ()
           else case inturn snap number signer of
                  None \<Rightarrow> Inl Panic
                | Some turn \<Rightarrow>
                    if turn \<and> the (Difficulty header) \<noteq> diffInTurn then Inl errWrongDifficulty
                    else if \<not> turn \<and> the (Difficulty header) \<noteq> diffNoTurn then Inl errWrongDifficulty
                    else Inr (), sigs))"

definition verifySeal ::
  "engine_env \<Rightarrow> chain_reader \<Rightarrow> CongressConfig \<Rightarrow> bool \<Rightarrow> Header \<Rightarrow> Header list \<Rightarrow> congress_state \<Rightarrow>
    ((congress_error + unit) \<times> congress_state) option" where
  "verifySeal env chain config fakeDiff header parents st =
     (let number = number_u64 header in
      if number = 0 then Some (Inl errUnknownBlock, st)
      else case congress_snapshot env chain config (number - 1) (ParentHash header) parents st of
             None \<Rightarrow> None
           | Some (Inl err, st) \<Rightarrow> Some (Inl err, st)
           | Some (Inr snap, st) \<Rightarrow>
               (let (r, sigs) = verifySeal_snap env fakeDiff snap header (c_signatures st)
                in Some (r, st\<lparr>c_signatures := sigs\<rparr>)))"

definition verifyCascadingFields ::
  "engine_env \<Rightarrow> chain_reader \<Rightarrow> CongressConfig \<Rightarrow> bool \<Rightarrow> Header \<Rightarrow> Header list \<Rightarrow> congress_state \<Rightarrow>
    ((congress_error + unit) \<times> congress_state) option" where
  "verifyCascadingFields env chain config fakeDiff header parents st =
     (let number = number_u64 header in
      if number = 0 then Some (Inr (), st)
      else case (if length parents > 0 then Some (last parents)
                 else GetHeader chain (ParentHash header) (number - 1)) of
             None \<Rightarrow> Some (Inl ErrUnknownAncestor, st)
           | Some parent \<Rightarrow>
               (if number_u64 parent \<noteq> number - 1 \<or> Hash_of env parent \<noteq> ParentHash header
                then Some (Inl ErrUnknownAncestor, st)
                else if Time parent + Period config > Time header then Some (Inl ErrInvalidTimestamp, st)
                else if GasUsed header > GasLimit header
                then Some (Inl (errGasUsed (GasUsed header) (GasLimit header)), st)
                else if \<not> IsLondon (chain_Config chain) (Number header) \<and> BaseFee header \<noteq> None
                then Some (Inl (errBaseFeeBeforeFork (the (BaseFee header))), st)
                else case (if \<not> IsLondon (chain_Config chain) (Number header)
                           then VerifyGaslimit (GasLimit parent) (GasLimit header)
                           else VerifyEip1559Header (chain_Config chain) parent header) of
                       Some err \<Rightarrow> Some (Inl (errMisc err), st)
                     | None \<Rightarrow> verifySeal env chain config fakeDiff header parents st))"

definition congress_uncleHash :: "(bytes \<Rightarrow> hash) \<Rightarrow> hash" where
  "congress_uncleHash k = rlpHash k (GSlice [])"

definition verifyHeader ::
  "engine_env \<Rightarrow> chain_reader \<Rightarrow> CongressConfig \<Rightarrow> bool \<Rightarrow> u64 \<Rightarrow> Header \<Rightarrow> Header list \<Rightarrow> congress_state \<Rightarrow>
    ((congress_error + unit) \<times> congress_state) option" where
  "verifyHeader env chain config fakeDiff now header parents st =
     (if Number header = None then Some (Inl errUnknownBlock, st)
      else let number = number_u64 header in
      if Time header > now then Some (Inl ErrFutureBlock, st)
      else if length (Extra header) < extraVanity then Some (Inl errMissingVanity, st)
      else if length (Extra header) < extraVanity + extraSeal then Some (Inl errMissingSignature, st)
      else let isEpoch = (number mod Epoch config = 0);
               validatorsBytes = length (Extra header) - extraVanity - extraSeal in
      if \<not> isEpoch \<and> validatorsBytes \<noteq> 0 then Some (Inl errExtraValidators, st)
      else if isEpoch \<and> validatorsBytes mod AddressLength \<noteq> 0 then Some (Inl errExtraValidators, st)
      else if MixDigest header \<noteq> replicate 32 0 then Some (Inl errInvalidMixDigest, st)
      else if UncleHash header \<noteq> congress_uncleHash (Keccak256 (crypto env))
      then Some (Inl errInvalidUncleHash, st)
      else if number > 0 \<and> Difficulty header = None then Some (Inl errInvalidDifficulty, st)
      else if GasLimit header > 0x7fffffffffffffff then Some (Inl (errGasLimitCap (GasLimit header)), st)
      else case VerifyForkHashes (Keccak256 (crypto env)) (chain_Config chain) header False of
             Some err \<Rightarrow> Some (Inl (errMisc err), st)
           | None \<Rightarrow> verifyCascadingFields env chain config fakeDiff header parents st)"

text \<open>\<open>VerifyHeaders\<close> hands each header the ones before it as parents; the results are
  collected in order.\<close>

fun VerifyHeaders_loop ::
  "engine_env \<Rightarrow> chain_reader \<Rightarrow> CongressConfig \<Rightarrow> bool \<Rightarrow> u64 \<Rightarrow> Header list \<Rightarrow> Header list \<Rightarrow> congress_state \<Rightarrow>
    ((congress_error + unit) list \<times> congress_state) option" where
  "VerifyHeaders_loop env chain config fakeDiff now before [] st = Some ([], st)"
| "VerifyHeaders_loop env chain config fakeDiff now before (header # headers) st =
     (case verifyHeader env chain config fakeDiff now header before st of
        None \<Rightarrow> None
      | Some (r, st) \<Rightarrow>
          (case VerifyHeaders_loop env chain config fakeDiff now (before @ [header]) headers st of
             None \<Rightarrow> None
           | Some (rs, st) \<Rightarrow> Some (r # rs, st)))"

definition VerifyHeaders where
  "VerifyHeaders env chain config fakeDiff now headers st =
     VerifyHeaders_loop env chain config fakeDiff now [] headers st"

subsection \<open>Preparing and sealing a block\<close>

definition calcDifficulty :: "Snapshot \<Rightarrow> address \<Rightarrow> int option" where
  "calcDifficulty snap validator =
     (case inturn snap (snap_Number snap + 1) validator of
        None \<Rightarrow> None
      | Some True \<Rightarrow> Some diffInTurn
      | Some False \<Rightarrow> Some diffNoTurn)"

definition CalcDifficulty ::
  "engine_env \<Rightarrow> chain_reader \<Rightarrow> CongressConfig \<Rightarrow> Header \<Rightarrow> congress_state \<Rightarrow>
    (int option \<times> congress_state) option" where
  "CalcDifficulty env chain config parent st =
     (case congress_snapshot env chain config (number_u64 parent) (Hash_of env parent) [] st of
        None \<Rightarrow> None
      | Some (Inl err, st) \<Rightarrow> Some (None, st)
      | Some (Inr snap, st) \<Rightarrow> Some (calcDifficulty snap (c_validator st), st))"

text \<open>\<open>Prepare\<close>. \<open>getTopValidators\<close> is the call of the validators contract at the parent's
  state; \<open>now\<close> and \<open>now'\<close> are the two readings of the clock. The header is returned also
  when an error stops the function, with the fields set so far.\<close>

definition Prepare ::
  "engine_env \<Rightarrow> chain_reader \<Rightarrow> CongressConfig \<Rightarrow> (Header \<Rightarrow> congress_error + address list) \<Rightarrow> u64 \<Rightarrow> u64 \<Rightarrow>
    Header \<Rightarrow> congress_state \<Rightarrow> ((congress_error + unit) \<times> Header \<times> congress_state) option" where
  "Prepare env chain config getTopValidators now now' header st =
     (let header = header\<lparr>Coinbase := c_validator st, Nonce := replicate 8 0\<rparr>;
          number = number_u64 header
      in case congress_snapshot env chain config (number - 1) (ParentHash header) [] st of
           None \<Rightarrow> None
         | Some (Inl err, st) \<Rightarrow> Some (Inl err, header, st)
         | Some (Inr snap, st) \<Rightarrow>
             (case calcDifficulty snap (c_validator st) of
                None \<Rightarrow> Some (Inl Panic, header, st)
              | Some d \<Rightarrow>
                  let header = header\<lparr>Difficulty := Some d\<rparr>;
                      header = (if length (Extra header) < extraVanity
                                then header\<lparr>Extra := Extra header @ replicate (extraVanity - length (Extra header)) 0\<rparr>
                                else header);
                      header = header\<lparr>Extra := take extraVanity (Extra header)\<rparr>
                  in case (if number mod Epoch config = 0 then
                             (if FeeReceiver config \<noteq> None then Inr (snap_validators snap)
                              else getTopValidators header)
                           else Inr []) of
                       Inl err \<Rightarrow> Some (Inl err, header, st)
                     | Inr newSortedValidators \<Rightarrow>
                         let header = header\<lparr>Extra := Extra header @ concat newSortedValidators\<rparr>;
                             header = header\<lparr>Extra := Extra header @ replicate extraSeal 0\<rparr>;
                             header = header\<lparr>MixDigest := replicate 32 0\<rparr>
                         in case GetHeader chain (ParentHash header) (number - 1) of
                              None \<Rightarrow> Some (Inl ErrUnknownAncestor, header, st)
                            | Some parent \<Rightarrow>
                                let header = header\<lparr>Time := Time parent + Period config\<rparr>;
                                    header = (if Time header < now then header\<lparr>Time := now'\<rparr> else header)
                                in Some (Inr (), header, st)))"

text \<open>The outcome of \<open>Seal\<close>: an error, no block (an empty block on a chain with period 0, or the
  validator has signed recently), or a sealed header, which is handed on after a delay.\<close>

datatype seal_outcome = SealError congress_error | SealPaused | SealWait | Sealed Header

text \<open>Whether the validator has to wait.\<close>

definition seal_waits :: "Snapshot \<Rightarrow> u64 \<Rightarrow> address \<Rightarrow> bool" where
  "seal_waits snap number val =
     list_ex (\<lambda>(seen, recent). recent = val \<and>
       (number < sign_limit (Validators snap) \<or> seen > number - sign_limit (Validators snap)))
       (Recents snap)"

definition put_seal :: "bytes \<Rightarrow> bytes \<Rightarrow> bytes" where
  "put_seal extra sig =
     (let k = length extra - extraSeal
      in take k extra @ take extraSeal sig @ drop (k + length (take extraSeal sig)) extra)"

definition Seal ::
  "engine_env \<Rightarrow> chain_reader \<Rightarrow> CongressConfig \<Rightarrow> Header \<Rightarrow> nat \<Rightarrow> congress_state \<Rightarrow>
    (seal_outcome \<times> congress_state) option" where
  "Seal env chain config header ntxs st =
     (let number = number_u64 header in
      if number = 0 then Some (SealError errUnknownBlock, st)
      else if Period config = 0 \<and> ntxs = 0 then Some (SealPaused, st)
      else let val = c_validator st in
           case congress_snapshot env chain config (number - 1) (ParentHash header) [] st of
             None \<Rightarrow> None
           | Some (Inl err, st) \<Rightarrow> Some (SealError err, st)
           | Some (Inr snap, st) \<Rightarrow>
               (if val \<notin> Validators snap then Some (SealError errUnauthorizedValidator, st)
                else if seal_waits snap number val then Some (SealWait, st)
                else case CongressRLP header of
                       None \<Rightarrow> Some (SealError Panic, st)
                     | Some rlp \<Rightarrow>
                         (case signFn env val rlp of
                            None \<Rightarrow> Some (SealError errSign, st)
                          | Some sighash \<Rightarrow>
                              Some (Sealed (header\<lparr>Extra := put_seal (Extra header) sighash\<rparr>), st))))"

end
