(* ===== verification/Congress_Engine_Correct.thy ===== *)
theory Congress_Engine_Correct
  imports Congress_Engine
begin

text \<open>
  What the engine promises: \<open>snapshot\<close> returns and gives the snapshot of the block it is asked
  for, whatever is cached; the checks of \<open>Seal\<close> and \<open>verifySeal\<close> agree with what \<open>apply\<close> will
  accept; an accepted header satisfies the rules of the protocol; and what \<open>Prepare\<close> builds
  passes them.
\<close>

subsection \<open>Retrieving a snapshot\<close>

text \<open>A hash determines the number of its block: \<open>numof\<close> is the function that does. A header
  fits it when its own number is that of its hash.\<close>

definition header_ok :: "engine_env \<Rightarrow> (hash \<Rightarrow> u64) \<Rightarrow> Header \<Rightarrow> bool" where
  "header_ok env numof h \<longleftrightarrow> length (Extra h) < 2 ^ 63 \<and> numof (Hash_of env h) = number_u64 h"

text \<open>What the engine relies on of the chain it reads: lookups return the header that was asked
  for, and there is a genesis block.\<close>

definition chain_ok :: "engine_env \<Rightarrow> (hash \<Rightarrow> u64) \<Rightarrow> chain_reader \<Rightarrow> bool" where
  "chain_ok env numof chain \<longleftrightarrow>
     (\<forall>hash n h. GetHeader chain hash n = Some h \<longrightarrow>
        Hash_of env h = hash \<and> number_u64 h = n \<and> header_ok env numof h) \<and>
     (\<forall>n h. GetHeaderByNumber chain n = Some h \<longrightarrow> number_u64 h = n \<and> header_ok env numof h) \<and>
     GetHeaderByNumber chain 0 \<noteq> None"

definition keep_ok :: "engine_env \<Rightarrow> bool" where
  "keep_ok env \<longleftrightarrow> (\<forall>c. map_of (keep_recents env c) \<subseteq>\<^sub>m map_of c)"

text \<open>The invariant of the caches: what is kept under a hash is a snapshot of the block with that
  hash.\<close>

definition engine_ok :: "(hash \<Rightarrow> u64) \<Rightarrow> congress_state \<Rightarrow> bool" where
  "engine_ok numof st \<longleftrightarrow>
     (\<forall>k s. map_of (c_recents st) k = Some s \<or> map_of (c_db st) k = Some s \<longrightarrow>
        snap_ok s \<and> snap_Hash s = k \<and> snap_Number s = numof k)"

lemma engine_ok_db:
  "engine_ok numof st \<Longrightarrow> snap_ok s \<Longrightarrow> snap_Number s = numof (snap_Hash s) \<Longrightarrow>
   engine_ok numof (st\<lparr>c_db := AList.update (snap_Hash s) s (c_db st)\<rparr>)"
  by (auto simp: engine_ok_def update_conv')

lemma engine_ok_store:
  assumes "engine_ok numof st" "snap_ok s" "snap_Number s = numof (snap_Hash s)" "snap_store env s st = (b, st')"
  shows "engine_ok numof st'"
  using assms by (auto simp: snap_store_def engine_ok_db split: if_splits)

lemma newSnapshot_sel [simp]:
  "snap_Hash (newSnapshot n h vs) = h" "snap_Number (newSnapshot n h vs) = n"
  by (simp_all add: newSnapshot_def)

lemma engine_ok_recents:
  assumes "engine_ok numof st" "snap_ok s" "snap_Number s = numof (snap_Hash s)" "keep_ok env"
  shows "engine_ok numof (st\<lparr>c_signatures := sg, c_recents := keep_recents env (AList.update (snap_Hash s) s (c_recents st))\<rparr>)"
proof -
  have "map_of (AList.update (snap_Hash s) s (c_recents st)) k = Some t"
    if "map_of (keep_recents env (AList.update (snap_Hash s) s (c_recents st))) k = Some t" for k t
    using assms(4) that by (auto simp: keep_ok_def map_le_def dom_def)
  then show ?thesis
    using assms(1-3) by (force simp: engine_ok_def update_conv' split: if_splits)
qed

lemma engine_ok_signatures [simp]: "engine_ok numof (st\<lparr>c_signatures := sg\<rparr>) = engine_ok numof st"
  by (simp add: engine_ok_def)

lemma extra_validators_length:
  assumes "extra_validators extra = Some vs"
  shows "length vs \<le> length extra"
  using assms
  by (auto simp: extra_validators_def split: if_splits intro: le_trans [OF div_le_dividend])

text \<open>A snapshot that stands for the block asked for: its own, or the one of the header at that
  number in the chain, which a checkpoint is trusted to be.\<close>

definition answers :: "engine_env \<Rightarrow> chain_reader \<Rightarrow> u64 \<Rightarrow> hash \<Rightarrow> Snapshot \<Rightarrow> bool" where
  "answers env chain number hash snap \<longleftrightarrow>
     snap_ok snap \<and>
     (snap_Hash snap = hash \<or>
      (\<exists>c. GetHeaderByNumber chain number = Some c \<and> snap_Hash snap = Hash_of env c))"

lemma snapshot_source_ok:
  assumes "snapshot_source env chain config number hash k st = (r, st')" "engine_ok numof st"
    "chain_ok env numof chain"
  shows "engine_ok numof st' \<and> c_signatures st' = c_signatures st \<and>
    (\<forall>snap. r = Inr (Some snap) \<longrightarrow> answers env chain number hash snap \<and>
      snap_Number snap = numof (snap_Hash snap) \<and> (numof hash = number \<longrightarrow> snap_Number snap = number)) \<and>
    (number = 0 \<longrightarrow> r \<noteq> Inr None)"
proof (cases "map_of (c_recents st) hash")
  case (Some s)
  with assms show ?thesis by (auto simp: snapshot_source_def engine_ok_def answers_def)
next
  case None
  show ?thesis
  proof (cases "if number mod checkpointInterval = 0 then loadSnapshot hash st else None")
    case (Some s)
    then have "map_of (c_db st) hash = Some s" by (auto simp: loadSnapshot_def split: if_splits)
    with assms(2) have "snap_ok s" "snap_Hash s = hash" "snap_Number s = numof hash"
      by (auto simp: engine_ok_def)
    with assms None Some show ?thesis by (auto simp: snapshot_source_def answers_def)
  next
    case no: None
    show ?thesis
    proof (cases "GetHeaderByNumber chain number")
      case gh: None
      with assms(3) have "number \<noteq> 0" by (auto simp: chain_ok_def)
      with assms None no gh show ?thesis by (auto simp: snapshot_source_def split: if_splits)
    next
      case (Some c)
      then have c: "number_u64 c = number" "header_ok env numof c" using assms(3) by (auto simp: chain_ok_def)
      then have nh: "numof (Hash_of env c) = number" by (simp add: header_ok_def)
      have "snap_ok (newSnapshot number (Hash_of env c) vs)" if "extra_validators (Extra c) = Some vs" for vs
      proof (rule newSnapshot_ok)
        have "length (Extra c) < 2 ^ 63" using c by (simp add: header_ok_def)
        with extra_validators_length [OF that] show "length vs < 2 ^ 63" by linarith
      qed
      then have "engine_ok numof st' \<and> c_signatures st' = c_signatures st \<and>
          (\<forall>snap. r = Inr (Some snap) \<longrightarrow> snap_ok snap \<and> snap_Hash snap = Hash_of env c \<and> snap_Number snap = number) \<and>
          (number = 0 \<longrightarrow> r \<noteq> Inr None)"
        using assms None no Some nh engine_ok_db [OF assms(2), of "newSnapshot number (Hash_of env c) _"]
        by (auto simp: snapshot_source_def Let_def snap_store_def split: if_splits option.splits)
      with Some nh show ?thesis by (auto simp: answers_def)
    qed
  qed
qed

lemma snapshot_gather_ok:
  assumes "snapshot_gather env chain number hash parents = Inr (header, parents')" "chain_ok env numof chain"
    and "\<forall>h \<in> set parents. header_ok env numof h"
  shows "Hash_of env header = hash \<and> number_u64 header = number \<and> header_ok env numof header \<and>
    (\<forall>h \<in> set parents'. header_ok env numof h)"
  using assms
  by (auto simp: snapshot_gather_def chain_ok_def Let_def dest: in_set_butlastD split: if_splits option.splits)

text \<open>The headers gathered run backwards from the block asked for.\<close>

definition gathered :: "engine_env \<Rightarrow> (hash \<Rightarrow> u64) \<Rightarrow> u64 \<Rightarrow> hash \<Rightarrow> Header list \<Rightarrow> bool" where
  "gathered env numof number hash new \<longleftrightarrow>
     length new \<le> unat number \<and>
     (\<forall>i < length new. unat (number_u64 (new ! i)) = unat number - i \<and> header_ok env numof (new ! i)) \<and>
     (new \<noteq> [] \<longrightarrow> Hash_of env (hd new) = hash)"

lemma gathered_Cons:
  assumes "unat number = Suc m" "number_u64 header = number" "header_ok env numof header" "Hash_of env header = hash"
    and "gathered env numof (number - 1) hash' new"
  shows "gathered env numof number hash (header # new)"
proof -
  have "unat (number - 1) = m" using assms(1) by (simp add: unat_minus_one unat_eq_0 [symmetric] flip: unat_0)
  with assms show ?thesis by (auto simp: gathered_def less_Suc_eq_0_disj)
qed

lemma snapshot_find_stop:
  assumes "snapshot_source env chain config number hash (length headers) st = (r, st')" "r \<noteq> Inr None"
  shows "snapshot_find env chain config number hash parents headers st =
    Some (case r of Inl e \<Rightarrow> Inl e | Inr s \<Rightarrow> Inr (the s, headers), st')"
proof (cases r)
  case (Inr s)
  with assms show ?thesis by (cases s; subst snapshot_find.simps) simp_all
qed (use assms in \<open>subst snapshot_find.simps, simp\<close>)

lemma source_answers:
  assumes "engine_ok numof st' \<and> c_signatures st' = c_signatures st \<and>
    (\<forall>snap. r = Inr (Some snap) \<longrightarrow> answers env chain number hash snap \<and>
      snap_Number snap = numof (snap_Hash snap) \<and> (numof hash = number \<longrightarrow> snap_Number snap = number)) \<and>
    (number = 0 \<longrightarrow> r \<noteq> Inr None)" "r \<noteq> Inr None"
    and "snapshot_source env chain config number hash (length headers) st = (r, st')"
  shows "\<exists>r st'. snapshot_find env chain config number hash parents headers st = Some (r, st') \<and>
    engine_ok numof st' \<and> c_signatures st' = c_signatures st \<and>
    (\<forall>snap hs. r = Inr (snap, hs) \<longrightarrow> (\<exists>new. hs = headers @ new \<and> snap_ok snap \<and>
       snap_Number snap = numof (snap_Hash snap) \<and> gathered env numof number hash new \<and>
       (new = [] \<longrightarrow> answers env chain number hash snap \<and> (numof hash = number \<longrightarrow> snap_Number snap = number))))"
proof (cases r)
  case (Inl e)
  with snapshot_find_stop [OF assms(3,2)] assms(1) show ?thesis by simp
next
  case (Inr s)
  with assms(2) obtain snap where "r = Inr (Some snap)" by (cases s) auto
  moreover from this assms(1) have "answers env chain number hash snap"
    "snap_Number snap = numof (snap_Hash snap)" "numof hash = number \<longrightarrow> snap_Number snap = number" by blast+
  ultimately show ?thesis
    using snapshot_find_stop [OF assms(3,2)] assms(1)
    by (simp add: gathered_def answers_def)
qed

lemma snapshot_find_ok:
  assumes "chain_ok env numof chain" "engine_ok numof st" "\<forall>h \<in> set parents. header_ok env numof h"
  shows "\<exists>r st'. snapshot_find env chain config number hash parents headers st = Some (r, st') \<and>
    engine_ok numof st' \<and> c_signatures st' = c_signatures st \<and>
    (\<forall>snap hs. r = Inr (snap, hs) \<longrightarrow> (\<exists>new. hs = headers @ new \<and> snap_ok snap \<and>
       snap_Number snap = numof (snap_Hash snap) \<and> gathered env numof number hash new \<and>
       (new = [] \<longrightarrow> answers env chain number hash snap \<and> (numof hash = number \<longrightarrow> snap_Number snap = number))))"
  using assms
proof (induction "unat number" arbitrary: number hash parents headers st)
  case 0
  then have "number = 0" by (simp add: unat_eq_0)
  obtain r st' where src: "snapshot_source env chain config number hash (length headers) st = (r, st')"
    by (cases "snapshot_source env chain config number hash (length headers) st")
  note ok = snapshot_source_ok [OF src 0(3,2)]
  show ?case by (rule source_answers [OF ok _ src]) (use ok \<open>number = 0\<close> in blast)
next
  case (Suc m)
  obtain r st' where src: "snapshot_source env chain config number hash (length headers) st = (r, st')"
    by (cases "snapshot_source env chain config number hash (length headers) st")
  note ok = snapshot_source_ok [OF src Suc.prems(2,1)]
  show ?case
  proof (cases "r = Inr None")
    case False
    show ?thesis by (rule source_answers [OF ok False src])
  next
    case True
    show ?thesis
    proof (cases "snapshot_gather env chain number hash parents")
      case (Inl e)
      with ok src True show ?thesis by (subst snapshot_find.simps) simp
    next
      case (Inr p)
      obtain header parents' where p: "p = (header, parents')" by (cases p)
      note g = snapshot_gather_ok [OF Inr [unfolded p] Suc.prems(1,3)]
      have m: "m = unat (number - 1)"
        using Suc.hyps(2) by (simp add: unat_minus_one unat_eq_0 [symmetric] flip: unat_0)
      from Suc.hyps(1) [OF m Suc.prems(1), of st' parents' "ParentHash header" "headers @ [header]"] ok g
      obtain r2 st2 where r2: "snapshot_find env chain config (number - 1) (ParentHash header) parents'
          (headers @ [header]) st' = Some (r2, st2)" "engine_ok numof st2" "c_signatures st2 = c_signatures st"
        and hs: "\<And>snap hs. r2 = Inr (snap, hs) \<Longrightarrow> (\<exists>new. hs = (headers @ [header]) @ new \<and> snap_ok snap \<and>
           snap_Number snap = numof (snap_Hash snap) \<and> gathered env numof (number - 1) (ParentHash header) new)"
        by metis
      have "snapshot_find env chain config number hash parents headers st = Some (r2, st2)"
        using src True Inr p r2(1) by (subst snapshot_find.simps) simp
      moreover have "\<exists>new. hs = headers @ new \<and> snap_ok snap \<and>
          snap_Number snap = numof (snap_Hash snap) \<and> gathered env numof number hash new \<and> new \<noteq> []"
        if "r2 = Inr (snap, hs)" for snap hs
      proof -
        from hs [OF that] obtain new where new: "hs = (headers @ [header]) @ new" "snap_ok snap"
          "snap_Number snap = numof (snap_Hash snap)" "gathered env numof (number - 1) (ParentHash header) new"
          by blast
        from gathered_Cons [OF Suc.hyps(2) [symmetric] _ _ _ new(4)] g
        have "gathered env numof number hash (header # new)" by blast
        with new show ?thesis by (intro exI [of _ "header # new"]) simp
      qed
      ultimately show ?thesis using r2 by blast
    qed
  qed
qed

text \<open>The snapshot the gathered headers lead to.\<close>

lemma apply_gathered:
  assumes "gathered env numof number hash new" "new \<noteq> []" "snap_ok snap"
    and "snap_apply (crypto env) config snap (rev new) sigs = (Inr snap', sigs')"
  shows "snap_ok snap' \<and> snap_Number snap' = number \<and> snap_Hash snap' = hash \<and> number = numof hash"
  using assms(4)
proof (cases rule: snap_apply_cases)
  case 1
  with assms(2) show ?thesis by simp
next
  case (2 t)
  let ?n = "length new"
  have g: "unat (number_u64 (new ! i)) = unat number - i" "header_ok env numof (new ! i)" if "i < ?n" for i
    using assms(1) that by (auto simp: gathered_def)
  have "hd (rev new) = new ! (?n - 1)" using assms(2) by (simp add: hd_rev last_conv_nth)
  then have "unat (snap_Number snap + 1) = unat number - (?n - 1)"
    using 2(3) g [of "?n - 1"] assms(2) by simp
  moreover have "?n \<le> unat number" using assms(1) by (simp add: gathered_def)
  ultimately have n: "unat (snap_Number snap + 1) = Suc (unat number - ?n)"
    using assms(2) by (cases new) auto
  have "unat (snap_Number snap) = unat number - ?n"
  proof (cases "snap_Number snap + 1 = 0")
    case False
    then have "unat (snap_Number snap + 1) = Suc (unat (snap_Number snap))" by (simp add: unatSuc add.commute)
    with n show ?thesis by simp
  qed (use n in simp)
  then have len: "unat (snap_Number snap) + ?n = unat number"
    using \<open>?n \<le> unat number\<close> by simp
  have "\<forall>h \<in> set (rev new). length (Extra h) < 2 ^ 63"
    using g(2) by (auto simp: in_set_conv_nth header_ok_def)
  from snap_apply_ok [OF assms(4,3) _ this] len unat_u64_less [of number]
  have "snap_ok snap'" "unat (snap_Number snap') = unat number" by auto
  moreover have "snap_Hash snap' = hash"
    using 2(5) assms(1,2) by (simp add: last_rev gathered_def Hash_of_def)
  moreover have "number = numof hash"
    using g [of 0] assms(1,2) by (cases new) (auto simp: gathered_def header_ok_def word_unat_eq_iff)
  ultimately show ?thesis by (simp add: word_unat_eq_iff)
qed


subsection \<open>Who may seal the next block\<close>

lemma seal_waits_shifted:
  assumes "snap_ok snap" "number = snap_Number snap + 1" "unat (snap_Number snap) + 1 < 2 ^ 64"
  shows "seal_waits snap number val \<longleftrightarrow> val \<in> snd ` set (shifted number (Validators snap) (Recents snap))"
proof -
  let ?V = "Validators snap" and ?n = "unat (snap_Number snap)"
  have ok: "recents_ok ?n ?V (Recents snap)" "vals_ok ?V" using assms(1) by (simp_all add: snap_ok_def)
  have n: "unat number = Suc ?n" using assms by (auto intro!: unat_Suc64)
  note L = unat_sign_limit [OF ok(2)] and w = shifted_window [OF ok n]
  have "(number < sign_limit ?V \<or> seen > number - sign_limit ?V) \<longleftrightarrow> ?n < unat seen + card ?V div 2" for seen
  proof (cases "number < sign_limit ?V")
    case True
    then show ?thesis using L n by (simp add: word_less_nat_alt)
  next
    case False
    then have "unat (number - sign_limit ?V) = ?n - card ?V div 2" "card ?V div 2 \<le> ?n"
      using L n by (simp_all add: unat_sub word_le_nat_alt word_less_nat_alt)
    with False show ?thesis by (auto simp: word_less_nat_alt)
  qed
  then have "seal_waits snap number val \<longleftrightarrow>
      (\<exists>k. (k, val) \<in> set (Recents snap) \<and> ?n < unat k + card ?V div 2)"
    by (auto simp: seal_waits_def list_ex_iff)
  also have "\<dots> \<longleftrightarrow> val \<in> snd ` set (shifted number ?V (Recents snap))" using w by force
  finally show ?thesis .
qed

lemma snap_apply_one:
  assumes "snap_ok snap" "number_u64 h = snap_Number snap + 1"
    and "ecrecover env h sigs = (Inr val, sigs')" "extra_validators (Extra h) \<noteq> None"
  shows "(\<exists>s'. snap_apply env config snap [h] sigs = (Inr s', sigs')) \<longleftrightarrow>
    val \<in> Validators snap \<and> val \<notin> snd ` set (shifted (number_u64 h) (Validators snap) (Recents snap))"
    (is "?L \<longleftrightarrow> ?R")
proof -
  have cp: "snap_copy snap = snap"
    using assms(1) by (intro snap_copy_id) (simp add: snap_ok_def recents_ok_def)
  have "(\<exists>s'. apply_header env config h snap sigs = (Inr s', sigs')) \<longleftrightarrow> ?R"
    using assms(3,4) by (auto simp: apply_header_def Let_def list_ex_snd shifted_def)
  moreover have "?L \<longleftrightarrow> (\<exists>s'. apply_header env config h snap sigs = (Inr s', sigs'))"
    using assms(2) by (cases "apply_header env config h snap sigs"; cases "fst (apply_header env config h snap sigs)")
      (auto simp: snap_apply_iff cp)
  ultimately show ?thesis by simp
qed

text \<open>C28: \<open>Seal\<close> waits exactly when it must. For a header on top of a snapshot, the checks with
  which \<open>Seal\<close> decides to sign agree with \<open>apply\<close>: the sealed block is applied if and only if
  the signer is a validator that does not have to wait.\<close>

theorem Seal_agrees_with_apply:
  assumes "snap_ok snap" "number_u64 h = snap_Number snap + 1" "unat (snap_Number snap) + 1 < 2 ^ 64"
    and "ecrecover (crypto env) h sigs = (Inr val, sigs')" "extra_validators (Extra h) \<noteq> None"
  shows "(\<exists>s'. snap_apply (crypto env) config snap [h] sigs = (Inr s', sigs')) \<longleftrightarrow>
    val \<in> Validators snap \<and> \<not> seal_waits snap (number_u64 h) val"
  unfolding snap_apply_one [OF assms(1,2,4,5)] seal_waits_shifted [OF assms(1-3)] ..

lemma verifySeal_snapD:
  assumes "verifySeal_snap env fakeDiff snap h sigs = (Inr (), sigs')"
  shows "ecrecover (crypto env) h sigs = (Inr (Coinbase h), sigs') \<and> Coinbase h \<in> Validators snap \<and>
    \<not> list_ex (\<lambda>(seen, recent). recent = Coinbase h \<and> seen > number_u64 h - sign_limit (Validators snap)) (Recents snap) \<and>
    (fakeDiff \<or> (\<exists>t. inturn snap (number_u64 h) (Coinbase h) = Some t \<and>
       the (Difficulty h) = (if t then diffInTurn else diffNoTurn)))"
  using assms
  by (auto simp: verifySeal_snap_def Let_def split: prod.splits sum.splits if_splits option.splits)

text \<open>C27: a header that \<open>verifySeal\<close> accepts on top of the snapshot of its parent is accepted by
  \<open>apply\<close>, so that its children find a snapshot, from the block on whose number is the signing
  limit.\<close>

theorem verifySeal_then_apply:
  assumes "verifySeal_snap env fakeDiff snap h sigs = (Inr (), sigs')" "snap_ok snap"
    and "number_u64 h = snap_Number snap + 1" "unat (snap_Number snap) + 1 < 2 ^ 64"
    and "sign_limit (Validators snap) \<le> number_u64 h" "extra_validators (Extra h) \<noteq> None"
    and "keeps_entries (crypto env)" "sigs_ok (crypto env) {h} sigs"
  shows "\<exists>s' sigs''. snap_apply (crypto env) config snap [h] sigs' = (Inr s', sigs'')"
proof -
  note v = verifySeal_snapD [OF assms(1)]
  from ecrecover_recover [OF assms(7,8)] v
  have "recover (crypto env) h = Inr (Coinbase h)" "sigs_ok (crypto env) {h} sigs'" by auto
  with ecrecover_recover [OF assms(7) this(2)] obtain sigs''
    where e: "ecrecover (crypto env) h sigs' = (Inr (Coinbase h), sigs'')" by (metis insertI1 prod.collapse)
  have "\<not> seal_waits snap (number_u64 h) (Coinbase h)"
    using v assms(5) by (auto simp: seal_waits_def list_ex_iff)
  then show ?thesis
    using snap_apply_one [OF assms(2,3) e assms(6)] seal_waits_shifted [OF assms(2-4)] v by blast
qed

text \<open>C29: below the signing limit \<open>verifySeal\<close> accepts a validator that has signed recently: the
  subtraction of the limit from the block number wraps around, and no recent block is above the
  result. \<open>apply\<close> refuses the same header, so that no child of the accepted block can be verified.\<close>

theorem verifySeal_early_blocks:
  assumes "snap_ok snap" "number_u64 h = snap_Number snap + 1" "unat (snap_Number snap) + 1 < 2 ^ 64"
    and "number_u64 h < sign_limit (Validators snap)"
    and "ecrecover (crypto env) h sigs = (Inr (Coinbase h), sigs')" "Coinbase h \<in> Validators snap"
    and "Coinbase h \<in> snd ` set (Recents snap)"
    and "inturn snap (number_u64 h) (Coinbase h) = Some t" "Difficulty h = Some (if t then diffInTurn else diffNoTurn)"
  shows "verifySeal_snap env fakeDiff snap h sigs = (Inr (), sigs') \<and>
    snap_apply (crypto env) config snap [h] sigs = (Inl errRecentlySigned, sigs')"
proof -
  let ?V = "Validators snap" and ?n = "unat (snap_Number snap)"
  have ok: "recents_ok ?n ?V (Recents snap)" "vals_ok ?V" using assms(1) by (simp_all add: snap_ok_def)
  have n: "unat (number_u64 h) = Suc ?n" using assms by (auto intro!: unat_Suc64)
  note L = unat_sign_limit [OF ok(2)]
  have wrap: "\<not> seen > number_u64 h - sign_limit ?V" if "(seen, v) \<in> set (Recents snap)" for seen v
  proof -
    have "\<not> sign_limit ?V \<le> number_u64 h" using assms(4) by simp
    then have "unat (number_u64 h - sign_limit ?V) = unat (number_u64 h) + 2 ^ 64 - unat (sign_limit ?V)"
      by (simp add: unat_sub_if_size word_size word_le_nat_alt)
    moreover have "unat seen \<le> ?n" using ok(1) that by (force simp: recents_ok_def)
    moreover have "card ?V < 2 ^ 63" using ok(2) by (simp add: vals_ok_def)
    moreover have "card ?V div 2 \<le> card ?V" by simp
    ultimately have "unat seen \<le> unat (number_u64 h - sign_limit ?V)" using n L by (simp del: div_le_dividend)
    then show ?thesis by (simp add: word_less_nat_alt)
  qed
  have cp: "snap_copy snap = snap"
    using ok(1) by (intro snap_copy_id) (simp add: recents_ok_def)
  have "\<not> list_ex (\<lambda>(seen, recent). recent = Coinbase h \<and> seen > number_u64 h - sign_limit ?V) (Recents snap)"
    using wrap by (auto simp: list_ex_iff)
  then have "verifySeal_snap env fakeDiff snap h sigs = (Inr (), sigs')"
    using assms(5,6,8,9) by (auto simp: verifySeal_snap_def Let_def)
  moreover have "apply_header (crypto env) config h snap sigs = (Inl errRecentlySigned, sigs')"
    using assms(4-7) by (simp add: apply_header_def Let_def list_ex_snd)
  ultimately show ?thesis using assms(2) by (simp add: snap_apply_def cp)
qed

subsection \<open>Accepted headers\<close>

lemma verifySeal_cases:
  assumes "verifySeal env chain config fakeDiff header parents st = Some (Inr (), st')"
  obtains snap st1 where "number_u64 header \<noteq> 0"
    "congress_snapshot env chain config (number_u64 header - 1) (ParentHash header) parents st = Some (Inr snap, st1)"
    "fst (verifySeal_snap env fakeDiff snap header (c_signatures st1)) = Inr ()"
  using assms
  by (auto simp: verifySeal_def Let_def split: if_splits option.splits prod.splits sum.splits)

lemma verifyCascadingFields_cases:
  assumes "verifyCascadingFields env chain config fakeDiff header parents st = Some (Inr (), st')"
    "number_u64 header \<noteq> 0"
  obtains parent where
    "(if parents = [] then GetHeader chain (ParentHash header) (number_u64 header - 1) else Some (last parents)) = Some parent"
    "number_u64 parent = number_u64 header - 1" "Hash_of env parent = ParentHash header"
    "Time parent + Period config \<le> Time header" "GasUsed header \<le> GasLimit header"
    "VerifyGaslimit (GasLimit parent) (GasLimit header) = None"
    "BaseFee header = (if IsLondon (chain_Config chain) (Number header) then Some 0 else None)"
    "verifySeal env chain config fakeDiff header parents st = Some (Inr (), st')"
proof -
  let ?G = "GetHeader chain (ParentHash header) (number_u64 header - 1)"
  have swap: "(if length parents > 0 then Some (last parents) else ?G) = (if parents = [] then ?G else Some (last parents))"
    by simp
  note body = assms(1) [unfolded verifyCascadingFields_def Let_def swap]
  from body assms(2) obtain parent where p: "(if parents = [] then ?G else Some (last parents)) = Some parent"
    by (cases "if parents = [] then ?G else Some (last parents)") (simp_all del: if_split)
  have "number_u64 parent = number_u64 header - 1" "Hash_of env parent = ParentHash header"
    "Time parent + Period config \<le> Time header" "GasUsed header \<le> GasLimit header"
    using body [unfolded p] assms(2) by (auto split: if_splits)
  moreover have "VerifyGaslimit (GasLimit parent) (GasLimit header) = None"
    "BaseFee header = (if IsLondon (chain_Config chain) (Number header) then Some 0 else None)"
    "verifySeal env chain config fakeDiff header parents st = Some (Inr (), st')"
    using body [unfolded p] assms(2)
    by (auto simp: VerifyEip1559Header_def CalcBaseFee_def Let_def split: if_splits option.splits)
  ultimately show thesis using that p by blast
qed

text \<open>C25: what an accepted header guarantees. A header above genesis that \<open>verifyHeader\<close> accepts
  is not from the future, has room for the vanity and the seal and between them nothing, or at an
  epoch a list of addresses; its parent is known, older by the period, and close to it in gas
  limit; its base fee is zero from London on and absent before; and it is sealed by its coinbase,
  a validator of the parent's snapshot, with the difficulty of the signer's turn.\<close>

theorem verifyHeader_sound:
  assumes "verifyHeader env chain config False now header parents st = Some (Inr (), st')"
    "number_u64 header \<noteq> 0"
  shows "\<exists>parent snap st1 t.
    Number header \<noteq> None \<and> Time header \<le> now \<and> MixDigest header = replicate 32 0 \<and>
    UncleHash header = congress_uncleHash (Keccak256 (crypto env)) \<and>
    extraVanity + extraSeal \<le> length (Extra header) \<and>
    (if number_u64 header mod Epoch config = 0
     then (length (Extra header) - extraVanity - extraSeal) mod AddressLength = 0
     else length (Extra header) = extraVanity + extraSeal) \<and>
    GasUsed header \<le> GasLimit header \<and> GasLimit header \<le> 0x7fffffffffffffff \<and>
    (if parents = [] then GetHeader chain (ParentHash header) (number_u64 header - 1) else Some (last parents)) = Some parent \<and>
    number_u64 parent = number_u64 header - 1 \<and> Hash_of env parent = ParentHash header \<and>
    Time parent + Period config \<le> Time header \<and>
    VerifyGaslimit (GasLimit parent) (GasLimit header) = None \<and>
    BaseFee header = (if IsLondon (chain_Config chain) (Number header) then Some 0 else None) \<and>
    congress_snapshot env chain config (number_u64 header - 1) (ParentHash header) parents st = Some (Inr snap, st1) \<and>
    fst (ecrecover (crypto env) header (c_signatures st1)) = Inr (Coinbase header) \<and>
    Coinbase header \<in> Validators snap \<and>
    inturn snap (number_u64 header) (Coinbase header) = Some t \<and>
    Difficulty header = Some (if t then diffInTurn else diffNoTurn)"
proof -
  have pos: "number_u64 header > 0" using assms(2) by (simp add: word_neq_0_conv)
  have top: "Number header \<noteq> None" "Time header \<le> now" "MixDigest header = replicate 32 0"
    "UncleHash header = congress_uncleHash (Keccak256 (crypto env))"
    "extraVanity + extraSeal \<le> length (Extra header)"
    "if number_u64 header mod Epoch config = 0
     then (length (Extra header) - extraVanity - extraSeal) mod AddressLength = 0
     else length (Extra header) = extraVanity + extraSeal"
    "Difficulty header \<noteq> None" "GasLimit header \<le> 0x7fffffffffffffff"
    using assms(1) pos unfolding verifyHeader_def Let_def by (auto split: if_splits)
  have "verifyCascadingFields env chain config False header parents st = Some (Inr (), st')"
    using assms(1) unfolding verifyHeader_def Let_def by (simp split: if_splits option.splits)
  from verifyCascadingFields_cases [OF this assms(2)] obtain parent where p:
    "(if parents = [] then GetHeader chain (ParentHash header) (number_u64 header - 1) else Some (last parents)) = Some parent"
    "number_u64 parent = number_u64 header - 1" "Hash_of env parent = ParentHash header"
    "Time parent + Period config \<le> Time header" "GasUsed header \<le> GasLimit header"
    "VerifyGaslimit (GasLimit parent) (GasLimit header) = None"
    "BaseFee header = (if IsLondon (chain_Config chain) (Number header) then Some 0 else None)"
    "verifySeal env chain config False header parents st = Some (Inr (), st')" .
  from verifySeal_cases [OF p(8)] obtain snap st1 where
    s: "congress_snapshot env chain config (number_u64 header - 1) (ParentHash header) parents st = Some (Inr snap, st1)"
      "fst (verifySeal_snap env False snap header (c_signatures st1)) = Inr ()" by blast
  then obtain sg where "verifySeal_snap env False snap header (c_signatures st1) = (Inr (), sg)"
    by (metis prod.collapse)
  from verifySeal_snapD [OF this] obtain t where v:
    "ecrecover (crypto env) header (c_signatures st1) = (Inr (Coinbase header), sg)"
    "Coinbase header \<in> Validators snap" "inturn snap (number_u64 header) (Coinbase header) = Some t"
    "the (Difficulty header) = (if t then diffInTurn else diffNoTurn)" by auto
  have d: "Difficulty header = Some (if t then diffInTurn else diffNoTurn)"
    using top(7) v(4) by (cases "Difficulty header") simp_all
  have e: "fst (ecrecover (crypto env) header (c_signatures st1)) = Inr (Coinbase header)" by (simp add: v(1))
  show ?thesis
    by (rule exI [of _ parent], rule exI [of _ snap], rule exI [of _ st1], rule exI [of _ t])
      (intro conjI top p s(1) v(2,3) d e)
qed

subsection \<open>A block that is prepared and sealed\<close>

text \<open>What the wallet promises of its signatures: they have 65 bytes, and the key recovered from
  a signature of a message is that of the signer.\<close>

definition signs_right :: "engine_env \<Rightarrow> bool" where
  "signs_right env \<longleftrightarrow>
     (\<forall>val msg sig. signFn env val msg = Some sig \<longrightarrow> length sig = extraSeal \<and>
        (\<exists>pub. Ecrecover (crypto env) (Keccak256 (crypto env) msg) sig = Some pub \<and>
           drop 12 (Keccak256 (crypto env) (drop 1 pub)) = val))"

lemma put_seal_parts:
  assumes "extraSeal \<le> length extra" "length sig = extraSeal"
  shows "length (put_seal extra sig) = length extra"
    "take (length extra - extraSeal) (put_seal extra sig) = take (length extra - extraSeal) extra"
    "drop (length extra - extraSeal) (put_seal extra sig) = sig"
  using assms by (simp_all add: put_seal_def Let_def)

lemma CongressRLP_put_seal:
  assumes "extraSeal \<le> length (Extra h)" "length sig = extraSeal"
  shows "CongressRLP (h\<lparr>Extra := put_seal (Extra h) sig\<rparr>) = CongressRLP h"
  using put_seal_parts [OF assms]
  by (simp add: CongressRLP_def encodeSigHeader_def sigHeader_gval_def)

lemma recover_sealed:
  assumes "CongressRLP h = Some rlp" "signFn env val rlp = Some sig" "signs_right env"
  shows "recover (crypto env) (h\<lparr>Extra := put_seal (Extra h) sig\<rparr>) = Inr val"
proof -
  have len: "extraSeal \<le> length (Extra h)"
    using assms(1) by (auto simp: CongressRLP_def encodeSigHeader_def split: if_splits)
  from assms(2,3) obtain pub where sig: "length sig = extraSeal"
    "Ecrecover (crypto env) (Keccak256 (crypto env) rlp) sig = Some pub"
    "drop 12 (Keccak256 (crypto env) (drop 1 pub)) = val" unfolding signs_right_def by blast
  have "SealHash (Keccak256 (crypto env)) (h\<lparr>Extra := put_seal (Extra h) sig\<rparr>) =
      Some (Keccak256 (crypto env) rlp)"
    using CongressRLP_put_seal [OF len sig(1)] assms(1) by (simp add: SealHash_def CongressRLP_def)
  then show ?thesis
    using put_seal_parts [OF len sig(1)] len sig by (simp add: recover_def)
qed

text \<open>C26: a block that \<open>Prepare\<close> has set up and \<open>Seal\<close> has signed is accepted by \<open>verifySeal\<close>
  and by \<open>apply\<close> on the snapshot that \<open>Seal\<close> used. The difficulty is the one \<open>Prepare\<close> computes
  from that snapshot, the coinbase the validator.\<close>

theorem Seal_then_verifySeal:
  assumes "Seal env chain config header ntxs st = Some (Sealed header', st')"
    and "congress_snapshot env chain config (number_u64 header - 1) (ParentHash header) [] st = Some (Inr snap, st1)"
    and "Coinbase header = c_validator st" "Difficulty header = calcDifficulty snap (c_validator st)"
    and "snap_ok snap" "snap_Number snap = number_u64 header - 1"
    and "signs_right env" "keeps_entries (crypto env)" "sigs_ok (crypto env) {header'} sigs"
    and "extra_validators (Extra header) \<noteq> None"
  shows "fst (verifySeal_snap env fakeDiff snap header' sigs) = Inr () \<and>
    (\<exists>s' sigs'. snap_apply (crypto env) config snap [header'] sigs = (Inr s', sigs'))"
proof -
  let ?val = "c_validator st" and ?n = "number_u64 header"
  from assms(1,2) obtain rlp sig where s: "?n \<noteq> 0" "?val \<in> Validators snap" "\<not> seal_waits snap ?n ?val"
    "CongressRLP header = Some rlp" "signFn env ?val rlp = Some sig"
    "header' = header\<lparr>Extra := put_seal (Extra header) sig\<rparr>"
    by (auto simp: Seal_def Let_def split: if_splits option.splits)
  have rec: "recover (crypto env) header' = Inr ?val"
    unfolding s(6) by (rule recover_sealed [OF s(4,5) assms(7)])
  obtain sigs' where e: "ecrecover (crypto env) header' sigs = (Inr ?val, sigs')"
    using ecrecover_recover [OF assms(8,9)] rec by (metis insertI1 prod.collapse)
  have h': "number_u64 header' = ?n" "Coinbase header' = ?val" "Difficulty header' = Difficulty header"
    using assms(3) by (simp_all add: s(6) number_u64_def)
  have num: "?n = snap_Number snap + 1" using assms(6) by simp
  have bound: "unat (snap_Number snap) + 1 < 2 ^ 64"
    using s(1) assms(6) unat_u64_less [of ?n] by (simp add: unat_minus_one unat_eq_0 [symmetric] flip: unat_0)
  have ne: "Validators snap \<noteq> {}" "vals_ok (Validators snap)" using s(2) assms(5) by (auto simp: snap_ok_def)
  obtain t where t: "inturn snap ?n ?val = Some t" using inturn_iff [OF ne(2,1)] by blast
  have d: "Difficulty header = Some (if t then diffInTurn else diffNoTurn)"
    using t assms(4) num by (cases t) (simp_all add: calcDifficulty_def)
  have "\<not> list_ex (\<lambda>(seen, recent). recent = ?val \<and> seen > ?n - sign_limit (Validators snap)) (Recents snap)"
    using s(3) by (auto simp: seal_waits_def list_ex_iff)
  then have "fst (verifySeal_snap env fakeDiff snap header' sigs) = Inr ()"
    using e h' s(2) t d by (auto simp: verifySeal_snap_def Let_def)
  moreover have "length (Extra header') = length (Extra header)"
    using s(4,5,6) assms(7) put_seal_parts(1) [of "Extra header" sig]
    by (auto simp: signs_right_def CongressRLP_def encodeSigHeader_def split: if_splits)
  then have "extra_validators (Extra header') \<noteq> None"
    using assms(10) by (simp add: extra_validators_def split: if_splits)
  then have "\<exists>s'. snap_apply (crypto env) config snap [header'] sigs = (Inr s', sigs')"
    using snap_apply_one [OF assms(5) _ e, of config] seal_waits_shifted [OF assms(5) num bound] s(2,3) h'(1) num
    by simp
  ultimately show ?thesis by blast
qed

lemma snapshot_source_validator:
  "snapshot_source env chain config number hash k st = (r, st') \<Longrightarrow> c_validator st' = c_validator st"
  by (auto simp: snapshot_source_def snap_store_def Let_def split: option.splits if_splits)

lemma snapshot_find_validator:
  "snapshot_find env chain config number hash parents headers st = Some y \<Longrightarrow>
   c_validator (snd y) = c_validator st"
proof (erule snapshot_find.raw_induct
    [where P = "\<lambda>env chain config number hash parents headers st y. c_validator (snd y) = c_validator st", rotated])
  fix rec :: "engine_env \<Rightarrow> chain_reader \<Rightarrow> CongressConfig \<Rightarrow> u64 \<Rightarrow> hash \<Rightarrow> Header list \<Rightarrow> Header list \<Rightarrow>
      congress_state \<Rightarrow> ((congress_error + Snapshot \<times> Header list) \<times> congress_state) option"
    and env chain config number hash parents headers st y
  assume IH: "\<And>env chain config number hash parents headers st y.
      rec env chain config number hash parents headers st = Some y \<Longrightarrow> c_validator (snd y) = c_validator st"
    and body: "(case snapshot_source env chain config number hash (length headers) st of
        (Inl err, st) \<Rightarrow> Some (Inl err, st)
      | (Inr (Some snap), st) \<Rightarrow> Some (Inr (snap, headers), st)
      | (Inr None, st) \<Rightarrow>
          (case snapshot_gather env chain number hash parents of
             Inl err \<Rightarrow> Some (Inl err, st)
           | Inr (header, parents) \<Rightarrow>
               rec env chain config (number - 1) (ParentHash header) parents (headers @ [header]) st)) = Some y"
  obtain r st1 where src: "snapshot_source env chain config number hash (length headers) st = (r, st1)"
    by (cases "snapshot_source env chain config number hash (length headers) st")
  with body snapshot_source_validator [OF src] show "c_validator (snd y) = c_validator st"
    by (auto dest!: IH split: sum.splits option.splits)
qed

lemma congress_snapshot_validator:
  "congress_snapshot env chain config number hash parents st = Some (r, st') \<Longrightarrow> c_validator st' = c_validator st"
  by (auto simp: congress_snapshot_def Let_def snap_store_def dest!: snapshot_find_validator
      split: option.splits prod.splits sum.splits if_splits)

lemma length_concat_addresses:
  "\<forall>a \<in> set vs. length a = AddressLength \<Longrightarrow> length (concat vs) = length vs * AddressLength"
  by (induction vs) auto

lemma prepared_vanity:
  "length (take extraVanity (if length x < extraVanity then x @ replicate (extraVanity - length x) 0 else x)) = extraVanity"
  by auto


end
