(* ===== verification/Congress_Examples.thy ===== *)
theory Congress_Examples
  imports Congress_Engine_Correct
begin

text \<open>
  A small chain on which the statements about the congress engine are applied: four validators
  listed in the genesis block, and a first block that the validator in turn prepares, seals and
  everyone verifies.

  The digest of the example is a checksum in 32 bytes; the first byte of a signature is the last
  byte of the address that made it.
\<close>

definition ex_digest :: "bytes \<Rightarrow> hash" where
  "ex_digest b = replicate 31 0 @ [sum_list b]"

definition ex_addr :: "byte \<Rightarrow> address" where
  "ex_addr b = replicate 19 0 @ [b]"

definition ex_crypto :: crypto_env where
  "ex_crypto = \<lparr>Keccak256 = ex_digest, Ecrecover = (\<lambda>sh sig. Some [0, hd sig]), keep_sigs = (\<lambda>c. [])\<rparr>"

definition ex_env :: engine_env where
  "ex_env = \<lparr>crypto = ex_crypto, keep_recents = (\<lambda>c. []), db_Put = (\<lambda>k s. True),
     signFn = (\<lambda>val msg. if length val = 20 \<and> val = ex_addr (last val) then Some (last val # replicate 64 0) else None)\<rparr>"

definition ex_genesis :: Header where
  "ex_genesis = zero_header\<lparr>GasLimit := 8000000,
     Extra := replicate 32 0 @ ex_addr 1 @ ex_addr 2 @ ex_addr 3 @ ex_addr 4 @ replicate 65 0\<rparr>"

definition ex_chain :: chain_reader where
  "ex_chain = \<lparr>GetHeader = (\<lambda>h n. if n = 0 \<and> h = Hash_of ex_env ex_genesis then Some ex_genesis else None),
     GetHeaderByNumber = (\<lambda>n. if n = 0 then Some ex_genesis else None), chain_Config = sample_config\<rparr>"

definition ex_state :: congress_state where
  "ex_state = \<lparr>c_recents = [], c_signatures = [], c_db = [], c_validator = ex_addr 2\<rparr>"

definition ex_snap :: Snapshot where
  "ex_snap = newSnapshot 0 (Hash_of ex_env ex_genesis) [ex_addr 1, ex_addr 2, ex_addr 3, ex_addr 4]"

definition ex_state1 :: congress_state where
  "ex_state1 = ex_state\<lparr>c_db := [(Hash_of ex_env ex_genesis, ex_snap)]\<rparr>"

lemma ex_number [simp]: "number_u64 ex_genesis = 0"
  by (simp add: number_u64_def ex_genesis_def zero_header_def)

lemma ex_extra_validators:
  "extra_validators (Extra ex_genesis) = Some [ex_addr 1, ex_addr 2, ex_addr 3, ex_addr 4]"
  by (simp add: ex_genesis_def zero_header_def) code_simp

lemma ex_addr_eq [simp]: "ex_addr a = ex_addr b \<longleftrightarrow> a = b" "length (ex_addr a) = 20"
  by (simp_all add: ex_addr_def)

lemma ex_validators [simp]:
  "Validators ex_snap = {ex_addr 1, ex_addr 2, ex_addr 3, ex_addr 4}" "snap_Number ex_snap = 0"
  "Recents ex_snap = []" "snap_Hash ex_snap = Hash_of ex_env ex_genesis"
  by (simp_all add: ex_snap_def newSnapshot_def)

lemma ex_card: "card (Validators ex_snap) = 4"
  by simp

lemma ex_snap_ok [simp]: "snap_ok ex_snap"
  unfolding ex_snap_def by (rule newSnapshot_ok) simp

lemma ex_snapshot:
  "congress_snapshot ex_env ex_chain sample_config3 0 (Hash_of ex_env ex_genesis) [] ex_state =
    Some (Inr ex_snap, ex_state1)"
proof -
  have "snapshot_source ex_env ex_chain sample_config3 0 (Hash_of ex_env ex_genesis) 0 ex_state =
      (Inr (Some ex_snap), ex_state1)"
    by (simp add: snapshot_source_def ex_state_def loadSnapshot_def ex_chain_def ex_extra_validators
        snap_store_def ex_state1_def Let_def flip: ex_snap_def) (simp add: ex_env_def)
  then have "snapshot_find ex_env ex_chain sample_config3 0 (Hash_of ex_env ex_genesis) [] [] ex_state =
      Some (Inr (ex_snap, []), ex_state1)"
    by (subst snapshot_find.simps) simp
  then show ?thesis
    by (simp add: congress_snapshot_def Let_def) (simp add: ex_env_def ex_state1_def ex_state_def)
qed

lemma ex_chain_ok: "chain_ok ex_env (\<lambda>h. 0) ex_chain"
  by (auto simp: chain_ok_def ex_chain_def header_ok_def split: if_splits)
    (simp_all add: ex_genesis_def)


subsection \<open>The first block\<close>

definition ex_block1 :: Header where
  "ex_block1 = zero_header\<lparr>ParentHash := Hash_of ex_env ex_genesis, UncleHash := replicate 31 0 @ [0xC0],
     Coinbase := ex_addr 2, Number := Some 1, Difficulty := Some 2, GasLimit := 8000000, Time := 3,
     Extra := replicate 32 0 @ [2] @ replicate 64 0\<rparr>"

lemma ex_sorted: "snap_validators ex_snap = [ex_addr 1, ex_addr 2, ex_addr 3, ex_addr 4]"
proof -
  have less: "ex_addr a \<le> ex_addr b \<longleftrightarrow> a \<le> b" for a b
  proof -
    have "replicate n 0 @ [a] \<le> replicate n 0 @ [b] \<longleftrightarrow> a \<le> b" for n by (induction n) auto
    then show ?thesis by (simp add: ex_addr_def)
  qed
  have "sorted_list_of_set (set [ex_addr 1, ex_addr 2, ex_addr 3, ex_addr 4]) =
      [ex_addr 1, ex_addr 2, ex_addr 3, ex_addr 4]"
    by (rule sorted_list_of_set.idem_if_sorted_distinct) (simp_all add: less)
  then show ?thesis by (simp add: snap_validators_def)
qed

lemma ex_turn [simp]: "inturn ex_snap 1 v = Some (v = ex_addr 2)"
  using inturn_iff [of ex_snap 1 v] ex_snap_ok by (simp add: ex_sorted snap_ok_def)

lemma ex_limit: "sign_limit (Validators ex_snap) = 3"
  unfolding sign_limit_def ex_card by simp

lemma BitLen_2 [simp]: "BitLen 2 = 2"
  by (simp add: BitLen.simps)

lemma length_Hash_of [simp]: "length (Hash_of ex_env h) = 32"
  by (simp add: Hash_of_def header_Hash_def rlpHash_def ex_env_def ex_crypto_def ex_digest_def split: prod.splits)

text \<open>A header with the seal of one of the validators.\<close>

definition sealed_by :: "byte \<Rightarrow> Header \<Rightarrow> bool" where
  "sealed_by b h \<longleftrightarrow> wf_header h \<and> SanityCheck h = None \<and> extraSeal \<le> length (Extra h) \<and>
     hd (drop (length (Extra h) - extraSeal) (Extra h)) = b"

lemma ecrecover_ex:
  assumes "sealed_by b h"
  shows "recover ex_crypto h = Inr (ex_addr b)" "ecrecover ex_crypto h [] = (Inr (ex_addr b), [])"
proof -
  have "\<exists>w. encodeSigHeader h [] = Some w"
    using assms encodeSigHeader_sane [of h "[]"] by (auto simp: sealed_by_def)
  then show r: "recover ex_crypto h = Inr (ex_addr b)"
    using assms
    by (auto simp: recover_def SealHash_def sealed_by_def ex_crypto_def ex_digest_def ex_addr_def)
  then show "ecrecover ex_crypto h [] = (Inr (ex_addr b), [])"
    by (simp add: ecrecover_def) (simp add: ex_crypto_def)
qed

lemma ex_block1_sealed: "sealed_by 2 ex_block1"
  by (simp add: sealed_by_def ex_block1_def wf_header_def SanityCheck_def zero_header_def)

lemma ex_env_crypto [simp]: "crypto ex_env = ex_crypto" "Keccak256 ex_crypto = ex_digest"
  by (simp_all add: ex_env_def ex_crypto_def)

lemma ex_uncleHash: "congress_uncleHash ex_digest = replicate 31 0 @ [0xC0]"
proof -
  have "enc (GSlice []) = Inr [0xC0]" by (simp add: rlp_list_def rlp_head_def)
  then have "rlpHash ex_digest (GSlice []) = ex_digest [0xC0]"
    by (subst rlpHash_enc) (simp_all add: encodable_def)
  then show ?thesis by (simp add: congress_uncleHash_def ex_digest_def)
qed

lemma ex_block1_number [simp]: "number_u64 ex_block1 = 1" "Number ex_block1 = Some 1"
  by (simp_all add: number_u64_def ex_block1_def)

lemma ex_verifySeal:
  "verifySeal ex_env ex_chain sample_config3 False ex_block1 [] ex_state = Some (Inr (), ex_state1)"
proof -
  have c: "Coinbase ex_block1 = ex_addr 2" "Difficulty ex_block1 = Some 2"
    "ParentHash ex_block1 = Hash_of ex_env ex_genesis" by (simp_all add: ex_block1_def)
  have "c_signatures ex_state1 = []" by (simp add: ex_state1_def ex_state_def)
  with c ex_snapshot ecrecover_ex(2) [OF ex_block1_sealed] show ?thesis
    by (simp add: verifySeal_def verifySeal_snap_def)
qed

lemma ex_verifyHeader:
  "verifyHeader ex_env ex_chain sample_config3 False 10 ex_block1 [] ex_state = Some (Inr (), ex_state1)"
proof -
  have g: "VerifyGaslimit 8000000 8000000 = None" by (simp add: VerifyGaslimit_def)
  have p: "GetHeader ex_chain (Hash_of ex_env ex_genesis) 0 = Some ex_genesis" by (simp add: ex_chain_def)
  have cf: "chain_Config ex_chain = sample_config" by (simp add: ex_chain_def)
  have f: "Time ex_genesis = 0" "GasLimit ex_genesis = 8000000" by (simp_all add: ex_genesis_def zero_header_def)
  have b: "ParentHash ex_block1 = Hash_of ex_env ex_genesis" "Time ex_block1 = 3" "GasUsed ex_block1 = 0"
    "GasLimit ex_block1 = 8000000" "BaseFee ex_block1 = None" "length (Extra ex_block1) = 97"
    "MixDigest ex_block1 = replicate 32 0" "UncleHash ex_block1 = replicate 31 0 @ [0xC0]"
    "Difficulty ex_block1 = Some 2" by (simp_all add: ex_block1_def zero_header_def)
  have l: "\<not> IsLondon sample_config (Some 1)" "VerifyForkHashes k sample_config ex_block1 False = None" for k
    by (simp_all add: IsLondon_def isForked_def VerifyForkHashes_def sample_config_def)
  have "verifyCascadingFields ex_env ex_chain sample_config3 False ex_block1 [] ex_state = Some (Inr (), ex_state1)"
    using ex_verifySeal by (simp add: verifyCascadingFields_def b p f g l cf sample_config3_def)
  then show ?thesis
    by (simp add: verifyHeader_def b l cf ex_uncleHash)
qed

theorem verifyHeader_sound_witness:
  "\<exists>t. inturn ex_snap 1 (ex_addr 2) = Some t \<and> Difficulty ex_block1 = Some (if t then diffInTurn else diffNoTurn)"
  using verifyHeader_sound [OF ex_verifyHeader] ex_snapshot by (auto simp: ex_block1_def)

lemma ex_extra1: "extra_validators (Extra ex_block1) \<noteq> None"
  by (simp add: ex_block1_def extra_validators_def)

theorem Seal_agrees_with_apply_witness:
  "(\<exists>s'. snap_apply ex_crypto sample_config3 ex_snap [ex_block1] [] = (Inr s', [])) \<longleftrightarrow>
    ex_addr 2 \<in> Validators ex_snap \<and> \<not> seal_waits ex_snap 1 (ex_addr 2)"
  using Seal_agrees_with_apply [of ex_snap ex_block1 ex_env "[]" "ex_addr 2" "[]" sample_config3]
    ecrecover_ex(2) [OF ex_block1_sealed] ex_extra1 by simp

lemma ex_keeps [simp]: "keeps_entries ex_crypto"
  by (simp add: keeps_entries_def ex_crypto_def)

lemma ex_sigs [simp]: "sigs_ok ex_crypto {h} []"
  by (simp add: sigs_ok_def)

text \<open>A later block: the snapshot at block 5, where the second validator has sealed block 3.\<close>

definition ex_snap5 :: Snapshot where
  "ex_snap5 = ex_snap\<lparr>snap_Number := 5, Recents := [(3, ex_addr 2), (4, ex_addr 1), (5, ex_addr 4)]\<rparr>"

definition ex_block6 :: Header where
  "ex_block6 = ex_block1\<lparr>Number := Some 6, Difficulty := Some 1\<rparr>"

lemma ex_block6_sealed: "sealed_by 2 ex_block6"
  using ex_block1_sealed BitLen_less [of 6 3]
  by (auto simp: sealed_by_def ex_block6_def wf_header_def SanityCheck_def split: if_splits)

lemma ex_snap5_ok: "snap_ok ex_snap5"
  by (simp add: snap_ok_def ex_snap5_def vals_ok_def recents_ok_def del: ex_validators) simp

lemma ex_verify6: "verifySeal_snap ex_env False ex_snap5 ex_block6 [] = (Inr (), [])"
proof -
  have "inturn ex_snap5 6 (ex_addr 2) = Some False"
    using inturn_iff [of ex_snap5 6] ex_snap5_ok ex_sorted
    by (simp add: snap_ok_def ex_snap5_def snap_validators_def)
  moreover have "sign_limit (Validators ex_snap5) = 3" using ex_limit by (simp add: ex_snap5_def)
  moreover have "Coinbase ex_block6 = ex_addr 2" "Difficulty ex_block6 = Some 1" "number_u64 ex_block6 = 6"
    by (simp_all add: ex_block6_def ex_block1_def number_u64_def)
  ultimately show ?thesis
    using ecrecover_ex(2) [OF ex_block6_sealed]
    by (simp add: verifySeal_snap_def) (simp add: ex_snap5_def)
qed

theorem verifySeal_then_apply_witness:
  "\<exists>s' sigs''. snap_apply ex_crypto sample_config3 ex_snap5 [ex_block6] [] = (Inr s', sigs'')"
proof -
  have "sign_limit (Validators ex_snap5) = 3" using ex_limit by (simp add: ex_snap5_def)
  moreover have "number_u64 ex_block6 = 6" "snap_Number ex_snap5 = 5" "extra_validators (Extra ex_block6) \<noteq> None"
    using ex_extra1 by (simp_all add: ex_block6_def number_u64_def ex_snap5_def)
  ultimately show ?thesis
    using verifySeal_then_apply [OF ex_verify6 ex_snap5_ok] by simp
qed

text \<open>The second validator seals blocks 1 and 2, below the limit of three blocks.\<close>

definition ex_snap1 :: Snapshot where
  "ex_snap1 = ex_snap\<lparr>snap_Number := 1, Recents := [(1, ex_addr 2)]\<rparr>"

definition ex_block2 :: Header where
  "ex_block2 = ex_block1\<lparr>Number := Some 2, Difficulty := Some 1\<rparr>"

theorem verifySeal_early_blocks_witness:
  "verifySeal_snap ex_env False ex_snap1 ex_block2 [] = (Inr (), []) \<and>
   snap_apply ex_crypto sample_config3 ex_snap1 [ex_block2] [] = (Inl errRecentlySigned, [])"
proof -
  have ok: "snap_ok ex_snap1"
    by (simp add: snap_ok_def ex_snap1_def vals_ok_def recents_ok_def del: ex_validators) simp
  have "sealed_by 2 ex_block2"
    using ex_block1_sealed by (auto simp: sealed_by_def ex_block2_def wf_header_def SanityCheck_def split: if_splits)
  then have e: "ecrecover ex_crypto ex_block2 [] = (Inr (ex_addr 2), [])" by (rule ecrecover_ex)
  have t: "inturn ex_snap1 2 (ex_addr 2) = Some False"
    using inturn_iff [of ex_snap1 2] ok ex_sorted by (simp add: snap_ok_def ex_snap1_def snap_validators_def)
  have "sign_limit (Validators ex_snap1) = 3" using ex_limit by (simp add: ex_snap1_def)
  moreover have "Coinbase ex_block2 = ex_addr 2" "Difficulty ex_block2 = Some 1" "number_u64 ex_block2 = 2"
    "snap_Number ex_snap1 = 1" "Coinbase ex_block2 \<in> Validators ex_snap1" "Coinbase ex_block2 \<in> snd ` set (Recents ex_snap1)"
    by (simp_all add: ex_block2_def ex_block1_def number_u64_def ex_snap1_def)
  ultimately show ?thesis
    using verifySeal_early_blocks [OF ok, of ex_block2 ex_env "[]" "[]" False] e t by simp
qed

subsection \<open>Preparing and sealing it\<close>

lemma ex_signs_right: "signs_right ex_env"
  unfolding signs_right_def
proof (intro allI impI)
  fix val msg sig
  assume "signFn ex_env val msg = Some sig"
  then have s: "val = ex_addr (last val)" "sig = last val # replicate 64 0" by (auto simp: ex_env_def split: if_splits)
  have "drop 12 (ex_digest [last val]) = ex_addr (last val)" by (simp add: ex_digest_def ex_addr_def)
  with s show "length sig = extraSeal \<and>
      (\<exists>pub. Ecrecover (crypto ex_env) (Keccak256 (crypto ex_env) msg) sig = Some pub \<and>
        drop 12 (Keccak256 (crypto ex_env) (drop 1 pub)) = val)"
    by (simp add: ex_crypto_def)
qed

definition ex_draft1 :: Header where
  "ex_draft1 = ex_block1\<lparr>Extra := replicate 97 0\<rparr>"

lemma ex_Seal: "Seal ex_env ex_chain sample_config3 ex_draft1 0 ex_state = Some (Sealed ex_block1, ex_state1)"
proof -
  have "sealed_by 0 ex_draft1"
    using ex_block1_sealed by (auto simp: sealed_by_def ex_draft1_def wf_header_def SanityCheck_def split: if_splits)
  then obtain rlp where r: "CongressRLP ex_draft1 = Some rlp"
    using encodeSigHeader_sane [of ex_draft1 "[]"] by (auto simp: CongressRLP_def sealed_by_def)
  have sg: "signFn ex_env (ex_addr 2) rlp = Some (2 # replicate 64 0)" by (simp add: ex_env_def ex_addr_def)
  have ps: "ex_draft1\<lparr>Extra := put_seal (Extra ex_draft1) (2 # replicate 64 0)\<rparr> = ex_block1"
    by (simp add: ex_draft1_def put_seal_def ex_block1_def)
  have d: "number_u64 ex_draft1 = 1" "ParentHash ex_draft1 = Hash_of ex_env ex_genesis"
    by (simp_all add: ex_draft1_def number_u64_def ex_block1_def)
  have "c_validator ex_state = ex_addr 2" "\<not> seal_waits ex_snap 1 (ex_addr 2)"
    by (simp_all add: ex_state_def seal_waits_def)
  then show ?thesis
    using ex_snapshot r sg by (simp add: Seal_def d ps) (simp add: sample_config3_def)
qed

theorem Seal_then_verifySeal_witness:
  "fst (verifySeal_snap ex_env False ex_snap ex_block1 []) = Inr () \<and>
    (\<exists>s' sigs'. snap_apply ex_crypto sample_config3 ex_snap [ex_block1] [] = (Inr s', sigs'))"
proof -
  have d: "number_u64 ex_draft1 = 1" "ParentHash ex_draft1 = Hash_of ex_env ex_genesis"
    "Coinbase ex_draft1 = c_validator ex_state" "Difficulty ex_draft1 = calcDifficulty ex_snap (c_validator ex_state)"
    "extra_validators (Extra ex_draft1) \<noteq> None"
    by (simp_all add: ex_draft1_def number_u64_def ex_block1_def ex_state_def calcDifficulty_def extra_validators_def)
  show ?thesis
    using Seal_then_verifySeal [OF ex_Seal, of ex_snap ex_state1 "[]" False] d ex_snapshot ex_signs_right by simp
qed

lemma ex_Prepare:
  "\<exists>header'. Prepare ex_env ex_chain sample_config3 (\<lambda>h. Inr []) 1 2 ex_draft1 ex_state = Some (Inr (), header', ex_state1)"
proof -
  have d: "number_u64 (ex_draft1\<lparr>Coinbase := ex_addr 2, Nonce := replicate 8 0\<rparr>) = 1"
    "ParentHash ex_draft1 = Hash_of ex_env ex_genesis"
    by (simp_all add: ex_draft1_def number_u64_def ex_block1_def)
  have p: "GetHeader ex_chain (Hash_of ex_env ex_genesis) 0 = Some ex_genesis" by (simp add: ex_chain_def)
  have st: "c_validator ex_state = ex_addr 2" "c_validator ex_state1 = ex_addr 2"
    by (simp_all add: ex_state1_def ex_state_def)
  have e: "(1 :: u64) mod Epoch sample_config3 \<noteq> 0" by (simp add: sample_config3_def)
  show ?thesis
    using ex_snapshot by (simp add: Prepare_def Let_def d p st e calcDifficulty_def)
qed


end
