(* ===== verification/Trie_Encoding.thy ===== *)
theory Trie_Encoding
  imports Rlp_Encode_Correct
begin

text \<open>
  The three encodings of trie keys, \<open>trie/encoding.go\<close>: key bytes, hex (one byte for
  each nibble and an optional terminator 16) and compact (the hex-prefix encoding that is
  stored). \<open>None\<close> stands for an index out of range or another panic.
\<close>

subsection \<open>The functions\<close>

definition hasTerm :: "bytes \<Rightarrow> bool" where
  "hasTerm s \<longleftrightarrow> length s > 0 \<and> s ! (length s - 1) = 16"

text \<open>\<open>decodeNibbles\<close> fills its second argument; \<open>bi\<close> and \<open>ni\<close> are the loop's
  indices.\<close>

function decodeNibbles_loop :: "bytes \<Rightarrow> bytes \<Rightarrow> nat \<Rightarrow> nat \<Rightarrow> bytes option" where
  "decodeNibbles_loop nibbles bs bi ni =
     (if ni < length nibbles then
        if ni + 1 < length nibbles \<and> bi < length bs
        then decodeNibbles_loop nibbles
               (bs[bi := push_bit 4 (nibbles ! ni) OR nibbles ! (ni + 1)]) (bi + 1) (ni + 2)
        else None
      else Some bs)"
  by pat_completeness auto
termination by (relation "measure (\<lambda>(nibbles, bs, bi, ni). length nibbles - ni)") auto

declare decodeNibbles_loop.simps [simp del]

definition decodeNibbles :: "bytes \<Rightarrow> bytes \<Rightarrow> bytes option" where
  "decodeNibbles nibbles bs = decodeNibbles_loop nibbles bs 0 0"

definition hexToCompact :: "bytes \<Rightarrow> bytes option" where
  "hexToCompact hex =
     (let (terminator, hex) = (if hasTerm hex then (1, take (length hex - 1) hex) else (0, hex));
          buf = replicate (length hex div 2 + 1) 0;
          buf = buf[0 := push_bit 5 terminator];
          (buf, hex) =
            (if length hex mod 2 = 1
             then (buf[0 := buf ! 0 OR push_bit 4 1 OR hex ! 0], drop 1 hex) else (buf, hex))
      in map_option ((#) (buf ! 0)) (decodeNibbles hex (drop 1 buf)))"

text \<open>\<open>hexToCompactInPlace\<close> reads and writes the same buffer; it returns the length of the
  compact key, which is then at the start of the buffer.\<close>

function inPlace_loop :: "nat \<Rightarrow> bytes \<Rightarrow> nat \<Rightarrow> nat \<Rightarrow> bytes option" where
  "inPlace_loop hexLen hex bi ni =
     (if ni < hexLen then
        if ni + 1 < length hex \<and> bi < length hex
        then inPlace_loop hexLen (hex[bi := push_bit 4 (hex ! ni) OR hex ! (ni + 1)]) (bi + 1) (ni + 2)
        else None
      else Some hex)"
  by pat_completeness auto
termination by (relation "measure (\<lambda>(hexLen, hex, bi, ni). hexLen - ni)") auto

declare inPlace_loop.simps [simp del]

definition hexToCompactInPlace :: "bytes \<Rightarrow> (nat \<times> bytes) option" where
  "hexToCompactInPlace hex =
     (let hexLen = length hex;
          (firstByte, hexLen) =
            (if hexLen > 0 \<and> hex ! (hexLen - 1) = 16 then (push_bit 5 1, hexLen - 1) else (0, hexLen));
          binLen = hexLen div 2 + 1;
          (firstByte, ni) =
            (if hexLen mod 2 = 1 then (firstByte OR push_bit 4 1 OR hex ! 0, 1) else (firstByte, 0))
      in case inPlace_loop hexLen hex 1 ni of None \<Rightarrow> None
         | Some hex \<Rightarrow> if hex = [] then None else Some (binLen, hex[0 := firstByte]))"

definition keybytesToHex :: "bytes \<Rightarrow> bytes" where
  "keybytesToHex s = concat (map (\<lambda>b. [b div 16, b mod 16]) s) @ [16]"

definition compactToHex :: "bytes \<Rightarrow> bytes" where
  "compactToHex compact =
     (if length compact = 0 then compact
      else let base = keybytesToHex compact;
               base = (if base ! 0 < 2 then take (length base - 1) base else base);
               chop = 2 - (base ! 0 AND 1)
           in drop (unat chop) base)"

definition hexToKeybytes :: "bytes \<Rightarrow> bytes option" where
  "hexToKeybytes hex =
     (let hex = (if hasTerm hex then take (length hex - 1) hex else hex)
      in if length hex mod 2 \<noteq> 0 then None
         else decodeNibbles hex (replicate (length hex div 2) 0))"

fun prefixLen :: "bytes \<Rightarrow> bytes \<Rightarrow> nat" where
  "prefixLen (x # a) (y # b) = (if x \<noteq> y then 0 else Suc (prefixLen a b))"
| "prefixLen _ _ = 0"

subsection \<open>Nibbles\<close>

text \<open>Hex keys: nibbles, with a terminator at the end or not. \<open>vkey\<close> is a hex key with a
  terminator, as \<open>keybytesToHex\<close> makes them.\<close>

abbreviation nibbles :: "bytes \<Rightarrow> bool" where
  "nibbles k \<equiv> (\<forall>x \<in> set k. x < 16)"

definition vkey :: "bytes \<Rightarrow> bool" where
  "vkey k \<longleftrightarrow> (\<exists>ns. k = ns @ [16] \<and> nibbles ns)"

definition hexkey :: "bytes \<Rightarrow> bool" where
  "hexkey k \<longleftrightarrow> nibbles k \<or> vkey k"

lemma hasTerm_snoc [simp]: "hasTerm (k @ [x]) \<longleftrightarrow> x = 16"
  by (simp add: hasTerm_def)

lemma hasTerm_Nil [simp]: "\<not> hasTerm []"
  by (simp add: hasTerm_def)

lemma nibbles_no_term: "nibbles k \<Longrightarrow> \<not> hasTerm k"
  by (cases k rule: rev_cases) auto

lemma vkey_hasTerm: "vkey k \<Longrightarrow> hasTerm k"
  by (auto simp: vkey_def)

lemma hexkey_term: "hexkey k \<Longrightarrow> hasTerm k \<longleftrightarrow> vkey k"
  using nibbles_no_term vkey_hasTerm by (auto simp: hexkey_def)

lemma byte_div_16: "(b :: byte) div 16 = drop_bit 4 b"
  by (simp add: drop_bit_eq_div)

lemma byte_mod_16: "(b :: byte) mod 16 = take_bit 4 b"
  by (simp add: take_bit_eq_mod)

lemma nibble_take_bit: "x < 16 \<longleftrightarrow> take_bit 4 x = (x :: byte)"
proof -
  have "take_bit 4 x = x \<longleftrightarrow> unat x mod 16 = unat x"
    by (simp add: take_bit_eq_mod word_unat_eq_iff unat_mod_distrib)
  also have "\<dots> \<longleftrightarrow> x < 16" by (auto simp: word_less_nat_alt mod_eq_self_iff_div_eq_0)
  finally show ?thesis by simp
qed

lemma drop_bit_nibble: "x < 16 \<Longrightarrow> drop_bit 4 (x :: byte) = 0"
  by (metis take_bit_eq_self_iff_drop_bit_eq_0 nibble_take_bit)

lemma pack_high: "x < 16 \<Longrightarrow> y < 16 \<Longrightarrow> (push_bit 4 x OR y) div 16 = (x :: byte)"
  unfolding byte_div_16
  by (simp add: drop_bit_or drop_bit_nibble) (auto simp: bit_eq_iff bit_simps nibble_take_bit)

lemma pack_low: "x < 16 \<Longrightarrow> y < 16 \<Longrightarrow> (push_bit 4 x OR y) mod 16 = (y :: byte)"
  unfolding byte_mod_16 by (simp add: take_bit_or take_bit_push_bit nibble_take_bit)

lemma unpack: "push_bit 4 (b div 16) OR b mod 16 = (b :: byte)"
  unfolding byte_div_16 byte_mod_16 by (auto simp: bit_eq_iff bit_simps)

fun pack :: "bytes \<Rightarrow> bytes" where
  "pack (x # y # r) = (push_bit 4 x OR y) # pack r"
| "pack _ = []"

abbreviation split_nibbles :: "bytes \<Rightarrow> bytes" where
  "split_nibbles bs \<equiv> concat (map (\<lambda>b. [b div 16, b mod 16]) bs)"

lemma split_pack: "even (length ns) \<Longrightarrow> nibbles ns \<Longrightarrow> split_nibbles (pack ns) = ns"
  by (induction ns rule: pack.induct) (auto simp: pack_high pack_low)

lemma pack_split [simp]: "pack (split_nibbles bs) = bs"
  by (induction bs) (simp_all add: unpack)

lemma length_pack [simp]: "length (pack ns) = length ns div 2"
  by (induction ns rule: pack.induct) auto

lemma length_split_nibbles [simp]: "length (split_nibbles bs) = 2 * length bs"
  by (induction bs) auto

lemma nibbles_split [simp]: "nibbles (split_nibbles bs)"
proof -
  have "b mod 16 < 16" "b div 16 < 16" for b :: byte
    unfolding byte_mod_16 byte_div_16 nibble_take_bit
    by (auto simp: bit_eq_iff bit_simps dest: bit_imp_le_length)
  then show ?thesis by auto
qed

subsection \<open>Closed forms\<close>

lemma drop_two: "ni + 1 < length xs \<Longrightarrow> drop ni xs = xs ! ni # xs ! (ni + 1) # drop (ni + 2) xs"
  by (simp add: Cons_nth_drop_Suc)

lemma decodeNibbles_loop_pack:
  assumes "even (length ns - ni)" "bi + (length ns - ni) div 2 \<le> length bs"
  shows "decodeNibbles_loop ns bs bi ni =
    Some (take bi bs @ pack (drop ni ns) @ drop (bi + (length ns - ni) div 2) bs)"
  using assms
proof (induction ns bs bi ni rule: decodeNibbles_loop.induct)
  case (1 ns bs bi ni)
  show ?case
  proof (cases "ni < length ns")
    case True
    with "1.prems" have ni: "ni + 1 < length ns" by presburger
    with "1.prems" have bi: "bi < length bs" by simp
    have len: "length ns - ni = length ns - (ni + 2) + 2" using ni by simp
    let ?b = "push_bit 4 (ns ! ni) OR ns ! (ni + 1)"
    have "decodeNibbles_loop ns (bs[bi := ?b]) (bi + 1) (ni + 2) =
      Some (take (bi + 1) (bs[bi := ?b]) @ pack (drop (ni + 2) ns)
        @ drop (bi + 1 + (length ns - (ni + 2)) div 2) (bs[bi := ?b]))"
      using "1.IH" [OF True] ni bi "1.prems" len by simp
    then show ?thesis
      using True ni bi len by (subst decodeNibbles_loop.simps)
        (simp add: drop_two take_Suc_conv_app_nth)
  next
    case False
    then show ?thesis by (subst decodeNibbles_loop.simps) simp
  qed
qed

lemma decodeNibbles_pack:
  "even (length ns) \<Longrightarrow> length bs = length ns div 2 \<Longrightarrow> decodeNibbles ns bs = Some (pack ns)"
  by (simp add: decodeNibbles_def decodeNibbles_loop_pack)

text \<open>The compact form: a flag byte with the oddness and the terminator, the first nibble
  when their number is odd, and the nibbles in pairs.\<close>

definition compact :: "bool \<Rightarrow> bytes \<Rightarrow> bytes" where
  "compact t ns =
     (if odd (length ns) then (push_bit 5 (of_bool t) OR push_bit 4 1 OR hd ns) # pack (tl ns)
      else push_bit 5 (of_bool t) # pack ns)"

definition strip :: "bytes \<Rightarrow> bytes" where
  "strip k = (if hasTerm k then butlast k else k)"

lemma strip_simps [simp]: "strip (ns @ [16]) = ns" "\<not> hasTerm k \<Longrightarrow> strip k = k"
  by (simp_all add: strip_def)

lemma hexToCompact_compact: "hexToCompact hex = Some (compact (hasTerm hex) (strip hex))"
proof -
  define ns where "ns = strip hex"
  have "(if hasTerm hex then (1 :: byte, take (length hex - 1) hex) else (0, hex))
      = (of_bool (hasTerm hex), ns)"
    by (simp add: ns_def strip_def butlast_conv_take)
  then have *: "hexToCompact hex =
     (let buf = (replicate (length ns div 2 + 1) 0)[0 := push_bit 5 (of_bool (hasTerm hex))];
          (buf, h) = (if length ns mod 2 = 1
             then (buf[0 := buf ! 0 OR push_bit 4 1 OR ns ! 0], drop 1 ns) else (buf, ns))
      in map_option ((#) (buf ! 0)) (decodeNibbles h (drop 1 buf)))"
    unfolding hexToCompact_def by (simp add: Let_def)
  show ?thesis
  proof (cases "odd (length ns)")
    case True
    then have "ns \<noteq> []" by auto
    moreover have "decodeNibbles (tl ns) (replicate (length ns div 2) 0) = Some (pack (tl ns))"
      using True by (intro decodeNibbles_pack) (auto elim!: oddE)
    ultimately show ?thesis
      using True by (simp add: * compact_def Let_def odd_iff_mod_2_eq_one hd_conv_nth
          drop_Suc flip: ns_def)
  next
    case False
    then have "decodeNibbles ns (replicate (length ns div 2) 0) = Some (pack ns)"
      by (intro decodeNibbles_pack) auto
    with False show ?thesis
      by (simp add: * compact_def Let_def odd_iff_mod_2_eq_one flip: ns_def)
  qed
qed

lemma inPlace_loop_pack:
  assumes "ni \<le> hexLen" "even (hexLen - ni)" "1 \<le> bi" "bi \<le> ni + 1" "hexLen \<le> length hex"
  shows "\<exists>hex'. inPlace_loop hexLen hex bi ni = Some hex' \<and> length hex' = length hex \<and>
    take (bi + (hexLen - ni) div 2) hex' = take bi hex @ pack (take (hexLen - ni) (drop ni hex))"
  using assms
proof (induction hexLen hex bi ni rule: inPlace_loop.induct)
  case (1 hexLen hex bi ni)
  show ?case
  proof (cases "ni < hexLen")
    case True
    with "1.prems" have ni: "ni + 1 < hexLen" by presburger
    with "1.prems" have in_range: "ni + 1 < length hex \<and> bi < length hex" by simp
    let ?hex = "hex[bi := push_bit 4 (hex ! ni) OR hex ! (ni + 1)]"
    have len: "hexLen - ni = hexLen - (ni + 2) + 2" using ni by simp
    have "\<exists>hex'. inPlace_loop hexLen ?hex (bi + 1) (ni + 2) = Some hex' \<and> length hex' = length ?hex \<and>
      take (bi + 1 + (hexLen - (ni + 2)) div 2) hex' =
      take (bi + 1) ?hex @ pack (take (hexLen - (ni + 2)) (drop (ni + 2) ?hex))"
      using ni "1.prems" len by (intro "1.IH" [OF True in_range]) auto
    moreover have "drop (ni + 2) ?hex = drop (ni + 2) hex" using "1.prems"(4) by simp
    moreover have "drop ni hex = hex ! ni # hex ! (ni + 1) # drop (ni + 2) hex"
      using in_range drop_two by blast
    ultimately show ?thesis
      using True in_range len by (subst inPlace_loop.simps) (simp add: take_Suc_conv_app_nth)
  next
    case False
    with "1.prems" show ?thesis by (subst inPlace_loop.simps) simp
  qed
qed

lemma hexToCompactInPlace_compact:
  assumes "hex \<noteq> []"
  shows "\<exists>hex'. hexToCompactInPlace hex = Some (length (strip hex) div 2 + 1, hex') \<and>
    take (length (strip hex) div 2 + 1) hex' = compact (hasTerm hex) (strip hex)"
proof -
  let ?n = "length (strip hex)"
  let ?ni = "if odd ?n then 1 else 0 :: nat"
  have hd: "?n > 0 \<Longrightarrow> hd (strip hex) = hex ! 0"
    by (cases hex) (auto simp: strip_def)
  have take: "take ?n hex = strip hex" "?n \<le> length hex"
    by (simp_all add: strip_def butlast_conv_take)
  have "\<exists>hex'. inPlace_loop ?n hex 1 ?ni = Some hex' \<and> length hex' = length hex \<and>
    take (1 + (?n - ?ni) div 2) hex' = take 1 hex @ pack (take (?n - ?ni) (drop ?ni hex))"
    by (rule inPlace_loop_pack) (auto simp: take elim: oddE)
  moreover have "(?n - ?ni) div 2 = ?n div 2" by (auto elim: oddE)
  moreover have "take (?n - ?ni) (drop ?ni hex) = drop ?ni (strip hex)"
    by (metis drop_take take(1))
  ultimately obtain hex' where loop: "inPlace_loop ?n hex 1 ?ni = Some hex'"
    "length hex' = length hex" "take (1 + ?n div 2) hex' = take 1 hex @ pack (drop ?ni (strip hex))"
    by auto
  from loop(2) assms obtain x r where hex': "hex' = x # r" by (cases hex') auto
  with loop(3) assms have r: "take (?n div 2) r = pack (drop ?ni (strip hex))" by (cases hex) auto
  have "(if length hex > 0 \<and> hex ! (length hex - 1) = 16 then (push_bit 5 1 :: byte, length hex - 1)
      else (0, length hex)) = (push_bit 5 (of_bool (hasTerm hex)), ?n)"
    by (simp add: hasTerm_def strip_def)
  note start = this
  show ?thesis
  proof (cases "odd ?n")
    case True
    then have "hd (strip hex) = hex ! 0" by (intro hd odd_pos)
    with True loop(1) r show ?thesis
      unfolding hexToCompactInPlace_def start Let_def
      by (simp add: hex' compact_def odd_iff_mod_2_eq_one drop_Suc)
  next
    case False
    with loop(1) r show ?thesis
      unfolding hexToCompactInPlace_def start Let_def
      by (simp add: hex' compact_def odd_iff_mod_2_eq_one)
  qed
qed

lemma length_compact [simp]: "length (compact t ns) = length ns div 2 + 1"
  by (auto simp: compact_def elim: oddE)

lemma flag_even: "push_bit 5 (of_bool t) div 16 = (of_bool t * 2 :: byte)"
  "push_bit 5 (of_bool t) mod 16 = (0 :: byte)"
  by (cases t; simp)+

lemma flag_odd: 
  assumes "x < 16"
  shows "(push_bit 5 (of_bool t) OR push_bit 4 1 OR x) div 16 = (of_bool t * 2 + 1 :: byte)"
    "(push_bit 5 (of_bool t) OR push_bit 4 1 OR x) mod 16 = (x :: byte)"
proof -
  have *: "push_bit 5 (of_bool t) OR push_bit 4 1 OR x = push_bit 4 (of_bool t * 2 + 1) OR x"
    by (cases t) (simp_all flip: or.assoc)
  have "of_bool t * 2 + 1 < (16 :: byte)" by (cases t) simp_all
  then show "(push_bit 5 (of_bool t) OR push_bit 4 1 OR x) div 16 = (of_bool t * 2 + 1 :: byte)"
    "(push_bit 5 (of_bool t) OR push_bit 4 1 OR x) mod 16 = (x :: byte)"
    unfolding * using assms by (simp_all only: pack_high pack_low)
qed

lemma compactToHex_Cons:
  "compactToHex (f # r) =
     drop (unat (2 - (f div 16 AND 1)))
       (f div 16 # f mod 16 # split_nibbles r @ (if f div 16 < 2 then [] else [16]))"
  by (simp add: compactToHex_def keybytesToHex_def Let_def)

lemma compactToHex_compact:
  assumes "nibbles ns"
  shows "compactToHex (compact t ns) = ns @ (if t then [16] else [])"
proof (cases "odd (length ns)")
  case True
  then obtain x r where ns: "ns = x # r" and r: "even (length r)" by (cases ns) auto
  from assms ns r have "split_nibbles (pack r) = r" "x < 16" by (simp_all add: split_pack)
  define f :: byte where "f = push_bit 5 (of_bool t) OR push_bit 4 1 OR x"
  have "f div 16 = of_bool t * 2 + 1" "f mod 16 = x"
    unfolding f_def using \<open>x < 16\<close> by (rule flag_odd)+
  moreover have "compact t ns = f # pack r" using True ns by (simp add: compact_def f_def)
  ultimately show ?thesis using ns \<open>split_nibbles (pack r) = r\<close>
    by (cases t) (simp_all add: compactToHex_Cons)
next
  case False
  then have "split_nibbles (pack ns) = ns" using assms by (simp add: split_pack)
  then show ?thesis using False
    unfolding compact_def by (simp add: compactToHex_Cons flag_even)
qed

lemma hexkey_strip: "hexkey k \<Longrightarrow> nibbles (strip k) \<and> k = strip k @ (if hasTerm k then [16] else [])"
  using nibbles_no_term by (auto simp: hexkey_def vkey_def strip_def)

lemma compact_inj:
  assumes "hexkey k" "hexkey k'" "hexToCompact k = hexToCompact k'"
  shows "k = k'"
proof -
  from assms(3) have "compactToHex (compact (hasTerm k) (strip k)) = compactToHex (compact (hasTerm k') (strip k'))"
    by (simp add: hexToCompact_compact)
  then show ?thesis using hexkey_strip [OF assms(1)] hexkey_strip [OF assms(2)]
    by (metis compactToHex_compact)
qed

lemma keybytesToHex_vkey [simp]: "vkey (keybytesToHex key)"
  unfolding keybytesToHex_def vkey_def using nibbles_split by blast

lemma hexToKeybytes_keybytes: "hexToKeybytes (keybytesToHex key) = Some key"
proof -
  have "even (length (split_nibbles key))" by simp
  then show ?thesis
    by (simp add: hexToKeybytes_def keybytesToHex_def decodeNibbles_pack)
qed

lemma keybytesToHex_inj: "keybytesToHex k = keybytesToHex k' \<longleftrightarrow> k = k'"
  by (metis hexToKeybytes_keybytes option.inject)

subsection \<open>Common prefixes\<close>

lemma prefixLen_le: "prefixLen a b \<le> length a" "prefixLen a b \<le> length b"
  by (induction a b rule: prefixLen.induct) auto

lemma prefixLen_take: "take (prefixLen a b) a = take (prefixLen a b) b"
  by (induction a b rule: prefixLen.induct) auto

lemma prefixLen_diff:
  "prefixLen a b < length a \<Longrightarrow> prefixLen a b < length b \<Longrightarrow> a ! prefixLen a b \<noteq> b ! prefixLen a b"
  by (induction a b rule: prefixLen.induct) auto

lemma prefixLen_append [simp]: "prefixLen (k @ r) k = length k"
  by (induction k) auto

lemma prefixLen_full: "prefixLen key k = length k \<longleftrightarrow> (\<exists>r. key = k @ r)"
  by (metis append_take_drop_id prefixLen_append prefixLen_take take_all_iff order_refl)

subsection \<open>Round trips\<close>

text \<open>The compact form of a hex key, with a terminator or without, converts back to the key, and
  the conversion in place leaves the same bytes at the start of its buffer.\<close>

theorem hexToCompact_roundtrip:
  assumes "hexkey hex"
  shows "\<exists>c. hexToCompact hex = Some c \<and> compactToHex c = hex \<and>
    (hex \<noteq> [] \<longrightarrow> (\<exists>n hex'. hexToCompactInPlace hex = Some (n, hex') \<and> take n hex' = c))"
  using hexkey_strip [OF assms] hexToCompactInPlace_compact [of hex]
  by (auto simp: hexToCompact_compact compactToHex_compact)

theorem hexToCompact_roundtrip_witness:
  "\<exists>c. hexToCompact [1, 15, 3, 16] = Some c \<and> compactToHex c = [1, 15, 3, 16] \<and>
    (\<exists>n hex'. hexToCompactInPlace [1, 15, 3, 16] = Some (n, hex') \<and> take n hex' = c)"
  using hexToCompact_roundtrip [of "[1, 15, 3, 16]"]
  by (simp add: hexkey_def vkey_def Cons_eq_append_conv)

end
