(* ===== verification/Trie_Node.thy ===== *)
theory Trie_Node
  imports Trie_Encoding Rlp_Raw Rlp_Reader
begin

text \<open>
  The nodes of the Merkle Patricia trie and their RLP form, \<open>trie/node.go\<close>: the five
  implementations of the \<open>node\<close> interface that occur in a live trie (a nil interface is
  \<open>NilNode\<close>), the value that the encoder gets for a node, and the decoder of nodes read
  from the database.
\<close>

record nodeFlag =
  nf_hash :: "bytes option"
  nf_dirty :: bool

datatype tnode =
    NilNode
  | FullNode "tnode list" nodeFlag
  | ShortNode bytes tnode nodeFlag
  | HashNode bytes
  | ValueNode bytes

fun node_cache :: "tnode \<Rightarrow> bytes option \<times> bool" where
  "node_cache (FullNode cs f) = (nf_hash f, nf_dirty f)"
| "node_cache (ShortNode k v f) = (nf_hash f, nf_dirty f)"
| "node_cache _ = (None, True)"

subsection \<open>The value that is encoded\<close>

text \<open>A short node is a pointer to a struct of a byte slice and an interface (the flags are
  not exported); a full node has an \<open>EncodeRLP\<close> method, which encodes the array of its
  children with \<open>nilValueNode\<close> in place of the nil ones.\<close>

fun node_gval :: "tnode \<Rightarrow> gval" where
  "node_gval NilNode = GInterface None"
| "node_gval (ValueNode v) = GBytes v"
| "node_gval (HashNode h) = GBytes h"
| "node_gval (ShortNode k v f) =
     GPtr ListK (Some (GStruct [(k = [], GBytes k),
       (v = NilNode, GInterface (if v = NilNode then None else Some (node_gval v)))] 2))"
| "node_gval (FullNode cs f) =
     GSlice (map (\<lambda>c. GInterface (Some (if c = NilNode then GBytes [] else node_gval c))) cs)"

subsection \<open>The decoder\<close>

datatype decode_ctx = Ctx_short | Ctx_full | Ctx_val | Ctx_child nat

datatype node_error =
    NodeEOF
  | NodeRlp rlp_error
  | InvalidElements nat
  | InvalidValue rlp_error
  | OversizedEmbedded nat
  | InvalidRefSize nat
  | NodeDecodeError node_error "decode_ctx list"

fun wrapError :: "node_error \<Rightarrow> decode_ctx \<Rightarrow> node_error" where
  "wrapError (NodeDecodeError what stack) ctx = NodeDecodeError what (stack @ [ctx])"
| "wrapError err ctx = NodeDecodeError err [ctx]"

definition hashLen :: nat where
  "hashLen = 32"

text \<open>\<open>CountValues\<close> returns 0 with an error; that it always returns is shown in
  \<open>Rlp_Raw\<close>.\<close>

definition countElems :: "bytes \<Rightarrow> nat" where
  "countElems elems = (case CountValues elems of Some (Inr c) \<Rightarrow> c | _ \<Rightarrow> 0)"

lemma raw_readKind_tag:
  "raw_readKind b = Inr (k, ts, cs) \<Longrightarrow> k = ListK \<Longrightarrow> 0 < unat ts"
proof -
  have w: "0 < unat (ucast (x :: byte) + 1 :: u64)" for x
  proof -
    have "unat x + 1 \<le> 256" using unat_byte_less [of x] by linarith
    then have "unat (ucast x :: u64) + unat (1 :: u64) < 2 ^ 64" by (simp add: le_less_trans)
    then have "unat (ucast x + 1 :: u64) = unat x + 1" by (subst unat_add_lem [THEN iffD1]) simp_all
    then show ?thesis by simp
  qed
  assume "raw_readKind b = Inr (k, ts, cs)" "k = ListK"
  then show ?thesis using w
    by (auto simp: raw_readKind_def Let_def checkSize_def split: if_splits sum.splits)
qed

lemma Split_rest_le: "Split b = Inr (k, c, rest) \<Longrightarrow> length rest \<le> length b"
  by (auto simp: Split_def split: sum.splits)

lemma SplitList_less:
  assumes "SplitList b = Inr (elems, rest)"
  shows "length elems < length b"
proof -
  from assms obtain ts cs where ts: "raw_readKind b = Inr (ListK, ts, cs)"
    and elems: "elems = take (unat cs) (drop (unat ts) b)"
    by (auto simp: SplitList_def Split_def split: sum.splits if_splits)
  have "b \<noteq> []" using ts by (auto simp: raw_readKind_def)
  then show ?thesis using raw_readKind_tag [OF ts] elems by (auto simp: min_def) 
qed

lemma SplitString_rest_le: "SplitString b = Inr (c, rest) \<Longrightarrow> length rest \<le> length b"
  by (auto simp: SplitString_def split: sum.splits if_splits dest: Split_rest_le)

text \<open>\<open>decodeRef\<close> splits off an item and decodes it; \<open>decodeRefItem\<close> is its \<open>switch\<close>,
  with the item that was split off. The children of a full node are decoded in order, and
  \<open>cs\<close> holds those already decoded.\<close>

function (sequential) decodeNode :: "bytes option \<Rightarrow> bytes \<Rightarrow> node_error + tnode"
  and decodeShort :: "bytes option \<Rightarrow> bytes \<Rightarrow> node_error + tnode"
  and decodeFull :: "bytes option \<Rightarrow> bytes \<Rightarrow> tnode list \<Rightarrow> node_error + tnode"
  and decodeRefItem :: "Kind \<Rightarrow> bytes \<Rightarrow> bytes \<Rightarrow> bytes \<Rightarrow> node_error + tnode" where
  "decodeNode hash buf =
     (if length buf = 0 then Inl NodeEOF
      else case SplitList buf of Inl e \<Rightarrow> Inl (NodeRlp e)
      | Inr (elems, _) \<Rightarrow>
          let c = countElems elems in
          if c = 2 then
            (case decodeShort hash elems of Inl e \<Rightarrow> Inl (wrapError e Ctx_short) | Inr n \<Rightarrow> Inr n)
          else if c = 17 then
            (case decodeFull hash elems [] of Inl e \<Rightarrow> Inl (wrapError e Ctx_full) | Inr n \<Rightarrow> Inr n)
          else Inl (InvalidElements c))"
| "decodeShort hash elems =
     (case SplitString elems of Inl e \<Rightarrow> Inl (NodeRlp e)
      | Inr (kbuf, rest) \<Rightarrow>
          let flag = \<lparr>nf_hash = hash, nf_dirty = False\<rparr>; key = compactToHex kbuf in
          if hasTerm key then
            (case SplitString rest of Inl e \<Rightarrow> Inl (InvalidValue e)
             | Inr (val, _) \<Rightarrow> Inr (ShortNode key (ValueNode val) flag))
          else
            (case Split rest of Inl e \<Rightarrow> Inl (wrapError (NodeRlp e) Ctx_val)
             | Inr (kind, val, rest') \<Rightarrow>
                 (case decodeRefItem kind val rest rest' of
                    Inl e \<Rightarrow> Inl (wrapError e Ctx_val)
                  | Inr r \<Rightarrow> Inr (ShortNode key r flag))))"
| "decodeFull hash elems cs =
     (if length cs < 16 then
        (case Split elems of Inl e \<Rightarrow> Inl (wrapError (NodeRlp e) (Ctx_child (length cs)))
         | Inr (kind, val, rest) \<Rightarrow>
             (case decodeRefItem kind val elems rest of
                Inl e \<Rightarrow> Inl (wrapError e (Ctx_child (length cs)))
              | Inr cld \<Rightarrow> decodeFull hash rest (cs @ [cld])))
      else
        (case SplitString elems of Inl e \<Rightarrow> Inl (NodeRlp e)
         | Inr (val, _) \<Rightarrow>
             Inr (FullNode (cs @ [if length val > 0 then ValueNode val else NilNode])
               \<lparr>nf_hash = hash, nf_dirty = False\<rparr>)))"
| "decodeRefItem kind val buf rest =
     (if kind = ListK then
        (let sz = length buf - length rest in
         if sz > hashLen then Inl (OversizedEmbedded sz) else decodeNode None buf)
      else if kind = StringK \<and> length val = 0 then Inr NilNode
      else if kind = StringK \<and> length val = 32 then Inr (HashNode val)
      else Inl (InvalidRefSize (length val)))"
  by pat_completeness auto
termination
  by (relation "inv_image (less_than <*lex*> less_than <*lex*> less_than)
      (case_sum (case_sum (\<lambda>(h, b). (length b, 0, 0)) (\<lambda>(h, b). (length b, 2, 0)))
        (case_sum (\<lambda>(h, b, cs). (length b, 2, 16 - length cs)) (\<lambda>(k, v, b, r). (length b, 1, 0))))")
    (auto dest!: SplitList_less SplitString_rest_le Split_rest_le simp: le_less)

definition decodeRef :: "bytes \<Rightarrow> node_error + (tnode \<times> bytes)" where
  "decodeRef buf =
     (case Split buf of Inl e \<Rightarrow> Inl (NodeRlp e)
      | Inr (kind, val, rest) \<Rightarrow> map_sum id (\<lambda>n. (n, rest)) (decodeRefItem kind val buf rest))"

declare decodeNode.simps [simp del] decodeShort.simps [simp del] decodeFull.simps [simp del]
  decodeRefItem.simps [simp del]

end
