(* ===== verification/Trie_Ops.thy ===== *)
theory Trie_Ops
  imports Trie_Node
begin

text \<open>
  The operations of the Merkle Patricia trie, \<open>trie/trie.go\<close>, and the hasher,
  \<open>trie/hasher.go\<close>. A trie holds nodes in memory and refers to the rest by hash nodes,
  which are loaded from the database on demand: \<open>db\<close> stands for \<open>Database.node\<close>. The
  recursion through the database need not end (a stored node may refer to itself), so the
  operations are \<open>partial_function\<close>s, and \<open>None\<close> is a call that does not return.
\<close>

subsection \<open>The trie\<close>

text \<open>An index out of range, a failed type assertion and an explicit \<open>panic\<close> are
  \<open>TriePanic\<close>; \<open>MissingNode\<close> is \<open>*MissingNodeError\<close>.\<close>

datatype trie_error = MissingNode hash bytes | TriePanic

type_synonym node_reader = "hash \<Rightarrow> trie_error + tnode"

record Trie =
  t_root :: tnode
  unhashed :: nat

text \<open>\<open>Hash.SetBytes\<close>: crop from the left, pad on the left.\<close>

definition BytesToHash :: "bytes \<Rightarrow> hash" where
  "BytesToHash b =
     (let b = (if length b > 32 then drop (length b - 32) b else b)
      in replicate (32 - length b) 0 @ b)"

definition emptyRoot :: hash where
  "emptyRoot = [0x56, 0xe8, 0x1f, 0x17, 0x1b, 0xcc, 0x55, 0xa6, 0xff, 0x83, 0x45, 0xe6, 0x92, 0xc0,
     0xf8, 0x6e, 0x5b, 0x48, 0xe0, 0x1b, 0x99, 0x6c, 0xad, 0xc0, 0x01, 0x62, 0x2f, 0xb5, 0xe3, 0x63,
     0xb4, 0x21]"

text \<open>A short or full node in memory.\<close>

fun is_loaded :: "tnode \<Rightarrow> bool" where
  "is_loaded (ShortNode k v f) = True"
| "is_loaded (FullNode cs f) = True"
| "is_loaded _ = False"

definition newFlag :: nodeFlag where
  "newFlag = \<lparr>nf_hash = None, nf_dirty = True\<rparr>"

definition resolveHash :: "node_reader \<Rightarrow> bytes \<Rightarrow> bytes \<Rightarrow> trie_error + tnode" where
  "resolveHash db n prefix =
     (let h = BytesToHash n in
      case db h of Inl e \<Rightarrow> Inl e
      | Inr node \<Rightarrow> if node \<noteq> NilNode then Inr node else Inl (MissingNode h prefix))"

definition trie_resolve :: "node_reader \<Rightarrow> tnode \<Rightarrow> bytes \<Rightarrow> trie_error + tnode" where
  "trie_resolve db n prefix = (case n of HashNode h \<Rightarrow> resolveHash db h prefix | _ \<Rightarrow> Inr n)"

definition trie_New :: "node_reader \<Rightarrow> hash \<Rightarrow> trie_error + Trie" where
  "trie_New db root =
     (if root \<noteq> replicate 32 0 \<and> root \<noteq> emptyRoot then
        (case resolveHash db root [] of Inl e \<Rightarrow> Inl e
         | Inr rootnode \<Rightarrow> Inr \<lparr>t_root = rootnode, unhashed = 0\<rparr>)
      else Inr \<lparr>t_root = NilNode, unhashed = 0\<rparr>)"

subsection \<open>Look-up\<close>

partial_function (option) tryGet ::
  "node_reader \<Rightarrow> tnode \<Rightarrow> bytes \<Rightarrow> nat \<Rightarrow> (trie_error + bytes option \<times> tnode \<times> bool) option" where
  "tryGet db origNode key pos =
     (case origNode of
        NilNode \<Rightarrow> Some (Inr (None, NilNode, False))
      | ValueNode v \<Rightarrow> Some (Inr (Some v, origNode, False))
      | ShortNode nKey nVal f \<Rightarrow>
          if length key - pos < length nKey \<or> nKey \<noteq> take (length nKey) (drop pos key)
          then Some (Inr (None, origNode, False))
          else Option.bind (tryGet db nVal key (pos + length nKey)) (\<lambda>r. Some (case r of
                 Inl e \<Rightarrow> Inl e
               | Inr (v, newnode, didResolve) \<Rightarrow>
                   Inr (v, if didResolve then ShortNode nKey newnode f else origNode, didResolve)))
      | FullNode cs f \<Rightarrow>
          if pos < length key \<and> unat (key ! pos) < length cs then
            Option.bind (tryGet db (cs ! unat (key ! pos)) key (pos + 1)) (\<lambda>r. Some (case r of
                 Inl e \<Rightarrow> Inl e
               | Inr (v, newnode, didResolve) \<Rightarrow>
                   Inr (v, if didResolve then FullNode (cs[unat (key ! pos) := newnode]) f else origNode,
                     didResolve)))
          else Some (Inl TriePanic)
      | HashNode n \<Rightarrow>
          (case resolveHash db n (take pos key) of
             Inl e \<Rightarrow> Some (Inl e)
           | Inr child \<Rightarrow>
               Option.bind (tryGet db child key pos) (\<lambda>r. Some (case r of
                 Inl e \<Rightarrow> Inl e | Inr (v, newnode, _) \<Rightarrow> Inr (v, newnode, True)))))"

definition TryGet :: "node_reader \<Rightarrow> Trie \<Rightarrow> bytes \<Rightarrow> ((trie_error + bytes option) \<times> Trie) option" where
  "TryGet db t key =
     map_option (\<lambda>r. case r of
         Inl e \<Rightarrow> (Inl e, t)
       | Inr (v, newroot, didResolve) \<Rightarrow> (Inr v, if didResolve then t\<lparr>t_root := newroot\<rparr> else t))
       (tryGet db (t_root t) (keybytesToHex key) 0)"

subsection \<open>Insertion\<close>

text \<open>\<open>branch.Children[i] = n\<close> for a new full node.\<close>

definition set_child :: "byte \<Rightarrow> tnode \<Rightarrow> tnode list \<Rightarrow> trie_error + tnode list" where
  "set_child i n cs = (if unat i < length cs then Inr (cs[unat i := n]) else Inl TriePanic)"

partial_function (option) trie_insert ::
  "node_reader \<Rightarrow> tnode \<Rightarrow> bytes \<Rightarrow> bytes \<Rightarrow> tnode \<Rightarrow> (trie_error + bool \<times> tnode) option" where
  "trie_insert db n prefix key v =
     (if length key = 0 then
        (case n of
           ValueNode w \<Rightarrow>
             (case v of ValueNode x \<Rightarrow> Some (Inr (w \<noteq> x, v)) | _ \<Rightarrow> Some (Inl TriePanic))
         | _ \<Rightarrow> Some (Inr (True, v)))
      else case n of
        ShortNode nKey nVal f \<Rightarrow>
          (let matchlen = prefixLen key nKey in
           if matchlen = length nKey then
             Option.bind (trie_insert db nVal (prefix @ take matchlen key) (drop matchlen key) v)
               (\<lambda>r. Some (case r of Inl e \<Rightarrow> Inl e
                 | Inr (dirty, nn) \<Rightarrow>
                     if \<not> dirty then Inr (False, n) else Inr (True, ShortNode nKey nn newFlag)))
           else
             Option.bind (trie_insert db NilNode (prefix @ take (matchlen + 1) nKey)
                 (drop (matchlen + 1) nKey) nVal)
               (\<lambda>r1. case r1 of Inl e \<Rightarrow> Some (Inl e)
                 | Inr (_, child1) \<Rightarrow>
             if matchlen < length key then
             Option.bind (trie_insert db NilNode (prefix @ take (matchlen + 1) key)
                 (drop (matchlen + 1) key) v)
               (\<lambda>r2. Some (case r2 of Inl e \<Rightarrow> Inl e
                 | Inr (_, child2) \<Rightarrow>
                    (case set_child (nKey ! matchlen) child1 (replicate 17 NilNode) of Inl e \<Rightarrow> Inl e
                     | Inr children \<Rightarrow>
                    (case set_child (key ! matchlen) child2 children of Inl e \<Rightarrow> Inl e
                     | Inr children \<Rightarrow>
                        let branch = FullNode children newFlag in
                        if matchlen = 0 then Inr (True, branch)
                        else Inr (True, ShortNode (take matchlen key) branch newFlag)))))
             else Some (Inl TriePanic)))
      | FullNode cs f \<Rightarrow>
          if unat (key ! 0) < length cs then
            Option.bind (trie_insert db (cs ! unat (key ! 0)) (prefix @ [key ! 0]) (drop 1 key) v)
              (\<lambda>r. Some (case r of Inl e \<Rightarrow> Inl e
                | Inr (dirty, nn) \<Rightarrow>
                    if \<not> dirty then Inr (False, n)
                    else Inr (True, FullNode (cs[unat (key ! 0) := nn]) newFlag)))
          else Some (Inl TriePanic)
      | NilNode \<Rightarrow> Some (Inr (True, ShortNode key v newFlag))
      | HashNode h \<Rightarrow>
          (case resolveHash db h prefix of Inl e \<Rightarrow> Some (Inl e)
           | Inr rn \<Rightarrow>
               Option.bind (trie_insert db rn prefix key v) (\<lambda>r. Some (case r of Inl e \<Rightarrow> Inl e
                 | Inr (dirty, nn) \<Rightarrow> if \<not> dirty then Inr (False, rn) else Inr (True, nn))))
      | ValueNode _ \<Rightarrow> Some (Inl TriePanic))"

subsection \<open>Deletion\<close>

text \<open>The loop over the children of a full node: the position of the single child that is left,
  -1 for none and -2 for at least two.\<close>

fun single_pos :: "nat \<Rightarrow> int \<Rightarrow> tnode list \<Rightarrow> int" where
  "single_pos i pos [] = pos"
| "single_pos i pos (cld # cs) =
     (if cld \<noteq> NilNode then (if pos = -1 then single_pos (i + 1) (int i) cs else -2)
      else single_pos (i + 1) pos cs)"

text \<open>The reduction of a full node whose child was removed.\<close>

definition reduce_full :: "node_reader \<Rightarrow> bytes \<Rightarrow> tnode list \<Rightarrow> trie_error + bool \<times> tnode" where
  "reduce_full db prefix cs =
     (let pos = single_pos 0 (-1) cs in
      if pos \<ge> 0 then
        (case (if pos \<noteq> 16 then trie_resolve db (cs ! nat pos) prefix else Inr NilNode) of
           Inl e \<Rightarrow> Inl e
         | Inr cnode \<Rightarrow>
             (case cnode of
                ShortNode cKey cVal f \<Rightarrow> Inr (True, ShortNode ([of_int pos] @ cKey) cVal newFlag)
              | _ \<Rightarrow> Inr (True, ShortNode [of_int pos] (cs ! nat pos) newFlag)))
      else Inr (True, FullNode cs newFlag))"

partial_function (option) trie_delete ::
  "node_reader \<Rightarrow> tnode \<Rightarrow> bytes \<Rightarrow> bytes \<Rightarrow> (trie_error + bool \<times> tnode) option" where
  "trie_delete db n prefix key =
     (case n of
        ShortNode nKey nVal f \<Rightarrow>
          (let matchlen = prefixLen key nKey in
           if matchlen < length nKey then Some (Inr (False, n))
           else if matchlen = length key then Some (Inr (True, NilNode))
           else
             Option.bind (trie_delete db nVal (prefix @ take (length nKey) key) (drop (length nKey) key))
               (\<lambda>r. Some (case r of Inl e \<Rightarrow> Inl e
                 | Inr (dirty, child) \<Rightarrow>
                     if \<not> dirty then Inr (False, n)
                     else (case child of
                         ShortNode cKey cVal cf \<Rightarrow> Inr (True, ShortNode (nKey @ cKey) cVal newFlag)
                       | _ \<Rightarrow> Inr (True, ShortNode nKey child newFlag)))))
      | FullNode cs f \<Rightarrow>
          if 0 < length key \<and> unat (key ! 0) < length cs then
            Option.bind (trie_delete db (cs ! unat (key ! 0)) (prefix @ [key ! 0]) (drop 1 key))
              (\<lambda>r. Some (case r of Inl e \<Rightarrow> Inl e
                | Inr (dirty, nn) \<Rightarrow>
                    if \<not> dirty then Inr (False, n)
                    else let cs' = cs[unat (key ! 0) := nn] in
                      if nn \<noteq> NilNode then Inr (True, FullNode cs' newFlag)
                      else reduce_full db prefix cs'))
          else Some (Inl TriePanic)
      | ValueNode _ \<Rightarrow> Some (Inr (True, NilNode))
      | NilNode \<Rightarrow> Some (Inr (False, NilNode))
      | HashNode h \<Rightarrow>
          (case resolveHash db h prefix of Inl e \<Rightarrow> Some (Inl e)
           | Inr rn \<Rightarrow>
               Option.bind (trie_delete db rn prefix key) (\<lambda>r. Some (case r of Inl e \<Rightarrow> Inl e
                 | Inr (dirty, nn) \<Rightarrow> if \<not> dirty then Inr (False, rn) else Inr (True, nn)))))"

subsection \<open>Updates\<close>

text \<open>The error, if any, and the trie; on an error the root stays as it was.\<close>

definition set_root :: "Trie \<Rightarrow> (trie_error + bool \<times> tnode) \<Rightarrow> trie_error option \<times> Trie" where
  "set_root t r = (case r of Inl e \<Rightarrow> (Some e, t) | Inr (_, n) \<Rightarrow> (None, t\<lparr>t_root := n\<rparr>))"

definition TryUpdate :: "node_reader \<Rightarrow> Trie \<Rightarrow> bytes \<Rightarrow> bytes \<Rightarrow> (trie_error option \<times> Trie) option" where
  "TryUpdate db t key v =
     (let t = t\<lparr>unhashed := unhashed t + 1\<rparr>; k = keybytesToHex key in
      if length v \<noteq> 0
      then map_option (set_root t) (trie_insert db (t_root t) [] k (ValueNode v))
      else map_option (set_root t) (trie_delete db (t_root t) [] k))"

definition TryDelete :: "node_reader \<Rightarrow> Trie \<Rightarrow> bytes \<Rightarrow> (trie_error option \<times> Trie) option" where
  "TryDelete db t key =
     (let t = t\<lparr>unhashed := unhashed t + 1\<rparr>; k = keybytesToHex key
      in map_option (set_root t) (trie_delete db (t_root t) [] k))"

end
