(* ===== verification/Trie_Hasher.thy ===== *)
theory Trie_Hasher
  imports Trie_Ops
begin

text \<open>
  The hasher, \<open>trie/hasher.go\<close>: it replaces the children of a node by their hashes (or
  leaves them when they are short), encodes the node and hashes the encoding, and returns the
  node with the hashes cached. \<open>K\<close> is Keccak-256. The nodes hashed are also put into the
  database's cache of dirty nodes, \<open>dirties\<close> (\<open>None\<close> when the hasher has none). The 16
  children of a full node are hashed in order; \<open>parallel\<close> only lets them be hashed at the same
  time.
\<close>

type_synonym hash_cache = "hash \<rightharpoonup> tnode"

definition HashCache_Put :: "bytes \<Rightarrow> tnode \<Rightarrow> hash_cache \<Rightarrow> hash_cache" where
  "HashCache_Put key v c = c(BytesToHash key \<mapsto> v)"

definition HashCache_PutIfAbsent :: "bytes \<Rightarrow> tnode \<Rightarrow> hash_cache \<Rightarrow> hash_cache" where
  "HashCache_PutIfAbsent key v c =
     (let hk = BytesToHash key in case c hk of None \<Rightarrow> c(hk \<mapsto> v) | Some _ \<Rightarrow> c)"

definition HashCache_Contains :: "bytes \<Rightarrow> hash_cache \<Rightarrow> bool" where
  "HashCache_Contains key c \<longleftrightarrow> c (BytesToHash key) \<noteq> None"

definition HashCache_Get :: "hash \<Rightarrow> hash_cache \<Rightarrow> tnode option" where
  "HashCache_Get key c = c key"

definition hashData :: "(bytes \<Rightarrow> hash) \<Rightarrow> bytes \<Rightarrow> tnode" where
  "hashData K data = HashNode (K data)"

text \<open>The encoding in the hasher's buffer; a node that cannot be encoded is a panic.\<close>

definition encodeNode :: "tnode \<Rightarrow> trie_error + bytes" where
  "encodeNode n =
     (let (err, tmp) = rlp_Encode (buffer_Write :: (bytes, unit) io_Write) (node_gval n) [] in
      case err of Inr None \<Rightarrow> Inr tmp | _ \<Rightarrow> Inl TriePanic)"

definition shortnodeToHash :: "(bytes \<Rightarrow> hash) \<Rightarrow> tnode \<Rightarrow> bool \<Rightarrow> trie_error + tnode" where
  "shortnodeToHash K n force =
     (case encodeNode n of Inl e \<Rightarrow> Inl e
      | Inr tmp \<Rightarrow> if length tmp < 32 \<and> \<not> force then Inr n else Inr (hashData K tmp))"

definition fullnodeToHash :: "(bytes \<Rightarrow> hash) \<Rightarrow> tnode \<Rightarrow> bool \<Rightarrow> trie_error + tnode" where
  "fullnodeToHash K n force =
     (case encodeNode n of Inl e \<Rightarrow> Inl e
      | Inr tmp \<Rightarrow> if length tmp < 32 \<and> \<not> force then Inr n else Inr (hashData K tmp))"

fun set_hash :: "bytes option \<Rightarrow> tnode \<Rightarrow> tnode" where
  "set_hash h (ShortNode k v f) = ShortNode k v (f\<lparr>nf_hash := h\<rparr>)"
| "set_hash h (FullNode cs f) = FullNode cs (f\<lparr>nf_hash := h\<rparr>)"
| "set_hash h n = n"

text \<open>The end of \<open>hash\<close> for short and full nodes: the hash is kept in the cached node.\<close>

definition cache_hash ::
  "tnode \<Rightarrow> tnode \<Rightarrow> hash_cache option \<Rightarrow> tnode \<times> tnode \<times> hash_cache option" where
  "cache_hash hashed cached d =
     (case hashed of
        HashNode hn \<Rightarrow>
          let cached = set_hash (Some hn) cached in
          (hashed, cached, if snd (node_cache cached) then map_option (HashCache_Put hn cached) d else d)
      | _ \<Rightarrow> (hashed, set_hash None cached, d))"

function (sequential) hash_node :: "(bytes \<Rightarrow> hash) \<Rightarrow> hash_cache option \<Rightarrow> tnode \<Rightarrow> bool \<Rightarrow>
    trie_error + tnode \<times> tnode \<times> hash_cache option"
  and hashShortNodeChildren :: "(bytes \<Rightarrow> hash) \<Rightarrow> hash_cache option \<Rightarrow> bytes \<Rightarrow> tnode \<Rightarrow> nodeFlag \<Rightarrow>
    trie_error + tnode \<times> tnode \<times> hash_cache option"
  and hashFullNodeChildren :: "(bytes \<Rightarrow> hash) \<Rightarrow> hash_cache option \<Rightarrow> tnode list \<Rightarrow> nodeFlag \<Rightarrow>
    trie_error + tnode \<times> tnode \<times> hash_cache option"
  and hashChildren :: "(bytes \<Rightarrow> hash) \<Rightarrow> hash_cache option \<Rightarrow> nat \<Rightarrow> tnode list \<Rightarrow>
    trie_error + tnode list \<times> tnode list \<times> hash_cache option" where
  "hash_node K d n force =
     (case fst (node_cache n) of
        Some h \<Rightarrow>
          Inr (HashNode h, n,
            map_option (\<lambda>c. if \<not> HashCache_Contains h c then HashCache_Put h n c else c) d)
      | None \<Rightarrow>
          (case n of
             ShortNode k v f \<Rightarrow>
               (case hashShortNodeChildren K d k v f of Inl e \<Rightarrow> Inl e
                | Inr (collapsed, cached, d) \<Rightarrow>
                    (case shortnodeToHash K collapsed force of Inl e \<Rightarrow> Inl e
                     | Inr hashed \<Rightarrow> Inr (cache_hash hashed cached d)))
           | FullNode cs f \<Rightarrow>
               (case hashFullNodeChildren K d cs f of Inl e \<Rightarrow> Inl e
                | Inr (collapsed, cached, d) \<Rightarrow>
                    (case fullnodeToHash K collapsed force of Inl e \<Rightarrow> Inl e
                     | Inr hashed \<Rightarrow> Inr (cache_hash hashed cached d)))
           | _ \<Rightarrow> Inr (n, n, d)))"
| "hashShortNodeChildren K d k v f =
     (case hexToCompact k of None \<Rightarrow> Inl TriePanic
      | Some ck \<Rightarrow>
          if is_loaded v then
            (case hash_node K d v False of Inl e \<Rightarrow> Inl e
             | Inr (hv, cv, d) \<Rightarrow> Inr (ShortNode ck hv f, ShortNode k cv f, d))
          else Inr (ShortNode ck v f, ShortNode k v f, d))"
| "hashFullNodeChildren K d cs f =
     (case hashChildren K d 16 cs of Inl e \<Rightarrow> Inl e
      | Inr (hs, cs, d) \<Rightarrow> Inr (FullNode hs f, FullNode cs f, d))"
| "hashChildren K d (Suc i) (child # cs) =
     (case (if child \<noteq> NilNode then hash_node K d child False else Inr (ValueNode [], NilNode, d)) of
        Inl e \<Rightarrow> Inl e
      | Inr (h, c, d) \<Rightarrow>
          (case hashChildren K d i cs of Inl e \<Rightarrow> Inl e
           | Inr (hs, cs, d) \<Rightarrow> Inr (h # hs, c # cs, d)))"
| "hashChildren K d i cs = Inr (cs, cs, d)"
  by pat_completeness auto
termination
  by (relation "measure (case_sum (case_sum (\<lambda>(K, d, n, force). 2 * size n) (\<lambda>(K, d, k, v, f). 2 * size v + 1))
      (case_sum (\<lambda>(K, d, cs, f). 2 * size_list size cs + 1) (\<lambda>(K, d, i, cs). 2 * size_list size cs)))") auto

declare hash_node.simps [simp del] hashShortNodeChildren.simps [simp del]
  hashFullNodeChildren.simps [simp del]

definition hashRoot :: "(bytes \<Rightarrow> hash) \<Rightarrow> hash_cache option \<Rightarrow> Trie \<Rightarrow>
    (trie_error + tnode \<times> tnode \<times> hash_cache option) \<times> Trie" where
  "hashRoot K d t =
     (if t_root t = NilNode then (Inr (HashNode emptyRoot, NilNode, d), t)
      else (hash_node K d (t_root t) True, t\<lparr>unhashed := 0\<rparr>))"

definition trie_Hash :: "(bytes \<Rightarrow> hash) \<Rightarrow> hash_cache option \<Rightarrow> Trie \<Rightarrow>
    trie_error + hash \<times> Trie \<times> hash_cache option" where
  "trie_Hash K d t =
     (case hashRoot K d t of
        (Inl e, t) \<Rightarrow> Inl e
      | (Inr (h, cached, d), t) \<Rightarrow>
          (case h of HashNode hn \<Rightarrow> Inr (BytesToHash hn, t\<lparr>t_root := cached\<rparr>, d) | _ \<Rightarrow> Inl TriePanic))"

definition trie_Reset :: "Trie \<Rightarrow> Trie" where
  "trie_Reset t = t\<lparr>t_root := NilNode, unhashed := 0\<rparr>"

end
