(* ===== verification/Trie_Proof.thy ===== *)
theory Trie_Proof
  imports Trie_Hasher
begin

text \<open>
  Merkle proofs, \<open>trie/proof.go\<close>: \<open>Prove\<close> writes the encoded nodes on the path of a key into
  a database, and \<open>VerifyProof\<close> follows them from a root hash. The proof database is a map from
  hashes to encodings.
\<close>

subsection \<open>Proofs\<close>

definition proofHash :: "(bytes \<Rightarrow> hash) \<Rightarrow> tnode \<Rightarrow> trie_error + tnode \<times> tnode" where
  "proofHash K original =
     (case original of
        ShortNode k v f \<Rightarrow>
          (case hashShortNodeChildren K None k v f of Inl e \<Rightarrow> Inl e
           | Inr (sn, _, _) \<Rightarrow>
               (case shortnodeToHash K sn False of Inl e \<Rightarrow> Inl e | Inr hashed \<Rightarrow> Inr (sn, hashed)))
      | FullNode cs f \<Rightarrow>
          (case hashFullNodeChildren K None cs f of Inl e \<Rightarrow> Inl e
           | Inr (fn, _, _) \<Rightarrow>
               (case fullnodeToHash K fn False of Inl e \<Rightarrow> Inl e | Inr hashed \<Rightarrow> Inr (fn, hashed)))
      | n \<Rightarrow> Inr (n, n))"

text \<open>The first loop of \<open>Prove\<close>, which collects the nodes.\<close>

partial_function (option) prove_nodes ::
  "node_reader \<Rightarrow> tnode \<Rightarrow> bytes \<Rightarrow> tnode list \<Rightarrow> (trie_error + tnode list) option" where
  "prove_nodes db tn key nodes =
     (if length key > 0 \<and> tn \<noteq> NilNode then
        (case tn of
           ShortNode nKey nVal f \<Rightarrow>
             if length key < length nKey \<or> nKey \<noteq> take (length nKey) key
             then prove_nodes db NilNode key (nodes @ [tn])
             else prove_nodes db nVal (drop (length nKey) key) (nodes @ [tn])
         | FullNode cs f \<Rightarrow>
             if unat (key ! 0) < length cs
             then prove_nodes db (cs ! unat (key ! 0)) (drop 1 key) (nodes @ [tn])
             else Some (Inl TriePanic)
         | HashNode n \<Rightarrow>
             (case resolveHash db n [] of Inl e \<Rightarrow> Some (Inl e) | Inr rn \<Rightarrow> prove_nodes db rn key nodes)
         | _ \<Rightarrow> Some (Inl TriePanic))
      else Some (Inr nodes))"

text \<open>The second loop: a node whose encoding is hashed into its parent, and the root, become
  elements of the proof.\<close>

fun prove_put :: "(bytes \<Rightarrow> hash) \<Rightarrow> nat \<Rightarrow> nat \<Rightarrow> tnode list \<Rightarrow> (hash \<rightharpoonup> bytes) \<Rightarrow>
    trie_error + (hash \<rightharpoonup> bytes)" where
  "prove_put K fromLevel i [] proofDb = Inr proofDb"
| "prove_put K fromLevel i (n # nodes) proofDb =
     (if fromLevel > 0 then prove_put K (fromLevel - 1) (i + 1) nodes proofDb
      else case proofHash K n of Inl e \<Rightarrow> Inl e
      | Inr (n, hn) \<Rightarrow>
          let enc = (case EncodeToBytes (node_gval n) of Inl e \<Rightarrow> [] | Inr b \<Rightarrow> b) in
          (case hn of
             HashNode h \<Rightarrow> prove_put K fromLevel (i + 1) nodes (proofDb(h \<mapsto> enc))
           | _ \<Rightarrow>
               if i = 0 then prove_put K fromLevel (i + 1) nodes (proofDb(K enc \<mapsto> enc))
               else prove_put K fromLevel (i + 1) nodes proofDb))"

definition Prove :: "(bytes \<Rightarrow> hash) \<Rightarrow> node_reader \<Rightarrow> Trie \<Rightarrow> bytes \<Rightarrow> nat \<Rightarrow> (hash \<rightharpoonup> bytes) \<Rightarrow>
    (trie_error + (hash \<rightharpoonup> bytes)) option" where
  "Prove K db t key fromLevel proofDb =
     map_option (\<lambda>r. case r of Inl e \<Rightarrow> Inl e | Inr nodes \<Rightarrow> prove_put K fromLevel 0 nodes proofDb)
       (prove_nodes db (t_root t) (keybytesToHex key) [])"

subsection \<open>Verification\<close>

text \<open>\<open>None\<close> is an index out of range.\<close>

function (sequential) proof_get :: "tnode \<Rightarrow> bytes \<Rightarrow> bool \<Rightarrow> (bytes \<times> tnode) option" where
  "proof_get (ShortNode nKey nVal f) key skipResolved =
     (if length key < length nKey \<or> nKey \<noteq> take (length nKey) key then Some ([], NilNode)
      else let key = drop (length nKey) key in
        if \<not> skipResolved then Some (key, nVal) else proof_get nVal key skipResolved)"
| "proof_get (FullNode cs f) key skipResolved =
     (if 0 < length key \<and> unat (key ! 0) < length cs then
        let tn = cs ! unat (key ! 0); r = drop 1 key in
        if \<not> skipResolved then Some (r, tn) else proof_get tn r skipResolved
      else None)"
| "proof_get (HashNode n) key skipResolved = Some (key, HashNode n)"
| "proof_get NilNode key skipResolved = Some (key, NilNode)"
| "proof_get (ValueNode v) key skipResolved = Some ([], ValueNode v)"
  by pat_completeness auto
termination
proof (relation "measure (\<lambda>(n, key, skip). size n)", goal_cases)
  case (3 cs f key skipResolved tn r)
  then have "size (cs ! unat (key ! 0)) \<le> size_list size cs"
    by (meson nth_mem size_list_estimation' order_refl)
  then show ?case using 3 by simp
qed auto

datatype proof_error = ProofMissing nat hash | BadProofNode nat node_error | ProofPanic

text \<open>A decoded node that is neither nil, a hash nor a value would let the loop go round again
  (\<open>get\<close> with \<open>skipResolved\<close> returns none).\<close>

partial_function (option) verify_loop ::
  "(hash \<rightharpoonup> bytes) \<Rightarrow> nat \<Rightarrow> hash \<Rightarrow> bytes \<Rightarrow> (proof_error + bytes option) option" where
  "verify_loop proofDb i wantHash key =
     (case proofDb wantHash of None \<Rightarrow> Some (Inl (ProofMissing i wantHash))
      | Some buf \<Rightarrow>
          (case decodeNode (Some wantHash) buf of Inl e \<Rightarrow> Some (Inl (BadProofNode i e))
           | Inr n \<Rightarrow>
               (case proof_get n key True of None \<Rightarrow> Some (Inl ProofPanic)
                | Some (keyrest, cld) \<Rightarrow>
                    (case cld of
                       NilNode \<Rightarrow> Some (Inr None)
                     | HashNode h \<Rightarrow>
                         verify_loop proofDb (i + 1) (take 32 h @ drop (length h) wantHash) keyrest
                     | ValueNode v \<Rightarrow> Some (Inr (Some v))
                     | _ \<Rightarrow> verify_loop proofDb (i + 1) wantHash key))))"

definition VerifyProof :: "hash \<Rightarrow> bytes \<Rightarrow> (hash \<rightharpoonup> bytes) \<Rightarrow> (proof_error + bytes option) option" where
  "VerifyProof rootHash key proofDb = verify_loop proofDb 0 rootHash (keybytesToHex key)"

end
