(* ===== verification/Trie_Spec.thy ===== *)
theory Trie_Spec
  imports Trie_Encoding
begin

text \<open>
  The tries that the nodes of \<open>trie/trie.go\<close> represent: all nodes loaded, no cache flags.
  The theory defines look-up, insertion and deletion on them, the shape that the trie code
  keeps (\<open>twf\<close>: no short node below a short node, at least two children in a full node, no
  empty values), shows that they implement a map from hex keys to values, and that a trie of
  this shape is determined by the map.
\<close>

datatype ptrie = PNil | PVal bytes | PShort bytes ptrie | PFull "ptrie list"

subsection \<open>Prefixes of keys\<close>

fun drop_prefix :: "bytes \<Rightarrow> bytes \<Rightarrow> bytes option" where
  "drop_prefix [] k = Some k"
| "drop_prefix (x # p) [] = None"
| "drop_prefix (x # p) (y # k) = (if x = y then drop_prefix p k else None)"

lemma drop_prefix_Some: "drop_prefix p k = Some s \<longleftrightarrow> k = p @ s"
  by (induction p k rule: drop_prefix.induct) auto

lemma drop_prefix_None: "drop_prefix p k = None \<longleftrightarrow> (\<forall>s. k \<noteq> p @ s)"
  using drop_prefix_Some [of p k] by (cases "drop_prefix p k") auto

lemma drop_prefix_append: "drop_prefix (p @ q) k = Option.bind (drop_prefix p k) (drop_prefix q)"
  by (induction p k rule: drop_prefix.induct) auto

lemma drop_prefix_self [simp]: "drop_prefix p (p @ s) = Some s" "drop_prefix p p = Some []"
  by (simp_all add: drop_prefix_Some)

lemma vkey_Cons: "vkey (c # r) \<longleftrightarrow> (c = 16 \<and> r = []) \<or> (c < 16 \<and> vkey r)"
proof
  assume "vkey (c # r)"
  then obtain ns where ns: "c # r = ns @ [16]" "nibbles ns" by (auto simp: vkey_def)
  show "(c = 16 \<and> r = []) \<or> (c < 16 \<and> vkey r)"
  proof (cases ns)
    case (Cons a list)
    with ns show ?thesis by (auto simp: vkey_def)
  qed (use ns in simp)
next
  assume "(c = 16 \<and> r = []) \<or> (c < 16 \<and> vkey r)"
  then show "vkey (c # r)"
  proof
    assume "c = 16 \<and> r = []"
    then show ?thesis by (auto simp: vkey_def)
  next
    assume "c < 16 \<and> vkey r"
    then obtain ns where "c # r = (c # ns) @ [16]" "nibbles (c # ns)" by (auto simp: vkey_def)
    then show ?thesis unfolding vkey_def by blast
  qed
qed

lemma vkey_Nil [simp]: "\<not> vkey []"
  by (simp add: vkey_def)

lemma vkey_append: "nibbles p \<Longrightarrow> vkey (p @ r) \<longleftrightarrow> vkey r"
  by (induction p) (auto simp: vkey_Cons)

lemma vkey_prefix: "vkey p \<Longrightarrow> vkey (p @ r) \<longleftrightarrow> r = []"
  by (induction p) (auto simp: vkey_Cons)

lemma drop_prefix_vkey: "vkey k \<Longrightarrow> vkey k' \<Longrightarrow> drop_prefix k k' = (if k' = k then Some [] else None)"
  by (cases "drop_prefix k k'") (auto simp: drop_prefix_Some vkey_prefix)

lemma vkey_nth: "vkey k \<Longrightarrow> i < length k \<Longrightarrow> unat (k ! i) < 17"
proof -
  assume "vkey k" "i < length k"
  then have "k ! i = 16 \<or> k ! i < 16"
    by (auto simp: vkey_def nth_append less_Suc_eq)
  then show ?thesis by (auto simp: word_less_nat_alt)
qed

lemma size_nth: "i < length cs \<Longrightarrow> size (cs ! i) \<le> size_list size cs"
  by (meson nth_mem size_list_estimation' order_refl)

subsection \<open>Operations\<close>

function plookup :: "ptrie \<Rightarrow> bytes \<Rightarrow> bytes option" where
  "plookup PNil k = None"
| "plookup (PVal v) k = Some v"
| "plookup (PShort p t) k = Option.bind (drop_prefix p k) (plookup t)"
| "plookup (PFull cs) k =
     (case k of [] \<Rightarrow> None | c # r \<Rightarrow> if unat c < length cs then plookup (cs ! unat c) r else None)"
  by pat_completeness auto
termination
  by (relation "measure (\<lambda>(t, k). size t)") (auto simp: less_Suc_eq_le size_nth)

text \<open>A value below a key that may be empty.\<close>

definition ext :: "bytes \<Rightarrow> ptrie \<Rightarrow> ptrie" where
  "ext p t = (if p = [] then t else PShort p t)"

definition branch :: "byte \<Rightarrow> ptrie \<Rightarrow> byte \<Rightarrow> ptrie \<Rightarrow> ptrie" where
  "branch a t b u = PFull ((replicate 17 PNil)[unat a := t, unat b := u])"

function pinsert :: "ptrie \<Rightarrow> bytes \<Rightarrow> ptrie \<Rightarrow> ptrie" where
  "pinsert PNil k v = ext k v"
| "pinsert (PVal w) k v = v"
| "pinsert (PShort p t) k v =
     (let m = prefixLen k p in
      if m = length p then PShort p (pinsert t (drop m k) v)
      else ext (take m k)
        (branch (p ! m) (ext (drop (m + 1) p) t) (k ! m) (ext (drop (m + 1) k) v)))"
| "pinsert (PFull cs) k v =
     (case k of [] \<Rightarrow> PFull cs
      | c # r \<Rightarrow> if unat c < length cs then PFull (cs[unat c := pinsert (cs ! unat c) r v]) else PFull cs)"
  by pat_completeness auto
termination
  by (relation "measure (\<lambda>(t, k, v). size t)") (auto simp: less_Suc_eq_le size_nth)

text \<open>The positions of the children that are present, and what remains of a full node with
  one child.\<close>

definition present :: "ptrie list \<Rightarrow> nat list" where
  "present cs = filter (\<lambda>i. cs ! i \<noteq> PNil) [0..<length cs]"

definition pmerge :: "bytes \<Rightarrow> ptrie \<Rightarrow> ptrie" where
  "pmerge p t = (case t of PShort q u \<Rightarrow> PShort (p @ q) u | _ \<Rightarrow> PShort p t)"

definition pcollapse :: "ptrie list \<Rightarrow> ptrie" where
  "pcollapse cs = (case present cs of [i] \<Rightarrow> pmerge [of_nat i] (cs ! i) | _ \<Rightarrow> PFull cs)"

function pdelete :: "ptrie \<Rightarrow> bytes \<Rightarrow> ptrie" where
  "pdelete PNil k = PNil"
| "pdelete (PVal v) k = PNil"
| "pdelete (PShort p t) k =
     (case drop_prefix p k of None \<Rightarrow> PShort p t
      | Some [] \<Rightarrow> PNil
      | Some (c # r) \<Rightarrow> pmerge p (pdelete t (c # r)))"
| "pdelete (PFull cs) k =
     (case k of [] \<Rightarrow> PFull cs
      | c # r \<Rightarrow>
          if unat c < length cs then
            let t = pdelete (cs ! unat c) r; cs' = cs[unat c := t]
            in if t \<noteq> PNil then PFull cs' else pcollapse cs'
          else PFull cs)"
  by pat_completeness auto
termination
  by (relation "measure (\<lambda>(t, k). size t)") (auto simp: less_Suc_eq_le size_nth)

subsection \<open>Shape\<close>

definition is_val :: "ptrie \<Rightarrow> bool" where
  "is_val t \<longleftrightarrow> (\<exists>v. t = PVal v \<and> v \<noteq> [])"

definition is_full :: "ptrie \<Rightarrow> bool" where
  "is_full t \<longleftrightarrow> (\<exists>cs. t = PFull cs)"

function twf :: "ptrie \<Rightarrow> bool" where
  "twf PNil = False"
| "twf (PVal v) = False"
| "twf (PShort p t) \<longleftrightarrow>
     (vkey p \<and> is_val t) \<or> (p \<noteq> [] \<and> nibbles p \<and> is_full t \<and> twf t)"
| "twf (PFull cs) \<longleftrightarrow>
     length cs = 17 \<and> (\<forall>i < 16. i < length cs \<longrightarrow> cs ! i \<noteq> PNil \<longrightarrow> twf (cs ! i)) \<and>
     (cs ! 16 = PNil \<or> is_val (cs ! 16)) \<and> 2 \<le> length (present cs)"
  by pat_completeness auto
termination
  by (relation "measure size") (auto simp: less_Suc_eq_le size_nth)

text \<open>The root of a trie may also be empty. A child of a full node at \<open>c\<close> is a value when
  \<open>c\<close> is the terminator.\<close>

definition pwf :: "ptrie \<Rightarrow> bool" where
  "pwf t \<longleftrightarrow> t = PNil \<or> twf t"

definition child_ok :: "nat \<Rightarrow> ptrie \<Rightarrow> bool" where
  "child_ok i t \<longleftrightarrow> t = PNil \<or> (if i = 16 then is_val t else twf t)"

lemma present_two:
  "2 \<le> length (present cs) \<longleftrightarrow>
     (\<exists>i j. i \<noteq> j \<and> i < length cs \<and> j < length cs \<and> cs ! i \<noteq> PNil \<and> cs ! j \<noteq> PNil)"
proof
  assume "2 \<le> length (present cs)"
  then obtain i j r where p: "present cs = i # j # r"
    by (auto simp: numeral_2_eq_2 Suc_le_length_iff)
  have "distinct (present cs)" by (simp add: present_def)
  with p have "i \<noteq> j" by simp
  moreover have "i \<in> set (present cs)" "j \<in> set (present cs)" using p by auto
  ultimately show "\<exists>i j. i \<noteq> j \<and> i < length cs \<and> j < length cs \<and> cs ! i \<noteq> PNil \<and> cs ! j \<noteq> PNil"
    unfolding present_def by fastforce
next
  assume "\<exists>i j. i \<noteq> j \<and> i < length cs \<and> j < length cs \<and> cs ! i \<noteq> PNil \<and> cs ! j \<noteq> PNil"
  then obtain i j where ij: "i \<noteq> j" "{i, j} \<subseteq> set (present cs)" by (auto simp: present_def)
  have "card {i, j} \<le> card (set (present cs))" using ij(2) by (intro card_mono) auto
  also have "\<dots> = length (present cs)" by (rule distinct_card) (simp add: present_def)
  finally show "2 \<le> length (present cs)" using ij(1) by simp
qed

lemma twf_PFull:
  "twf (PFull cs) \<longleftrightarrow> length cs = 17 \<and> (\<forall>i < 17. child_ok i (cs ! i)) \<and> 2 \<le> length (present cs)"
proof -
  have *: "i < 17 \<longleftrightarrow> i < 16 \<or> i = 16" for i :: nat by auto
  show ?thesis unfolding * by (auto simp: child_ok_def)
qed

declare twf.simps(4) [simp del]

text \<open>The first 16 children of a full node are tries, the last one is a value.\<close>

lemma twf_PFull_children:
  assumes "twf (PFull cs)"
  shows "cs = take 16 cs @ [cs ! 16]" "drop 16 cs = [cs ! 16]" "t \<in> set (take 16 cs) \<Longrightarrow> t = PNil \<or> twf t"
    "cs ! 16 = PNil \<or> is_val (cs ! 16)"
proof -
  have len: "length cs = 17" using assms by (simp add: twf_PFull)
  show "cs = take 16 cs @ [cs ! 16]" using len id_take_nth_drop [of 16 cs] by simp
  then show "drop 16 cs = [cs ! 16]" by (metis append_eq_conv_conj append_take_drop_id same_append_eq)
  show "t = PNil \<or> twf t" if "t \<in> set (take 16 cs)"
  proof -
    from that obtain i where i: "i < 16" "t = cs ! i" using len by (auto simp: in_set_conv_nth)
    then have "child_ok i t" using assms by (simp add: twf_PFull)
    then show ?thesis using i by (auto simp: child_ok_def)
  qed
  have "child_ok 16 (cs ! 16)" using assms by (simp add: twf_PFull)
  then show "cs ! 16 = PNil \<or> is_val (cs ! 16)" by (simp add: child_ok_def)
qed

lemma is_val_PVal [simp]: "is_val (PVal v) \<longleftrightarrow> v \<noteq> []" "\<not> is_val PNil" "\<not> is_val (PFull cs)"
    "\<not> is_val (PShort p t)"
  by (simp_all add: is_val_def)

lemma is_full_simps [simp]: "is_full (PFull cs)" "\<not> is_full PNil" "\<not> is_full (PVal v)"
    "\<not> is_full (PShort p t)"
  by (simp_all add: is_full_def)

lemma twf_not_PNil: "twf t \<Longrightarrow> t \<noteq> PNil"
  by auto

lemma plookup_fun [simp]: "plookup PNil = (\<lambda>_. None)" "plookup (PVal v) = (\<lambda>_. Some v)"
  by auto

lemma plookup_ext [simp]: "plookup (ext p t) k = Option.bind (drop_prefix p k) (plookup t)"
  by (simp add: ext_def)

lemma unat_16: "(c :: byte) = 16 \<longleftrightarrow> unat c = 16"
  by (simp add: word_unat_eq_iff)

lemma vkey_init: "vkey (q @ b # r) \<Longrightarrow> nibbles q \<and> (b = 16 \<and> r = [] \<or> b < 16 \<and> vkey r)"
  by (induction q) (auto simp: vkey_Cons)

lemma vkey_head: "vkey (c # r) \<Longrightarrow> unat c < 17 \<and> (unat c = 16 \<longrightarrow> r = []) \<and> (unat c \<noteq> 16 \<longrightarrow> vkey r)"
  by (auto simp: vkey_Cons word_less_nat_alt)

lemma prefix_split:
  assumes "vkey k" "vkey p \<or> nibbles p" "prefixLen k p \<noteq> length p"
  obtains q a p' b r where "k = q @ b # r" "p = q @ a # p'" "a \<noteq> b" "prefixLen k p = length q"
    "nibbles q"
proof -
  let ?m = "prefixLen k p"
  have mp: "?m < length p" using assms(3) prefixLen_le(2) [of k p] by simp
  have mk: "?m < length k"
  proof (rule ccontr)
    assume "\<not> ?m < length k"
    then have "?m = length k" using prefixLen_le(1) [of k p] by simp
    then have k: "take ?m k = k" by simp
    have "p = take ?m p @ drop ?m p" by simp
    then have p: "p = k @ drop ?m p" using prefixLen_take [of k p] k by metis
    have "drop ?m p \<noteq> []" using mp by simp
    then have "\<not> vkey p" using p assms(1) vkey_prefix by metis
    moreover have "16 \<in> set k" using assms(1) by (auto simp: vkey_def)
    then have "\<not> nibbles p" using p by (metis UnCI less_irrefl set_append)
    ultimately show False using assms(2) by blast
  qed
  have k: "k = take ?m k @ k ! ?m # drop (Suc ?m) k" using mk by (rule id_take_nth_drop)
  moreover have "p = take ?m k @ p ! ?m # drop (Suc ?m) p"
    using mp prefixLen_take [of k p] by (simp add: id_take_nth_drop)
  moreover have "nibbles (take ?m k)" using vkey_init k assms(1) by metis
  ultimately show thesis
    using that [of "take ?m k" "k ! ?m" "drop (Suc ?m) k" "p ! ?m" "drop (Suc ?m) p"]
      prefixLen_diff [of k p] mk mp by auto
qed

lemma plookup_branch:
  assumes "unat a < 17" "unat b < 17" "a \<noteq> b"
  shows "plookup (branch a t b u) k =
    (case k of [] \<Rightarrow> None
     | c # r \<Rightarrow> if c = a then plookup t r else if c = b then plookup u r else None)"
  using assms by (cases k) (auto simp: branch_def nth_list_update word_unat_eq_iff)

lemma twf_branch:
  assumes "unat a < 17" "unat b < 17" "a \<noteq> b" "child_ok (unat a) t" "child_ok (unat b) u"
    "t \<noteq> PNil" "u \<noteq> PNil"
  shows "twf (branch a t b u)"
proof -
  have "unat a \<noteq> unat b" using assms(3) by (simp add: word_unat_eq_iff)
  moreover from this have "2 \<le> length (present ((replicate 17 PNil)[unat a := t, unat b := u]))"
    unfolding present_two using assms by (rule_tac exI [of _ "unat a"], rule_tac exI [of _ "unat b"]) simp
  ultimately show ?thesis using assms
    by (auto simp: branch_def twf_PFull nth_list_update child_ok_def)
qed

subsection \<open>Insertion\<close>

text \<open>\<open>updates t k v t'\<close>: on terminated keys, \<open>t'\<close> is \<open>t\<close> with \<open>k\<close> set to \<open>v\<close> (\<open>None\<close>
  when \<open>k\<close> is removed).\<close>

definition updates :: "ptrie \<Rightarrow> bytes \<Rightarrow> bytes option \<Rightarrow> ptrie \<Rightarrow> bool" where
  "updates t k v t' \<longleftrightarrow> (\<forall>k'. vkey k' \<longrightarrow> plookup t' k' = (if k' = k then v else plookup t k'))"

lemma child_ok_ext:
  assumes "twf (PShort (q @ a # p) t)"
  shows "unat a < 17 \<and> child_ok (unat a) (ext p t) \<and> ext p t \<noteq> PNil"
proof (cases "is_val t")
  case True
  with assms have "vkey (q @ a # p)" by (auto simp: is_val_def)
  from vkey_init [OF this] show ?thesis
    using True by (auto simp: child_ok_def ext_def is_val_def word_less_nat_alt)
next
  case False
  with assms have "nibbles (q @ a # p)" "is_full t" "twf t" by auto
  then show ?thesis by (auto simp: child_ok_def ext_def word_less_nat_alt is_full_def)
qed

lemma child_ok_leaf:
  "vkey (q @ b # r) \<Longrightarrow> is_val v \<Longrightarrow> unat b < 17 \<and> child_ok (unat b) (ext r v) \<and> ext r v \<noteq> PNil"
  by (rule child_ok_ext [of q]) simp

lemma pinsert_split:
  assumes "twf (PShort (q @ a # p) t)" "vkey (q @ b # r)" "a \<noteq> b" "is_val v"
  defines "t' \<equiv> ext q (branch a (ext p t) b (ext r v))"
  shows "twf t'" "updates (PShort (q @ a # p) t) (q @ b # r) (plookup v []) t'"
proof -
  have a: "unat a < 17" "child_ok (unat a) (ext p t)" "ext p t \<noteq> PNil"
    using child_ok_ext [OF assms(1)] by auto
  have b: "unat b < 17" "child_ok (unat b) (ext r v)" "ext r v \<noteq> PNil"
    using child_ok_leaf [OF assms(2,4)] by auto
  have "twf (branch a (ext p t) b (ext r v))"
    using a b assms(3) by (intro twf_branch)
  then show "twf t'" using vkey_init [OF assms(2)] by (simp add: t'_def ext_def branch_def)
  from assms(4) obtain w where v: "v = PVal w" by (auto simp: is_val_def)
  show "updates (PShort (q @ a # p) t) (q @ b # r) (plookup v []) t'"
    unfolding updates_def
  proof (intro allI impI)
    fix k' assume k': "vkey k'"
    have tail: "Option.bind (drop_prefix r s) (\<lambda>k. Some w) = (if s = r then Some w else None)"
      if "k' = q @ b # s" for s
    proof (cases "drop_prefix r s")
      case None
      then have "s \<noteq> r @ []" using drop_prefix_None by blast
      with None show ?thesis by simp
    next
      case (Some y)
      then have s: "s = r @ y" by (simp add: drop_prefix_Some)
      then have "vkey ((q @ b # r) @ y)" using that k' by simp
      then have "y = []" using vkey_prefix [OF assms(2), of y] by blast
      with s Some show ?thesis by simp
    qed
    show "plookup t' k' = (if k' = q @ b # r then plookup v [] else plookup (PShort (q @ a # p) t) k')"
    proof (cases "drop_prefix q k'")
      case None
      then show ?thesis using drop_prefix_None [of q k'] by (auto simp: t'_def drop_prefix_append)
    next
      case (Some z)
      then have q: "k' = q @ z" by (simp add: drop_prefix_Some)
      show ?thesis
      proof (cases z)
        case Nil
        then show ?thesis using q a(1) b(1) assms(3)
          by (simp add: t'_def drop_prefix_append plookup_branch)
      next
        case (Cons c s)
        then show ?thesis using q a(1) b(1) assms(3) v tail [of s]
          by (auto simp: t'_def drop_prefix_append plookup_branch)
      qed
    qed
  qed
qed

lemma updates_PShort:
  assumes "updates t r v t'" "vkey (p @ r)" "nibbles p"
  shows "updates (PShort p t) (p @ r) v (PShort p t')"
  unfolding updates_def
proof (intro allI impI)
  fix k' assume "vkey k'"
  then show "plookup (PShort p t') k' = (if k' = p @ r then v else plookup (PShort p t) k')"
    using assms drop_prefix_None [of p k']
    by (cases "drop_prefix p k'") (auto simp: drop_prefix_Some vkey_append updates_def)
qed

text \<open>A full node after a change of the child at \<open>c\<close>.\<close>

lemma updates_PFull:
  assumes "length cs = 17" "vkey (c # r)"
    and "\<And>r'. (if unat c = 16 then r' = [] else vkey r') \<Longrightarrow>
      plookup t r' = (if r' = r then v else plookup (cs ! unat c) r')"
  shows "updates (PFull cs) (c # r) v (PFull (cs[unat c := t]))"
  unfolding updates_def
proof (intro allI impI)
  fix k' assume k': "vkey k'"
  then obtain c' r' where k'_def: "k' = c' # r'" by (cases k') auto
  have c': "unat c' < 17" using vkey_head k' k'_def by blast
  show "plookup (PFull (cs[unat c := t])) k' = (if k' = c # r then v else plookup (PFull cs) k')"
  proof (cases "c' = c")
    case True
    then have "if unat c = 16 then r' = [] else vkey r'" using vkey_head k' k'_def by auto
    from assms(3) [OF this] show ?thesis using True k'_def c' assms(1) by simp
  next
    case False
    then have "unat c' \<noteq> unat c" by (simp add: word_unat_eq_iff)
    then show ?thesis using False k'_def c' assms(1) by simp
  qed
qed

lemma present_update:
  assumes "2 \<le> length (present cs)" "t \<noteq> PNil"
  shows "2 \<le> length (present (cs[i := t]))"
proof -
  from assms(1) obtain j k where "j \<noteq> k" "j < length cs" "k < length cs" "cs ! j \<noteq> PNil" "cs ! k \<noteq> PNil"
    unfolding present_two by blast
  then have "j \<noteq> k \<and> j < length (cs[i := t]) \<and> k < length (cs[i := t]) \<and> cs[i := t] ! j \<noteq> PNil \<and>
      cs[i := t] ! k \<noteq> PNil"
    using assms(2) by (cases "i < length cs") (auto simp: nth_list_update)
  then show ?thesis unfolding present_two by blast
qed

lemma child_ok_update:
  "\<forall>j < 17. child_ok j (cs ! j) \<Longrightarrow> child_ok i t \<Longrightarrow> length cs = 17 \<Longrightarrow>
    \<forall>j < 17. child_ok j (cs[i := t] ! j)"
  by (metis nth_list_update_eq nth_list_update_neq)

lemma twf_PFull_update:
  assumes "twf (PFull cs)" "child_ok i t" "t \<noteq> PNil"
  shows "twf (PFull (cs[i := t]))"
  using assms present_update child_ok_update by (simp add: twf_PFull)

lemma updates_ext: "is_val v \<Longrightarrow> vkey k \<Longrightarrow> updates PNil k (plookup v []) (ext k v)"
  by (auto simp: updates_def is_val_def drop_prefix_vkey)

lemma pinsert_PShort_same:
  "pinsert (PShort p t) (p @ r) v = PShort p (pinsert t r v)"
  "pinsert (PShort p t) p v = PShort p (pinsert t [] v)"
  using prefixLen_append [of p "[]"] by simp_all

lemma pinsert_correct:
  assumes "twf t" "vkey k" "is_val v"
  shows "twf (pinsert t k v) \<and> (is_full t \<longrightarrow> is_full (pinsert t k v)) \<and>
    updates t k (plookup v []) (pinsert t k v)"
  using assms
proof (induction t arbitrary: k)
  case (PShort p t)
  then have p: "vkey p \<or> nibbles p" by auto
  show ?case
  proof (cases "prefixLen k p = length p")
    case True
    then obtain r where k: "k = p @ r" by (auto simp: prefixLen_full)
    show ?thesis
    proof (cases "is_val t")
      case True
      with PShort.prems have "vkey p" by (auto simp: is_val_def)
      with PShort.prems(2) k have r: "r = []" by (simp add: vkey_prefix)
      have "pinsert t [] v = v" using True by (auto simp: is_val_def)
      then show ?thesis
        using k r True PShort.prems \<open>vkey p\<close>
        by (auto simp del: pinsert.simps simp: pinsert_PShort_same updates_def is_val_def drop_prefix_vkey)
    next
      case False
      with PShort.prems have t: "nibbles p" "p \<noteq> []" "is_full t" "twf t" by auto
      with PShort.prems(2) k have "vkey r" by (simp add: vkey_append)
      with PShort.IH [of r] t PShort.prems(2,3) k updates_PShort show ?thesis by auto
    qed
  next
    case False
    from prefix_split [OF PShort.prems(2) p this] obtain q a p' b r
      where *: "k = q @ b # r" "p = q @ a # p'" "a \<noteq> b" "prefixLen k p = length q" by metis
    then have "pinsert (PShort p t) k v = ext q (branch a (ext p' t) b (ext r v))"
      by (simp add: nth_append)
    with pinsert_split [of q a p' t b r v] PShort.prems * show ?thesis by simp
  qed
next
  case (PFull cs)
  from PFull.prems(2) obtain c r where k: "k = c # r" by (cases k) auto
  note c = vkey_head [OF PFull.prems(2) [unfolded k]]
  let ?t = "cs ! unat c" and ?t' = "pinsert (cs ! unat c) r v"
  have len: "length cs = 17" and ok: "child_ok (unat c) ?t" using PFull.prems(1) c by (auto simp: twf_PFull)
  have "child_ok (unat c) ?t' \<and> ?t' \<noteq> PNil \<and>
    (\<forall>r'. (if unat c = 16 then r' = [] else vkey r') \<longrightarrow>
      plookup ?t' r' = (if r' = r then plookup v [] else plookup ?t r'))"
  proof (cases "unat c = 16")
    case True
    then show ?thesis using ok c PFull.prems(3)
      by (cases ?t) (auto simp: child_ok_def ext_def)
  next
    case False
    with c have r: "vkey r" by simp
    show ?thesis
    proof (cases "?t = PNil")
      case True
      then show ?thesis using False r PFull.prems(3) updates_ext [OF PFull.prems(3) r]
        by (auto simp: child_ok_def ext_def updates_def)
    next
      case nonnil: False
      then have "twf ?t" using ok False by (simp add: child_ok_def)
      with PFull.IH [of ?t r] c len r PFull.prems(3) show ?thesis
        using False by (auto simp: child_ok_def updates_def)
    qed
  qed
  then show ?case
    using k c len PFull.prems(1,2) twf_PFull_update updates_PFull [of cs c r ?t' "plookup v []"] by simp
qed simp_all

subsection \<open>Deletion\<close>

lemma plookup_pmerge: "plookup (pmerge p t) k = plookup (PShort p t) k"
  by (cases "drop_prefix p k"; cases t) (simp_all add: pmerge_def drop_prefix_append)

lemma twf_pmerge: "twf t \<Longrightarrow> nibbles p \<Longrightarrow> p \<noteq> [] \<Longrightarrow> twf (pmerge p t)"
  by (cases t) (auto simp: pmerge_def vkey_append)

lemma plookup_single:
  assumes "length cs = 17" "present cs = [i]" "vkey k"
  shows "plookup (PFull cs) k = plookup (PShort [of_nat i] (cs ! i)) k"
proof -
  from assms(3) obtain c r where k: "k = c # r" "unat c < 17" by (cases k) (auto dest: vkey_head)
  have "i \<in> set (present cs)" using assms(2) by simp
  then have i: "i < 17" using assms(1) by (simp add: present_def)
  have "cs ! unat c = PNil" if "unat c \<noteq> i"
  proof -
    have "unat c \<notin> set (present cs)" using assms(2) that by simp
    then show ?thesis using k(2) assms(1) by (simp add: present_def)
  qed
  moreover have "of_nat i = c \<longleftrightarrow> unat c = i" using i k(2)
    by (auto simp: word_unat_eq_iff unat_of_nat_byte)
  ultimately show ?thesis using k assms(1) by auto
qed

lemma pcollapse_correct:
  assumes "length cs = 17" "\<forall>i < 17. child_ok i (cs ! i)" "present cs \<noteq> []"
  shows "twf (pcollapse cs)" "vkey k \<Longrightarrow> plookup (pcollapse cs) k = plookup (PFull cs) k"
proof -
  show "twf (pcollapse cs)"
  proof (cases "\<exists>i. present cs = [i]")
    case True
    then obtain i where i: "present cs = [i]" by blast
    then have "i \<in> set (present cs)" by simp
    then have "i < 17" "cs ! i \<noteq> PNil" using assms(1) by (simp_all add: present_def)
    then have "(i = 16 \<and> is_val (cs ! i)) \<or> (i < 16 \<and> twf (cs ! i))"
      using assms(2) [rule_format, of i] by (cases "i = 16") (auto simp: child_ok_def)
    then show ?thesis
    proof
      assume "i = 16 \<and> is_val (cs ! i)"
      then show ?thesis using i by (auto simp: pcollapse_def pmerge_def is_val_def vkey_def)
    next
      assume c: "i < 16 \<and> twf (cs ! i)"
      then have "(of_nat i :: byte) < 16" by (simp add: word_less_nat_alt unat_of_nat_byte)
      with c i show ?thesis by (simp add: pcollapse_def twf_pmerge)
    qed
  next
    case False
    with assms(3) have "2 \<le> length (present cs)" by (cases "present cs" rule: remdups_adj.cases) auto
    then show ?thesis using assms False by (auto simp: pcollapse_def twf_PFull split: list.splits)
  qed
  show "plookup (pcollapse cs) k = plookup (PFull cs) k" if "vkey k"
    using plookup_single [OF assms(1) _ that]
    by (auto simp: pcollapse_def plookup_pmerge split: list.split simp del: plookup.simps)
qed

lemma present_remove:
  assumes "2 \<le> length (present cs)"
  shows "present (cs[i := t]) \<noteq> []"
proof -
  from assms obtain j k where "j \<noteq> k" "j < length cs" "k < length cs" "cs ! j \<noteq> PNil" "cs ! k \<noteq> PNil"
    by (auto simp: present_two)
  then have "\<exists>j < length cs. cs[i := t] ! j \<noteq> PNil" by (metis nth_list_update_neq)
  then show ?thesis by (auto simp: present_def filter_empty_conv)
qed

lemma pdelete_PFull:
  assumes "twf (PFull cs)" "unat c < 17" "child_ok (unat c) t"
  defines "t' \<equiv> if t \<noteq> PNil then PFull (cs[unat c := t]) else pcollapse (cs[unat c := t])"
  shows "twf t'" "vkey k \<Longrightarrow> plookup t' k = plookup (PFull (cs[unat c := t])) k"
proof -
  let ?cs = "cs[unat c := t]"
  have len: "length ?cs = 17" using assms(1) by (simp add: twf_PFull)
  have ok: "\<forall>j < 17. child_ok j (?cs ! j)"
    using assms(1,3) child_ok_update by (simp add: twf_PFull)
  have ne: "present ?cs \<noteq> []" using assms(1) present_remove by (simp add: twf_PFull)
  show "twf t'"
    using twf_PFull_update [OF assms(1,3)] pcollapse_correct(1) [OF len ok ne]
    by (cases "t = PNil") (simp_all add: t'_def)
  show "plookup t' k = plookup (PFull ?cs) k" if "vkey k"
    using pcollapse_correct(2) [OF len ok ne that]
    by (cases "t = PNil") (simp_all add: t'_def del: plookup.simps)
qed

lemma pcollapse_two: "2 \<le> length (present cs) \<Longrightarrow> pcollapse cs = PFull cs"
  by (auto simp: pcollapse_def split: list.split)

lemma pdelete_correct:
  assumes "twf t" "vkey k"
  shows "pwf (pdelete t k) \<and> (is_full t \<longrightarrow> twf (pdelete t k)) \<and> updates t k None (pdelete t k) \<and>
    (plookup t k = None \<longrightarrow> pdelete t k = t)"
  using assms
proof (induction t arbitrary: k)
  case (PShort p t)
  show ?case
  proof (cases "is_val t")
    case True
    with PShort.prems have "vkey p" by (auto simp: is_val_def)
    then show ?thesis using True PShort.prems
      by (auto simp: drop_prefix_vkey updates_def pwf_def is_val_def)
  next
    case False
    with PShort.prems have t: "nibbles p" "p \<noteq> []" "is_full t" "twf t" by auto
    show ?thesis
    proof (cases "drop_prefix p k")
      case None
      then show ?thesis using PShort.prems by (auto simp: updates_def pwf_def)
    next
      case (Some z)
      then have k: "k = p @ z" by (simp add: drop_prefix_Some)
      with PShort.prems(2) t have z: "vkey z" by (simp add: vkey_append)
      then obtain c r where "z = c # r" by (cases z) auto
      with Some have d: "pdelete (PShort p t) k = pmerge p (pdelete t z)" by simp
      note IH = PShort.IH [OF t(4) z]
      have "twf (pmerge p (pdelete t z))" using IH t twf_pmerge by simp
      moreover have "updates (PShort p t) (p @ z) None (PShort p (pdelete t z))"
        using IH t k PShort.prems(2) updates_PShort by blast
      moreover have "pmerge p t = PShort p t" using t(3) by (auto simp: pmerge_def is_full_def)
      ultimately show ?thesis
        using d k Some IH by (auto simp: pwf_def updates_def plookup_pmerge simp del: pdelete.simps)
    qed
  qed
next
  case (PFull cs)
  from PFull.prems(2) obtain c r where k: "k = c # r" by (cases k) auto
  note c = vkey_head [OF PFull.prems(2) [unfolded k]]
  let ?t = "cs ! unat c" and ?t' = "pdelete (cs ! unat c) r"
  have len: "length cs = 17" and ok: "child_ok (unat c) ?t" and two: "2 \<le> length (present cs)"
    using PFull.prems(1) c by (auto simp: twf_PFull)
  have t': "child_ok (unat c) ?t' \<and> (plookup ?t r = None \<longrightarrow> ?t' = ?t) \<and>
    (\<forall>r'. (if unat c = 16 then r' = [] else vkey r') \<longrightarrow>
      plookup ?t' r' = (if r' = r then None else plookup ?t r'))"
  proof (cases "?t = PNil \<or> unat c = 16")
    case True
    then show ?thesis using ok c by (cases ?t) (auto simp: child_ok_def)
  next
    case False
    then have "twf ?t" "vkey r" using ok c by (auto simp: child_ok_def)
    with PFull.IH [of ?t r] c len False show ?thesis
      by (auto simp: child_ok_def updates_def pwf_def)
  qed
  have d: "pdelete (PFull cs) k =
    (if ?t' \<noteq> PNil then PFull (cs[unat c := ?t']) else pcollapse (cs[unat c := ?t']))"
    using k c len by (simp add: Let_def)
  have "updates (PFull cs) (c # r) None (PFull (cs[unat c := ?t']))"
    using updates_PFull [OF len, of c r ?t' None] t' PFull.prems(2) k by simp
  moreover have "plookup (PFull cs) k = None \<longrightarrow> pdelete (PFull cs) k = PFull cs"
    using t' d k c len two by (auto simp: pcollapse_two)
  moreover note pdelete_PFull [OF PFull.prems(1), of c ?t'] 
  ultimately show ?case using t' c k unfolding d
    by (auto simp: pwf_def updates_def simp del: plookup.simps)
qed simp_all

subsection \<open>Canonicity\<close>

lemma twf_has_key: "twf t \<Longrightarrow> \<exists>k. vkey k \<and> plookup t k \<noteq> None"
proof (induction t)
  case (PShort p t)
  show ?case
  proof (cases "is_val t")
    case True
    then have "vkey p \<and> plookup (PShort p t) p \<noteq> None" using PShort.prems by (auto simp: is_val_def)
    then show ?thesis by blast
  next
    case False
    with PShort obtain k where "vkey k" "plookup t k \<noteq> None" "nibbles p" by auto
    then have "vkey (p @ k) \<and> plookup (PShort p t) (p @ k) \<noteq> None" by (simp add: vkey_append)
    then show ?thesis by blast
  qed
next
  case (PFull cs)
  then obtain i where i: "i < 17" "cs ! i \<noteq> PNil" and cs: "length cs = 17" "child_ok i (cs ! i)"
    by (auto simp: twf_PFull present_two)
  have u: "unat (of_nat i :: byte) = i" using i by (simp add: unat_of_nat_byte)
  show ?case
  proof (cases "i = 16")
    case True
    then have "plookup (PFull cs) [16] \<noteq> None" using i cs by (auto simp: child_ok_def is_val_def)
    then show ?thesis by (intro exI [of _ "[16]"]) (simp add: vkey_Cons)
  next
    case False
    then have "twf (cs ! i)" using i cs by (simp add: child_ok_def)
    with PFull.IH [of "cs ! i"] i cs obtain r where "vkey r" "plookup (cs ! i) r \<noteq> None" by auto
    then have "vkey (of_nat i # r) \<and> plookup (PFull cs) (of_nat i # r) \<noteq> None"
      using i u cs False by (simp add: vkey_Cons word_less_nat_alt)
    then show ?thesis by blast
  qed
qed simp_all

lemma child_has_key:
  assumes "twf (PFull cs)" "i < 17" "cs ! i \<noteq> PNil"
  shows "\<exists>r. vkey (of_nat i # r) \<and> plookup (PFull cs) (of_nat i # r) \<noteq> None"
proof (cases "i = 16")
  case True
  then have "child_ok 16 (cs ! 16)" "length cs = 17" using assms by (simp_all add: twf_PFull)
  then have "plookup (PFull cs) [16] \<noteq> None" using True assms(3) by (auto simp: child_ok_def is_val_def)
  then show ?thesis using True by (intro exI [of _ "[]"]) (simp add: vkey_Cons)
next
  case False
  have u: "unat (of_nat i :: byte) = i" using assms by (simp add: unat_of_nat_byte)
  have "twf (cs ! i)" using assms False by (auto simp: twf_PFull child_ok_def)
  from twf_has_key [OF this] obtain r where "vkey r" "plookup (cs ! i) r \<noteq> None" by blast
  then have "vkey (of_nat i # r) \<and> plookup (PFull cs) (of_nat i # r) \<noteq> None"
    using assms u False by (simp add: vkey_Cons word_less_nat_alt twf_PFull)
  then show ?thesis by blast
qed

text \<open>The keys of a full node do not all start with the same nibble.\<close>

lemma full_diverges:
  assumes "twf t" "is_full t"
  shows "\<exists>k k'. vkey k \<and> vkey k' \<and> plookup t k \<noteq> None \<and> plookup t k' \<noteq> None \<and> hd k \<noteq> hd k'"
proof -
  from assms(2) obtain cs where t: "t = PFull cs" by (auto simp: is_full_def)
  with assms(1) obtain i j where ij: "i \<noteq> j" "i < 17" "j < 17" "cs ! i \<noteq> PNil" "cs ! j \<noteq> PNil"
    by (auto simp: twf_PFull present_two)
  then have "(of_nat i :: byte) \<noteq> of_nat j" by (simp add: word_unat_eq_iff unat_of_nat_byte)
  then show ?thesis using child_has_key [of cs] ij t assms(1) by (metis list.sel(1))
qed

lemma plookup_PShort_prefix: "plookup (PShort p t) k \<noteq> None \<Longrightarrow> \<exists>s. k = p @ s \<and> plookup t s \<noteq> None"
  by (cases "drop_prefix p k") (auto simp: drop_prefix_Some)

lemma twf_PShort_keys:
  assumes "twf (PShort p t)" "\<And>k. vkey k \<Longrightarrow> plookup (PShort p t) k \<noteq> None \<Longrightarrow> \<exists>s. k = p @ z @ s"
  shows "z = []"
proof (rule ccontr)
  assume z: "z \<noteq> []"
  show False
  proof (cases "is_val t")
    case True
    then have "vkey p" "plookup (PShort p t) p \<noteq> None" using assms(1) by (auto simp: is_val_def)
    with assms(2) z show False by fastforce
  next
    case False
    with assms(1) have t: "nibbles p" "is_full t" "twf t" by auto
    from full_diverges [OF t(3,2)] obtain k k'
      where k: "vkey k" "vkey k'" "plookup t k \<noteq> None" "plookup t k' \<noteq> None" "hd k \<noteq> hd k'" by blast
    have "\<exists>s. p @ k = p @ z @ s" "\<exists>s. p @ k' = p @ z @ s"
      using assms(2) [of "p @ k"] assms(2) [of "p @ k'"] k t(1) by (simp_all add: vkey_append)
    with k(5) z show False by auto
  qed
qed

lemma short_not_full:
  assumes "twf (PShort p t)" "twf u" "is_full u"
    and "\<And>k. vkey k \<Longrightarrow> plookup (PShort p t) k = plookup u k"
  shows False
proof -
  from full_diverges [OF assms(2,3)] obtain k k'
    where k: "vkey k" "vkey k'" "plookup u k \<noteq> None" "plookup u k' \<noteq> None" "hd k \<noteq> hd k'" by blast
  then have "\<exists>s. k = p @ s" "\<exists>s. k' = p @ s"
    using assms(4) plookup_PShort_prefix by metis+
  moreover have "p \<noteq> []" using assms(1) by auto
  ultimately show False using k(5) by auto
qed

lemma twf_unique:
  assumes "twf t" "twf u" "\<And>k. vkey k \<Longrightarrow> plookup t k = plookup u k"
  shows "t = u"
  using assms
proof (induction t arbitrary: u)
  case (PShort p t)
  note short = PShort.prems(1) and u = PShort.prems(2) and eq = PShort.prems(3)
  from u show ?case
  proof (cases u)
    case (PFull ds)
    then show ?thesis using short_not_full [OF short u] eq by simp
  next
    case u_def: (PShort q u')
    obtain k where k: "vkey k" "plookup (PShort p t) k \<noteq> None" using twf_has_key short by blast
    then obtain s s' where s: "k = p @ s" "k = q @ s'"
      using eq u_def plookup_PShort_prefix by metis
    have keys: "\<exists>s. k = p @ s" "\<exists>s. k = q @ s" if "vkey k" "plookup (PShort p t) k \<noteq> None" for k
      using eq u_def plookup_PShort_prefix that by metis+
    have pq: "p = q"
    proof -
      from s obtain z where "q = p @ z \<or> p = q @ z" by (auto simp: append_eq_append_conv2)
      then show ?thesis
      proof
        assume z: "q = p @ z"
        then have "z = []" by (intro twf_PShort_keys [OF short]) (use keys in auto)
        with z show ?thesis by simp
      next
        assume z: "p = q @ z"
        then have "z = []" using u u_def eq keys by (intro twf_PShort_keys [of q u']) auto
        with z show ?thesis by simp
      qed
    qed
    have sub: "plookup t s = plookup u' s" if "vkey (p @ s)" for s
      using eq [OF that] u_def pq by simp
    show ?thesis
    proof (cases "is_val t")
      case True
      then have "vkey p" using short by (auto simp: is_val_def)
      then have "is_val u'" using u u_def pq nibbles_no_term vkey_hasTerm by auto
      with True sub [of "[]"] \<open>vkey p\<close> pq u_def show ?thesis by (auto simp: is_val_def)
    next
      case False
      then have t: "nibbles p" "twf t" "is_full t" using short by auto
      have "twf u'" using u u_def pq t(1) nibbles_no_term vkey_hasTerm by auto
      with PShort.IH [OF t(2)] sub t(1) have "t = u'" by (simp add: vkey_append)
      with pq u_def show ?thesis by simp
    qed
  qed auto
next
  case (PFull cs)
  note full = PFull.prems(1) and u = PFull.prems(2) and eq = PFull.prems(3)
  from u show ?case
  proof (cases u)
    case (PShort q u')
    then show ?thesis using short_not_full [of q u' "PFull cs"] full u eq by simp
  next
    case u_def: (PFull ds)
    have len: "length cs = 17" "length ds = 17" using full u u_def by (simp_all add: twf_PFull)
    have ok: "child_ok i (cs ! i)" "child_ok i (ds ! i)" if "i < 17" for i
      using full u u_def that by (simp_all add: twf_PFull)
    have nil: "cs ! i = PNil \<longleftrightarrow> ds ! i = PNil" if i: "i < 17" for i
    proof -
      have un: "unat (of_nat i :: byte) = i" using i by (simp add: unat_of_nat_byte)
      have *: "plookup (cs ! i) r = plookup (ds ! i) r" if "vkey (of_nat i # r)" for r
        using eq [OF that] u_def un i len by simp
      show ?thesis
        using child_has_key [OF full i] child_has_key [of ds i] u u_def i * un len by fastforce
    qed
    have "cs ! i = ds ! i" if i: "i < 17" for i
    proof (cases "cs ! i = PNil")
      case True
      then show ?thesis using nil [OF i] by simp
    next
      case False
      have un: "unat (of_nat i :: byte) = i" using i by (simp add: unat_of_nat_byte)
      have *: "plookup (cs ! i) r = plookup (ds ! i) r" if "vkey (of_nat i # r)" for r
        using eq [OF that] u_def un i len by simp
      show ?thesis
      proof (cases "i = 16")
        case True
        then have "is_val (cs ! i)" "is_val (ds ! i)" using False nil [OF i] ok [OF i] by (auto simp: child_ok_def)
        with * [of "[]"] True show ?thesis by (auto simp: is_val_def vkey_Cons)
      next
        case not16: False
        then have "twf (cs ! i)" "twf (ds ! i)" using False nil [OF i] ok [OF i] by (auto simp: child_ok_def)
        moreover have "plookup (cs ! i) r = plookup (ds ! i) r" if "vkey r" for r
          using that i un not16 by (intro *) (simp add: vkey_Cons word_less_nat_alt)
        ultimately show ?thesis using PFull.IH [of "cs ! i"] i len by simp
      qed
    qed
    then show ?thesis using u_def len by (simp add: list_eq_iff_nth_eq)
  qed auto
qed simp_all

lemma pwf_unique:
  assumes "pwf t" "pwf u" "\<And>k. vkey k \<Longrightarrow> plookup t k = plookup u k"
  shows "t = u"
proof (cases "t = PNil \<or> u = PNil")
  case True
  then show ?thesis using assms twf_has_key by (metis plookup.simps(1) pwf_def)
next
  case False
  then show ?thesis using assms twf_unique by (simp add: pwf_def)
qed

end
