(* ===== verification/Trie_Merkle.thy ===== *)
theory Trie_Merkle
  imports Trie_Spec Trie_Node
begin

text \<open>
  The Merkle encoding of a trie: the RLP encoding of its nodes, in which a child is embedded
  when its encoding is shorter than a hash and referred to by the hash of its encoding
  otherwise. The theory relates it to the decoder of nodes, and shows that it determines the
  trie as long as the hash does not collide on the encodings of its nodes.
\<close>

subsection \<open>Encodings of the nodes of a trie\<close>

definition hash32 :: "(bytes \<Rightarrow> hash) \<Rightarrow> bool" where
  "hash32 K \<longleftrightarrow> (\<forall>x. length (K x) = 32)"

fun is_leaf :: "ptrie \<Rightarrow> bool" where
  "is_leaf PNil = True"
| "is_leaf (PVal v) = True"
| "is_leaf _ = False"

fun penc :: "(bytes \<Rightarrow> hash) \<Rightarrow> ptrie \<Rightarrow> bytes" where
  "penc K PNil = rlp_str []"
| "penc K (PVal v) = rlp_str v"
| "penc K (PShort p t) =
     rlp_list (rlp_str (compact (hasTerm p) (strip p)) @
       (let e = penc K t in if is_leaf t \<or> length e < 32 then e else rlp_str (K e)))"
| "penc K (PFull cs) =
     rlp_list (concat (map (\<lambda>t.
       let e = penc K t in if is_leaf t \<or> length e < 32 then e else rlp_str (K e)) cs))"

definition pref :: "(bytes \<Rightarrow> hash) \<Rightarrow> ptrie \<Rightarrow> bytes" where
  "pref K t = (let e = penc K t in if is_leaf t \<or> length e < 32 then e else rlp_str (K e))"

lemma penc_simps [simp]:
  "penc K (PShort p t) = rlp_list (rlp_str (compact (hasTerm p) (strip p)) @ pref K t)"
  "penc K (PFull cs) = rlp_list (concat (map (pref K) cs))"
  by (simp_all add: pref_def [abs_def])

declare penc.simps(3,4) [simp del]

text \<open>The node that the decoder makes of an encoding: the children that are not embedded are
  hash nodes.\<close>

fun dnode :: "(bytes \<Rightarrow> hash) \<Rightarrow> bytes option \<Rightarrow> ptrie \<Rightarrow> tnode" where
  "dnode K h PNil = NilNode"
| "dnode K h (PVal v) = ValueNode v"
| "dnode K h (PShort p t) =
     ShortNode p (if is_leaf t \<or> length (penc K t) < 32 then dnode K None t else HashNode (K (penc K t)))
       \<lparr>nf_hash = h, nf_dirty = False\<rparr>"
| "dnode K h (PFull cs) =
     FullNode (map (\<lambda>t.
       if is_leaf t \<or> length (penc K t) < 32 then dnode K None t else HashNode (K (penc K t))) cs)
       \<lparr>nf_hash = h, nf_dirty = False\<rparr>"

definition dref :: "(bytes \<Rightarrow> hash) \<Rightarrow> ptrie \<Rightarrow> tnode" where
  "dref K t =
     (if is_leaf t \<or> length (penc K t) < 32 then dnode K None t else HashNode (K (penc K t)))"

lemma dnode_simps [simp]:
  "dnode K h (PShort p t) = ShortNode p (dref K t) \<lparr>nf_hash = h, nf_dirty = False\<rparr>"
  "dnode K h (PFull cs) = FullNode (map (dref K) cs) \<lparr>nf_hash = h, nf_dirty = False\<rparr>"
  by (simp_all add: dref_def [abs_def])

declare dnode.simps(3,4) [simp del]

subsection \<open>Decoding\<close>

definition is_item :: "bytes \<Rightarrow> bool" where
  "is_item b \<longleftrightarrow> (\<exists>k c. b = item k c \<and> kind_ok k c)"

lemma is_item_str [simp]: "is_item (rlp_str v)"
proof (cases "length v = 1 \<and> unat (hd v) < 128")
  case True
  then have "rlp_str v = item ByteK v \<and> kind_ok ByteK v" by (simp add: item_def kind_ok_def)
  then show ?thesis unfolding is_item_def by blast
next
  case False
  then have "rlp_str v = item StringK v \<and> kind_ok StringK v" by (simp add: item_def kind_ok_def)
  then show ?thesis unfolding is_item_def by blast
qed

lemma is_item_list [simp]: "is_item (rlp_list b)"
proof -
  have "rlp_list b = item ListK b \<and> kind_ok ListK b" by (simp add: item_def kind_ok_def)
  then show ?thesis unfolding is_item_def by blast
qed

lemma is_item_pref [simp]: "is_item (pref K t)"
  using is_item_str [of "[]"] by (cases t) (simp_all add: pref_def Let_def)

lemma items_of: "\<forall>b \<in> set bs. is_item b \<Longrightarrow>
    \<exists>kcs. bs = map (case_prod item) kcs \<and> (\<forall>(k, c) \<in> set kcs. kind_ok k c)"
proof (induction bs)
  case (Cons b bs)
  then obtain kcs k c where "bs = map (case_prod item) kcs" "\<forall>(k, c) \<in> set kcs. kind_ok k c"
    "b = item k c" "kind_ok k c" by (auto simp: is_item_def)
  then show ?case by (intro exI [of _ "(k, c) # kcs"]) simp
qed simp

lemma countElems_items:
  assumes "\<forall>b \<in> set bs. is_item b" "length (concat bs) < 2 ^ 63"
  shows "countElems (concat bs) = length bs"
proof -
  from items_of [OF assms(1)] obtain kcs
    where kcs: "bs = map (case_prod item) kcs" "\<forall>(k, c) \<in> set kcs. kind_ok k c" by blast
  then show ?thesis using CountValues_loop_items [of kcs 0] assms(2)
    by (simp add: countElems_def CountValues_def)
qed

definition ref_ok :: "(bytes \<Rightarrow> hash) \<Rightarrow> ptrie \<Rightarrow> bool" where
  "ref_ok K t \<longleftrightarrow>
     (\<forall>rest. length (pref K t @ rest) < 2 ^ 63 \<longrightarrow>
       (\<exists>k v. Split (pref K t @ rest) = Inr (k, v, rest) \<and>
         decodeRefItem k v (pref K t @ rest) rest = Inr (dref K t)))"

lemma kind_ok_32: "length v = 32 \<Longrightarrow> kind_ok StringK v \<and> rlp_str v = item StringK v"
  by (simp add: kind_ok_def item_def)

lemma ref_okI:
  assumes "hash32 K" "t = PNil \<or> twf t"
    and "\<And>rest. twf t \<Longrightarrow> length (penc K t @ rest) < 2 ^ 63 \<Longrightarrow>
      decodeNode None (penc K t @ rest) = Inr (dnode K None t)"
  shows "ref_ok K t"
  unfolding ref_ok_def
proof (intro allI impI)
  fix rest assume len: "length (pref K t @ rest) < 2 ^ 63"
  consider "t = PNil" | "twf t" "length (penc K t) < 32" | "twf t" "\<not> length (penc K t) < 32"
    using assms(2) by blast
  then show "\<exists>k v. Split (pref K t @ rest) = Inr (k, v, rest) \<and>
         decodeRefItem k v (pref K t @ rest) rest = Inr (dref K t)"
  proof cases
    case 1
    then have "pref K t = item StringK []" by (simp add: pref_def item_def)
    then have "Split (pref K t @ rest) = Inr (StringK, [], rest)"
      using len by (subst Split_iff) (simp_all add: kind_ok_def)
    then show ?thesis using 1 by (simp add: decodeRefItem.simps dref_def)
  next
    case 2
    then have e: "pref K t = penc K t" by (simp add: pref_def)
    from 2 obtain pl where pl: "penc K t = rlp_list pl" by (cases t) auto
    then have "Split (pref K t @ rest) = Inr (ListK, pl, rest)"
      using len e by (subst Split_iff) (simp_all add: kind_ok_def item_def)
    then show ?thesis using 2 e assms(3) [of rest] len
      by (intro exI [of _ ListK] exI [of _ pl]) (simp add: decodeRefItem.simps dref_def hashLen_def)
  next
    case 3
    then have leaf: "\<not> is_leaf t" by (cases t) auto
    with 3 have e: "pref K t = rlp_str (K (penc K t))" by (simp add: pref_def)
    have k: "length (K (penc K t)) = 32" using assms(1) by (simp add: hash32_def)
    then have "Split (pref K t @ rest) = Inr (StringK, K (penc K t), rest)"
      using len e kind_ok_32 by (subst Split_iff) simp_all
    then show ?thesis using 3 leaf k by (simp add: decodeRefItem.simps dref_def)
  qed
qed

lemma decodeFull_children:
  assumes "\<forall>t \<in> set ts. ref_ok K t" "length cs + length ts = 16"
    "length (concat (map (pref K) ts) @ rest) < 2 ^ 63"
  shows "decodeFull h (concat (map (pref K) ts) @ rest) cs = decodeFull h rest (cs @ map (dref K) ts)"
  using assms
proof (induction ts arbitrary: cs)
  case (Cons t ts)
  let ?rest = "concat (map (pref K) ts) @ rest"
  have "ref_ok K t" "length (pref K t @ ?rest) < 2 ^ 63" using Cons.prems by simp_all
  then obtain k v where kv: "Split (pref K t @ ?rest) = Inr (k, v, ?rest)"
    "decodeRefItem k v (pref K t @ ?rest) ?rest = Inr (dref K t)" unfolding ref_ok_def by blast
  have "decodeFull h (pref K t @ ?rest) cs = decodeFull h ?rest (cs @ [dref K t])"
    using Cons.prems(2) kv by (subst decodeFull.simps) simp
  also have "\<dots> = decodeFull h rest ((cs @ [dref K t]) @ map (dref K) ts)"
    using Cons.prems by (intro Cons.IH) simp_all
  finally show ?case by simp
qed simp

lemma decode_penc:
  assumes "hash32 K" "twf t" "length (penc K t @ rest) < 2 ^ 63"
  shows "decodeNode h (penc K t @ rest) = Inr (dnode K h t)"
  using assms(2,3)
proof (induction t arbitrary: h rest)
  case (PShort p t)
  let ?key = "rlp_str (compact (hasTerm p) (strip p))"
  have split: "SplitList (penc K (PShort p t) @ rest) = Inr (?key @ pref K t, rest)"
    using PShort.prems(2) by (subst SplitList_iff) simp_all
  have len: "length (?key @ pref K t) < 2 ^ 63" using PShort.prems(2) by (simp add: rlp_list_def)
  have count: "countElems (?key @ pref K t) = 2"
    using countElems_items [of "[?key, pref K t]"] len by simp
  have key: "SplitString (?key @ pref K t) = Inr (compact (hasTerm p) (strip p), pref K t)"
    using len by (subst SplitString_iff) simp_all
  have p: "hexkey p" using PShort.prems(1) by (auto simp: hexkey_def)
  then have p': "compactToHex (compact (hasTerm p) (strip p)) = p"
    using hexkey_strip [OF p] by (simp add: compactToHex_compact)
  have "decodeShort h (?key @ pref K t) = Inr (dnode K h (PShort p t))"
  proof (cases "hasTerm p")
    case True
    then have "is_val t" using p hexkey_term [OF p] nibbles_no_term PShort.prems(1) by auto
    then obtain v where v: "t = PVal v" by (auto simp: is_val_def)
    then have "pref K t = rlp_str v" by (simp add: pref_def)
    then have "SplitString (pref K t) = Inr (v, [])" using len by (subst SplitString_iff) simp_all
    then show ?thesis using key p' True v
      by (subst decodeShort.simps) (simp add: dref_def)
  next
    case False
    then have t: "twf t" using vkey_hasTerm PShort.prems(1) by auto
    have "ref_ok K t" using assms(1) t PShort.IH by (intro ref_okI) auto
    moreover have "length (pref K t @ []) < 2 ^ 63" using len by simp
    ultimately obtain k v where "Split (pref K t @ []) = Inr (k, v, [])"
      "decodeRefItem k v (pref K t @ []) [] = Inr (dref K t)" unfolding ref_ok_def by blast
    then show ?thesis using key p' False by (subst decodeShort.simps) simp
  qed
  then show ?case using split count
    by (subst decodeNode.simps) (auto simp: rlp_list_def rlp_head_def)
next
  case (PFull cs)
  have len: "length cs = 17" and ok: "\<And>i. i < 17 \<Longrightarrow> child_ok i (cs ! i)"
    using PFull.prems(1) by (auto simp: twf_PFull)
  let ?e = "concat (map (pref K) cs)"
  have split: "SplitList (penc K (PFull cs) @ rest) = Inr (?e, rest)"
    using PFull.prems(2) by (subst SplitList_iff) simp_all
  have lene: "length ?e < 2 ^ 63" using PFull.prems(2) by (simp add: rlp_list_def)
  have count: "countElems ?e = 17" using countElems_items [of "map (pref K) cs"] lene len by simp
  note cs = twf_PFull_children(1) [OF PFull.prems(1)]
  have refs: "\<forall>t \<in> set (take 16 cs). ref_ok K t"
  proof
    fix t assume "t \<in> set (take 16 cs)"
    then have "t = PNil \<or> twf t" "t \<in> set cs"
      using twf_PFull_children(3) [OF PFull.prems(1)] in_set_takeD by fast+
    then show "ref_ok K t"
      using assms(1) PFull.IH [of t] by (intro ref_okI) auto
  qed
  have e: "?e = concat (map (pref K) (take 16 cs)) @ pref K (cs ! 16)" by (subst cs) simp
  have "decodeFull h ?e [] = decodeFull h (pref K (cs ! 16)) (map (dref K) (take 16 cs))"
    unfolding e using refs len lene e decodeFull_children [of "take 16 cs" K "[]"] by simp
  also have "\<dots> = Inr (FullNode (map (dref K) (take 16 cs) @ [dref K (cs ! 16)]) \<lparr>nf_hash = h, nf_dirty = False\<rparr>)"
  proof -
    define v where "v = (case cs ! 16 of PVal v \<Rightarrow> v | _ \<Rightarrow> [])"
    have v: "pref K (cs ! 16) = rlp_str v \<and>
      (if length v > 0 then ValueNode v else NilNode) = dref K (cs ! 16)"
      using ok [of 16] by (cases "cs ! 16") (auto simp: child_ok_def pref_def dref_def v_def)
    then have "SplitString (pref K (cs ! 16)) = Inr (v, [])"
      using lene e by (subst SplitString_iff) simp_all
    then show ?thesis using v len by (subst decodeFull.simps) simp
  qed
  also have "map (dref K) (take 16 cs) @ [dref K (cs ! 16)] = map (dref K) cs"
    by (subst (3) cs) simp
  finally show ?case using split count
    by (subst decodeNode.simps) (auto simp: rlp_list_def rlp_head_def)
qed simp_all

subsection \<open>The encoding determines the trie\<close>

fun encs :: "(bytes \<Rightarrow> hash) \<Rightarrow> ptrie \<Rightarrow> bytes set" where
  "encs K (PShort p t) = insert (penc K (PShort p t)) (encs K t)"
| "encs K (PFull cs) = insert (penc K (PFull cs)) (\<Union> (encs K ` set cs))"
| "encs K _ = {}"

definition no_collision :: "(bytes \<Rightarrow> hash) \<Rightarrow> bytes set \<Rightarrow> bytes set \<Rightarrow> bool" where
  "no_collision K A B \<longleftrightarrow> (\<forall>x \<in> A. \<forall>y \<in> B. K x = K y \<longrightarrow> x = y)"

lemma penc_in_encs: "\<not> is_leaf t \<Longrightarrow> penc K t \<in> encs K t"
  by (cases t) auto

lemma twf_not_leaf: "twf t \<Longrightarrow> \<not> is_leaf t"
  by (cases t) auto

lemma dnode_not_hash: "dnode K h t \<noteq> HashNode x"
  by (cases t) auto

text \<open>Subtries whose encoding is embedded or hashed into that of a larger one are small enough
  for the decoder.\<close>

fun sized :: "(bytes \<Rightarrow> hash) \<Rightarrow> ptrie \<Rightarrow> bool" where
  "sized K (PShort p t) \<longleftrightarrow> length (penc K (PShort p t)) < 2 ^ 63 \<and> sized K t"
| "sized K (PFull cs) \<longleftrightarrow> length (penc K (PFull cs)) < 2 ^ 63 \<and> (\<forall>t \<in> set cs. sized K t)"
| "sized K _ = True"

lemma sized_penc: "twf t \<Longrightarrow> sized K t \<Longrightarrow> length (penc K t) < 2 ^ 63"
  by (cases t) auto

lemma dref_dnode:
  assumes "hash32 K" "twf t" "twf u" "sized K t" "sized K u" "no_collision K (encs K t) (encs K u)"
    and "dref K t = dref K u"
  shows "dnode K None t = dnode K None u"
proof -
  have leaf: "\<not> is_leaf t" "\<not> is_leaf u" using assms(2,3) twf_not_leaf by auto
  show ?thesis
  proof (cases "length (penc K t) < 32")
    case True
    then show ?thesis using assms(7) dnode_not_hash by (auto simp: dref_def split: if_splits)
  next
    case False
    then have "K (penc K t) = K (penc K u)"
      using assms(7) leaf dnode_not_hash by (metis dref_def tnode.inject(3))
    then have "penc K t = penc K u"
      using assms(6) penc_in_encs leaf by (auto simp: no_collision_def)
    then show ?thesis
      using decode_penc [OF assms(1), of _ "[]" None] assms(2-5) sized_penc by (metis append_Nil2 sum.inject(2))
  qed
qed

lemma no_collision_mono:
  "no_collision K A B \<Longrightarrow> A' \<subseteq> A \<Longrightarrow> B' \<subseteq> B \<Longrightarrow> no_collision K A' B'"
  unfolding no_collision_def by blast

lemma dnode_inj:
  assumes "hash32 K" "twf t" "twf u" "sized K t" "sized K u" "no_collision K (encs K t) (encs K u)"
    and "dnode K h t = dnode K h u"
  shows "t = u"
  using assms(2-)
proof (induction t arbitrary: h u)
  case (PShort p t)
  from PShort.prems(6) obtain u' where u: "u = PShort p u'" "dref K t = dref K u'"
    by (cases u) auto
  show ?case
  proof (cases "is_val t")
    case True
    then have "hasTerm p" using PShort.prems(1) vkey_hasTerm by (auto simp: is_val_def)
    then have "is_val u'" using PShort.prems(2) u nibbles_no_term by auto
    with True u show ?thesis by (auto simp: is_val_def dref_def)
  next
    case False
    then have t: "twf t" "nibbles p" using PShort.prems(1) by auto
    then have u': "twf u'" using PShort.prems(2) u nibbles_no_term vkey_hasTerm by auto
    have nc: "no_collision K (encs K t) (encs K u')"
      using PShort.prems(5) u by (auto elim!: no_collision_mono)
    have "dnode K None t = dnode K None u'"
      using assms(1) t(1) u' PShort.prems(3,4) u nc by (intro dref_dnode) auto
    then show ?thesis using PShort.IH [OF t(1) u' _ _ nc] PShort.prems(3,4) u by simp
  qed
next
  case (PFull cs)
  from PFull.prems(6) obtain ds where u: "u = PFull ds" "map (dref K) cs = map (dref K) ds"
    by (cases u) auto
  have len: "length cs = 17" "length ds = 17" and
    ok: "\<And>i. i < 17 \<Longrightarrow> child_ok i (cs ! i) \<and> child_ok i (ds ! i)"
    using PFull.prems(1,2) u by (auto simp: twf_PFull)
  have "cs ! i = ds ! i" if i: "i < 17" for i
  proof -
    have d: "dref K (cs ! i) = dref K (ds ! i)" using u(2) i len by (metis nth_map)
    have in_cs: "cs ! i \<in> set cs" "ds ! i \<in> set ds" using i len by simp_all
    consider "is_leaf (cs ! i)" "is_leaf (ds ! i)" | "is_leaf (cs ! i)" "twf (ds ! i)"
      | "is_leaf (ds ! i)" "twf (cs ! i)" | "twf (cs ! i)" "twf (ds ! i)" "i \<noteq> 16"
      using ok [OF i] by (cases "i = 16") (auto simp: child_ok_def is_val_def)
    then show ?thesis
    proof cases
      case 1
      then show ?thesis using d by (cases "cs ! i"; cases "ds ! i") (auto simp: dref_def)
    next
      case 2
      then show ?thesis using d by (cases "cs ! i"; cases "ds ! i") (auto simp: dref_def split: if_splits)
    next
      case 3
      then show ?thesis using d by (cases "cs ! i"; cases "ds ! i") (auto simp: dref_def split: if_splits)
    next
      case 4
      have nc: "no_collision K (encs K (cs ! i)) (encs K (ds ! i))"
        using PFull.prems(5) u in_cs by (auto elim!: no_collision_mono)
      have "sized K (cs ! i)" "sized K (ds ! i)" using PFull.prems(3,4) u in_cs by auto
      moreover from this have "dnode K None (cs ! i) = dnode K None (ds ! i)"
        using assms(1) 4 d nc by (intro dref_dnode)
      ultimately show ?thesis using PFull.IH [OF in_cs(1)] 4 nc by blast
    qed
  qed
  then show ?case using u len by (simp add: list_eq_iff_nth_eq)
qed auto

lemma penc_binding:
  assumes "hash32 K" "twf t" "twf u" "sized K t" "sized K u" "no_collision K (encs K t) (encs K u)"
    and "K (penc K t) = K (penc K u)"
  shows "t = u"
proof -
  have "penc K t = penc K u"
    using assms(6,7) penc_in_encs twf_not_leaf assms(2,3) by (auto simp: no_collision_def)
  then have "dnode K None t = dnode K None u"
    using decode_penc [OF assms(1), of _ "[]" None] assms(2-5) sized_penc by (metis append_Nil2 sum.inject(2))
  then show ?thesis using dnode_inj assms(1-6) by blast
qed

end
