(* ===== verification/Trie_Refine.thy ===== *)
theory Trie_Refine
  imports Trie_Ops Trie_Merkle
begin

text \<open>
  The nodes of a trie, loaded or in the database, represent a trie of \<open>Trie_Spec\<close>, and the
  operations of \<open>trie/trie.go\<close> implement those of \<open>Trie_Spec\<close>: they return, report no
  error when no node is missing, and leave nodes that represent the result.
\<close>

subsection \<open>Representation\<close>

text \<open>A cached hash is the hash of the encoding. Only the root (\<open>rt\<close>) may have a cached hash
  although its encoding is short.\<close>

definition flag_ok :: "(bytes \<Rightarrow> hash) \<Rightarrow> bool \<Rightarrow> nodeFlag \<Rightarrow> ptrie \<Rightarrow> bool" where
  "flag_ok K rt f t \<longleftrightarrow>
     (\<forall>h. nf_hash f = Some h \<longrightarrow> h = K (penc K t) \<and> (rt \<or> 32 \<le> length (penc K t)))"

inductive rep :: "(bytes \<Rightarrow> hash) \<Rightarrow> node_reader \<Rightarrow> bool \<Rightarrow> tnode \<Rightarrow> ptrie \<Rightarrow> bool"
  for K :: "bytes \<Rightarrow> hash" and db :: node_reader where
  rep_nil: "rep K db rt NilNode PNil"
| rep_val: "rep K db rt (ValueNode v) (PVal v)"
| rep_short: "rep K db False n t \<Longrightarrow> flag_ok K rt f (PShort k t) \<Longrightarrow>
    rep K db rt (ShortNode k n f) (PShort k t)"
| rep_full: "list_all2 (rep K db False) ns ts \<Longrightarrow> flag_ok K rt f (PFull ts) \<Longrightarrow>
    rep K db rt (FullNode ns f) (PFull ts)"
| rep_hash: "length h = 32 \<Longrightarrow> db h = Inr n \<Longrightarrow> is_loaded n \<Longrightarrow> rep K db rt n t \<Longrightarrow>
    h = K (penc K t) \<Longrightarrow> rt \<or> 32 \<le> length (penc K t) \<Longrightarrow> rep K db rt (HashNode h) t"

inductive_cases rep_nilE [elim!]: "rep K db rt NilNode t"
inductive_cases rep_valE [elim!]: "rep K db rt (ValueNode v) t"
inductive_simps rep_ShortNode [simp]: "rep K db rt (ShortNode k n f) t"
inductive_simps rep_FullNode [simp]: "rep K db rt (FullNode ns f) t"
inductive_simps rep_HashNode: "rep K db rt (HashNode h) t"

lemma flag_ok_new [simp]: "flag_ok K rt newFlag t"
  by (simp add: flag_ok_def newFlag_def)

lemma flag_ok_top: "flag_ok K False f t \<Longrightarrow> flag_ok K True f t"
  by (auto simp: flag_ok_def)

lemma rep_loaded: "rep K db rt n t \<Longrightarrow> is_loaded n \<Longrightarrow> \<not> is_leaf t"
  by (induction rule: rep.induct) auto

lemma rep_PNil [simp]: "rep K db rt n PNil \<longleftrightarrow> n = NilNode"
proof
  assume "rep K db rt n PNil"
  then show "n = NilNode" by cases (auto dest: rep_loaded)
qed (auto intro: rep_nil)

lemma rep_PVal [simp]: "rep K db rt n (PVal v) \<longleftrightarrow> n = ValueNode v"
proof
  assume "rep K db rt n (PVal v)"
  then show "n = ValueNode v" by cases (auto dest: rep_loaded)
qed (auto intro: rep_val)

lemma rep_NilNode [simp]: "rep K db rt NilNode t \<longleftrightarrow> t = PNil"
  by (auto intro: rep_nil)

lemma rep_ValueNode [simp]: "rep K db rt (ValueNode v) t \<longleftrightarrow> t = PVal v"
  by (auto intro: rep_val)

lemma rep_top: "rep K db b n t \<Longrightarrow> rep K db True n t"
proof (induction rule: rep.induct)
  case (rep_short n t rt f k)
  then show ?case by (cases rt) (auto intro: rep.rep_short flag_ok_top)
next
  case (rep_full ns ts rt f)
  then have "list_all2 (rep K db False) ns ts" by (simp add: list_all2_conv_all_nth)
  with rep_full show ?case by (cases rt) (auto intro: rep.rep_full flag_ok_top)
next
  case (rep_hash h n rt t)
  then show ?case by (auto intro: rep.rep_hash)
qed simp_all

lemma rep_nil_iff: "rep K db rt n t \<Longrightarrow> n = NilNode \<longleftrightarrow> t = PNil"
  using rep_PNil rep_NilNode by metis

text \<open>Hash nodes resolve to the node they stand for.\<close>

lemma BytesToHash_32 [simp]: "length h = 32 \<Longrightarrow> BytesToHash h = h"
  by (simp add: BytesToHash_def)

lemma resolveHash_rep:
  "length h = 32 \<Longrightarrow> db h = Inr n \<Longrightarrow> is_loaded n \<Longrightarrow> resolveHash db h prefix = Inr n"
  by (cases n) (simp_all add: resolveHash_def Let_def)

lemma rep_hash_result:
  assumes "rep K db rt (HashNode h) t" "rep K db rt n' t'" "t' = t"
  shows "rep K db rt n' t"
  using assms by simp

text \<open>Where an operation with the rest \<open>key\<close> of a key may arrive.\<close>

definition at_node :: "ptrie \<Rightarrow> bytes \<Rightarrow> bool" where
  "at_node t key \<longleftrightarrow> (key = [] \<and> (t = PNil \<or> is_val t)) \<or> (vkey key \<and> (t = PNil \<or> twf t))"

lemma at_node_short:
  assumes "at_node (PShort k t) (k @ r)"
  shows "at_node t r"
proof -
  from assms have k: "vkey (k @ r)" "twf (PShort k t)" by (auto simp: at_node_def)
  show ?thesis
  proof (cases "is_val t")
    case True
    then have "vkey k" using k(2) by (auto simp: is_val_def)
    then have "r = []" using k(1) by (simp add: vkey_prefix)
    with True show ?thesis by (simp add: at_node_def)
  next
    case False
    then have "nibbles k" "twf t" using k(2) by auto
    then show ?thesis using k(1) by (simp add: at_node_def vkey_append)
  qed
qed

lemma at_node_full:
  assumes "at_node (PFull ts) key"
  obtains c r where "key = c # r" "unat c < 17" "length ts = 17" "at_node (ts ! unat c) r"
proof -
  from assms have k: "vkey key" "twf (PFull ts)" by (auto simp: at_node_def)
  then obtain c r where key: "key = c # r" by (cases key) auto
  note c = vkey_head [OF k(1) [unfolded key]]
  have "length ts = 17" "child_ok (unat c) (ts ! unat c)" using k(2) c by (simp_all add: twf_PFull)
  moreover from this have "at_node (ts ! unat c) r"
    using c by (auto simp: at_node_def child_ok_def split: if_splits)
  ultimately show thesis using that key c by blast
qed

subsection \<open>Look-up\<close>

lemma tryGet_rep:
  assumes "rep K db rt n t" "at_node t (drop pos key)" "pos \<le> length key"
  shows "\<exists>n' r. tryGet db n key pos = Some (Inr (plookup t (drop pos key), n', r)) \<and> rep K db rt n' t"
  using assms
proof (induction arbitrary: pos rule: rep.induct)
  case (rep_nil rt)
  then show ?case by (subst tryGet.simps) (auto intro: exI [of _ False])
next
  case (rep_val rt v)
  then show ?case by (subst tryGet.simps) (auto intro: exI [of _ False])
next
  case (rep_short n t rt f k)
  show ?case
  proof (cases "drop_prefix k (drop pos key)")
    case None
    then have "length key - pos < length k \<or> k \<noteq> take (length k) (drop pos key)"
      using drop_prefix_None by (metis append_take_drop_id)
    then show ?thesis using None rep_short.hyps
      by (subst tryGet.simps) (auto intro: exI [of _ False])
  next
    case (Some r)
    then have r: "drop pos key = k @ r" by (simp add: drop_prefix_Some)
    then have r': "drop (pos + length k) key = r" "pos + length k \<le> length key" 
      using rep_short.prems(2) by (metis add.commute append_eq_conv_conj drop_drop)
        (metis r add_le_cancel_left le_add_diff_inverse length_append length_drop rep_short.prems(2) le_add1)
    have "at_node t r" using rep_short.prems(1) at_node_short r by simp
    with rep_short.IH [of "pos + length k"] r' obtain n' d
      where IH: "tryGet db n key (pos + length k) = Some (Inr (plookup t r, n', d))" "rep K db False n' t"
      by auto
    have "length key - pos = length k + length r" using r by (metis length_append length_drop)
    then show ?thesis using IH r Some rep_short.hyps by (subst tryGet.simps) simp
  qed
next
  case (rep_full ns ts rt f)
  from rep_full.prems(1) obtain c r where key: "drop pos key = c # r" and c: "unat c < 17" "length ts = 17"
    and at: "at_node (ts ! unat c) r" by (rule at_node_full)
  have ns: "length ns = 17" using rep_full.IH c by (simp add: list_all2_conv_all_nth)
  have pos: "pos < length key" "key ! pos = c" "drop (pos + 1) key = r"
    using key by (metis drop_eq_Nil linorder_not_less list.distinct(1),
        metis key Cons_nth_drop_Suc drop_eq_Nil linorder_not_less list.distinct(1) list.inject,
        metis key drop_Suc tl_drop list.sel(3) Suc_eq_plus1)
  from rep_full.IH c ns have IHn: "\<And>pos. at_node (ts ! unat c) (drop pos key) \<Longrightarrow> pos \<le> length key \<Longrightarrow>
      \<exists>n' r. tryGet db (ns ! unat c) key pos = Some (Inr (plookup (ts ! unat c) (drop pos key), n', r)) \<and>
        rep K db False n' (ts ! unat c)" and all: "list_all2 (rep K db False) ns ts"
    by (auto simp: list_all2_conv_all_nth)
  from IHn [of "pos + 1"] pos at obtain n' d
    where IH: "tryGet db (ns ! unat c) key (pos + 1) = Some (Inr (plookup (ts ! unat c) r, n', d))"
      "rep K db False n' (ts ! unat c)" by auto
  have "list_all2 (rep K db False) (ns[unat c := n']) ts"
    using list_all2_update_cong [OF all IH(2), of "unat c"] by simp
  then show ?case using IH pos key c ns all rep_full.hyps
    by (subst tryGet.simps) auto
next
  case (rep_hash h n rt t)
  then obtain n' r where "tryGet db n key pos = Some (Inr (plookup t (drop pos key), n', r))" "rep K db rt n' t"
    by blast
  then show ?case using resolveHash_rep [of h db n] rep_hash.hyps
    by (subst tryGet.simps) (auto intro: exI [of _ True])
qed

subsection \<open>Insertion\<close>

lemma trie_insert_Nil:
  "trie_insert db NilNode prefix key v =
     Some (Inr (True, if key = [] then v else ShortNode key v newFlag))"
  by (subst trie_insert.simps) simp

lemma rep_ext:
  "rep K db False n t \<Longrightarrow> rep K db rt (if k = [] then n else ShortNode k n newFlag) (ext k t)"
  if "k \<noteq> [] \<or> rt = False"
  using that by (auto simp: ext_def)

lemma rep_branch:
  assumes "rep K db False n t" "rep K db False m u"
  shows "rep K db rt (FullNode ((replicate 17 NilNode)[unat a := n, unat b := m]) newFlag) (branch a t b u)"
proof -
  have "list_all2 (rep K db False) (replicate 17 NilNode) (replicate 17 PNil)"
    by (simp add: list_all2_conv_all_nth)
  then show ?thesis
    using assms by (auto simp: branch_def intro!: list_all2_update_cong)
qed

lemma trie_insert_rep:
  assumes "rep K db rt n t" "at_node t key" "w \<noteq> []"
  shows "\<exists>d n'. trie_insert db n prefix key (ValueNode w) = Some (Inr (d, n')) \<and>
    rep K db rt n' (pinsert t key (PVal w)) \<and> (\<not> d \<longrightarrow> pinsert t key (PVal w) = t)"
  using assms(1,2)
proof (induction arbitrary: prefix key rule: rep.induct)
  case (rep_nil rt)
  then show ?case by (auto simp: trie_insert_Nil ext_def)
next
  case (rep_val rt v)
  then have "key = []" by (auto simp: at_node_def)
  then show ?case by (subst trie_insert.simps) auto
next
  case (rep_short n t rt f k)
  then have key: "vkey key" "twf (PShort k t)" by (auto simp: at_node_def)
  then have ne: "key \<noteq> []" by auto
  show ?case
  proof (cases "prefixLen key k = length k")
    case True
    then obtain r where r: "key = k @ r" by (auto simp: prefixLen_full)
    then have "at_node t r" using rep_short.prems at_node_short by simp
    from rep_short.IH [OF this, of "prefix @ k"] obtain d n'
      where IH: "trie_insert db n (prefix @ k) r (ValueNode w) = Some (Inr (d, n'))"
        "rep K db False n' (pinsert t r (PVal w))" "\<not> d \<longrightarrow> pinsert t r (PVal w) = t" by blast
    have "trie_insert db (ShortNode k n f) prefix key (ValueNode w) =
      Some (Inr (if d then (True, ShortNode k n' newFlag) else (False, ShortNode k n f)))"
      using IH(1) True r ne by (subst trie_insert.simps) simp
    then show ?thesis using IH(2,3) True r rep_short.hyps by auto
  next
    case False
    have "vkey k \<or> nibbles k" using key(2) by auto
    from prefix_split [OF key(1) this False] obtain q a p' b r
      where *: "key = q @ b # r" "k = q @ a # p'" "a \<noteq> b" "prefixLen key k = length q" by metis
    have ab: "unat a < 17" "unat b < 17"
      using child_ok_ext [of q a p' t] key * vkey_head [of b r] vkey_init [of q b r]
      by (auto simp: word_less_nat_alt)
    let ?n1 = "if p' = [] then n else ShortNode p' n newFlag"
    let ?n2 = "if r = [] then ValueNode w else ShortNode r (ValueNode w) newFlag"
    let ?cs = "(replicate 17 NilNode)[unat a := ?n1, unat b := ?n2]"
    have ins: "trie_insert db (ShortNode k n f) prefix key (ValueNode w) =
      Some (Inr (True, if q = [] then FullNode ?cs newFlag else ShortNode q (FullNode ?cs newFlag) newFlag))"
      using * ne ab by (subst trie_insert.simps) (simp add: trie_insert_Nil nth_append set_child_def Let_def)
    have "rep K db rt' (FullNode ?cs newFlag) (branch a (ext p' t) b (ext r (PVal w)))" for rt'
      using rep_short.hyps by (intro rep_branch rep_ext) auto
    moreover have "pinsert (PShort k t) key (PVal w) = ext q (branch a (ext p' t) b (ext r (PVal w)))"
      using * by (simp add: nth_append)
    ultimately show ?thesis using ins by (auto simp: ext_def)
  qed
next
  case (rep_full ns ts rt f)
  from rep_full.prems obtain c r where key: "key = c # r" and c: "unat c < 17" "length ts = 17"
    and at: "at_node (ts ! unat c) r" by (rule at_node_full)
  have ns: "length ns = 17" using rep_full.IH c by (simp add: list_all2_conv_all_nth)
  have all: "list_all2 (rep K db False) ns ts"
    using rep_full.IH by (auto simp: list_all2_conv_all_nth)
  from rep_full.IH c ns at obtain d n'
    where IH: "trie_insert db (ns ! unat c) (prefix @ [c]) r (ValueNode w) = Some (Inr (d, n'))"
      "rep K db False n' (pinsert (ts ! unat c) r (PVal w))"
      "\<not> d \<longrightarrow> pinsert (ts ! unat c) r (PVal w) = ts ! unat c"
    by (auto simp: list_all2_conv_all_nth) blast
  have "trie_insert db (FullNode ns f) prefix key (ValueNode w) =
      Some (Inr (if d then (True, FullNode (ns[unat c := n']) newFlag) else (False, FullNode ns f)))"
    using IH(1) key c ns by (subst trie_insert.simps) simp
  moreover have "list_all2 (rep K db False) (ns[unat c := n']) (ts[unat c := pinsert (ts ! unat c) r (PVal w)])"
    using list_all2_update_cong [OF all IH(2)] .
  ultimately show ?case using IH(3) key c all rep_full.hyps by auto
next
  case (rep_hash h n rt t)
  from rep_hash.IH [OF rep_hash.prems, of prefix] obtain d n'
    where IH: "trie_insert db n prefix key (ValueNode w) = Some (Inr (d, n'))"
      "rep K db rt n' (pinsert t key (PVal w))" "\<not> d \<longrightarrow> pinsert t key (PVal w) = t" by blast
  have "\<not> is_leaf t" using rep_hash.hyps rep_loaded by blast
  then have "key \<noteq> []" using rep_hash.prems by (auto simp: at_node_def is_val_def)
  then have "trie_insert db (HashNode h) prefix key (ValueNode w) =
      Some (Inr (if d then (True, n') else (False, n)))"
    using IH(1) resolveHash_rep [of h db n prefix] rep_hash.hyps by (subst trie_insert.simps) simp
  then show ?case using IH(2,3) rep_hash.hyps by auto
qed

subsection \<open>Deletion\<close>

fun positions :: "nat \<Rightarrow> ptrie list \<Rightarrow> nat list" where
  "positions i [] = []"
| "positions i (c # cs) = (if c \<noteq> PNil then i # positions (i + 1) cs else positions (i + 1) cs)"

lemma positions_filter: "positions i cs = filter (\<lambda>j. cs ! (j - i) \<noteq> PNil) [i..<i + length cs]"
proof (induction cs arbitrary: i)
  case (Cons c cs)
  have "filter (\<lambda>j. (c # cs) ! (j - i) \<noteq> PNil) [Suc i..<Suc i + length cs] =
    filter (\<lambda>j. cs ! (j - Suc i) \<noteq> PNil) [Suc i..<Suc i + length cs]"
    by (rule filter_cong) (auto simp: nth_Cons')
  moreover have "[i..<i + length (c # cs)] = i # [Suc i..<Suc i + length cs]"
    by (subst upt_conv_Cons) simp_all
  ultimately show ?case using Cons.IH [of "Suc i"] by (cases "c = PNil") (simp_all del: upt_Suc)
qed simp

lemma positions_present: "positions 0 cs = present cs"
  by (simp add: positions_filter present_def)

lemma single_pos_positions:
  assumes "list_all2 (rep K db rt) ns ts" "pos = -1 \<or> 0 \<le> pos"
  shows "single_pos i pos ns =
    (if pos = -1 then (case positions i ts of [] \<Rightarrow> -1 | [j] \<Rightarrow> int j | _ \<Rightarrow> -2)
     else if positions i ts = [] then pos else -2)"
  using assms
proof (induction ns ts arbitrary: i pos rule: list_all2_induct)
  case (Cons n ns t ts)
  have "n = NilNode \<longleftrightarrow> t = PNil" using Cons.hyps(1) rep_nil_iff by blast
  then show ?case using Cons.IH [of pos "Suc i"] Cons.IH [of "int i" "Suc i"] Cons.prems
    by (auto split: list.split)
qed simp

lemma rep_resolve:
  assumes "rep K db False n t"
  shows "\<exists>m. trie_resolve db n prefix = Inr m \<and> rep K db False m t \<and> (\<forall>h. m \<noteq> HashNode h)"
  using assms
proof cases
  case (rep_hash h m)
  then have "trie_resolve db n prefix = Inr m" by (simp add: trie_resolve_def resolveHash_rep)
  moreover have "\<forall>h. m \<noteq> HashNode h" using rep_hash by (cases m) auto
  ultimately show ?thesis using rep_hash by blast
qed (auto simp: trie_resolve_def intro: rep.intros)

text \<open>The child that remains is merged into the new short node or kept, loaded or not.\<close>

lemma rep_keep:
  assumes "rep K db False n t" "rep K db False m t" "\<forall>h. m \<noteq> HashNode h"
  shows "rep K db rt (case m of ShortNode q m' f \<Rightarrow> ShortNode (p @ q) m' newFlag | _ \<Rightarrow> ShortNode p n newFlag)
    (pmerge p t)"
proof (cases t)
  case (PShort q u)
  with assms(2,3) obtain m' f where "m = ShortNode q m' f" "rep K db False m' u"
    by (cases rule: rep.cases) auto
  then show ?thesis using PShort by (auto simp: pmerge_def)
next
  case PNil
  with assms show ?thesis by (auto simp: pmerge_def)
next
  case (PVal v)
  with assms show ?thesis by (auto simp: pmerge_def)
next
  case (PFull ts)
  with assms(2,3) obtain ns f where "m = FullNode ns f" by (cases rule: rep.cases) auto
  then show ?thesis using PFull assms(1) by (auto simp: pmerge_def)
qed

lemma reduce_full_rep:
  assumes "list_all2 (rep K db False) ns ts" "length ts = 17" "present ts \<noteq> []" "child_ok 16 (ts ! 16)"
  shows "\<exists>n'. reduce_full db prefix ns = Inr (True, n') \<and> rep K db rt n' (pcollapse ts) \<and>
    (\<forall>h. n' \<noteq> HashNode h)"
proof (cases "\<exists>i. present ts = [i]")
  case True
  then obtain i where i: "present ts = [i]" by blast
  then have "i \<in> set (present ts)" by simp
  then have i17: "i < 17" using assms(2) by (simp add: present_def)
  have pos: "single_pos 0 (-1) ns = int i"
    using single_pos_positions [OF assms(1), of "-1" 0] i by (simp add: positions_present)
  have r: "rep K db False (ns ! i) (ts ! i)" using assms(1,2) i17 by (simp add: list_all2_conv_all_nth)
  have c: "pcollapse ts = pmerge [of_nat i] (ts ! i)" using i by (simp add: pcollapse_def)
  show ?thesis
  proof (cases "i = 16")
    case True
    then have "ts ! i = PNil \<or> (\<exists>v. ts ! i = PVal v)" using assms(4) by (auto simp: child_ok_def is_val_def)
    then have "pmerge [of_nat i] (ts ! i) = PShort [of_nat i] (ts ! i)" by (auto simp: pmerge_def)
    moreover have "reduce_full db prefix ns = Inr (True, ShortNode [of_nat i] (ns ! i) newFlag)"
      using pos True by (simp add: reduce_full_def)
    ultimately show ?thesis using r c by auto
  next
    case False
    from rep_resolve [OF r, of prefix] obtain m
      where m: "trie_resolve db (ns ! i) prefix = Inr m" "rep K db False m (ts ! i)" "\<forall>h. m \<noteq> HashNode h"
      by blast
    have "reduce_full db prefix ns = Inr (True, case m of ShortNode q m' f \<Rightarrow> ShortNode ([of_nat i] @ q) m' newFlag
        | _ \<Rightarrow> ShortNode [of_nat i] (ns ! i) newFlag)"
      using pos False m(1) by (simp add: reduce_full_def split: tnode.split)
    then show ?thesis using rep_keep [OF r m(2,3), of rt "[of_nat i]"] c by (auto split: tnode.splits)
  qed
next
  case False
  then have "single_pos 0 (-1) ns = -2" and c: "pcollapse ts = PFull ts"
    using single_pos_positions [OF assms(1), of "-1" 0] assms(3)
    by (auto simp: positions_present pcollapse_def split: list.split)
  then have "reduce_full db prefix ns = Inr (True, FullNode ns newFlag)" by (simp add: reduce_full_def)
  then show ?thesis using c assms(1) by auto
qed

lemma trie_delete_rep:
  assumes "rep K db rt n t" "at_node t key"
  shows "\<exists>d n'. trie_delete db n prefix key = Some (Inr (d, n')) \<and> rep K db rt n' (pdelete t key) \<and>
    (if d then \<forall>h. n' \<noteq> HashNode h else pdelete t key = t)"
  using assms
proof (induction arbitrary: prefix key rule: rep.induct)
  case (rep_nil rt)
  then show ?case by (subst trie_delete.simps) (simp add: exI [of _ False])
next
  case (rep_val rt v)
  then show ?case by (subst trie_delete.simps) (simp add: exI [of _ True])
next
  case (rep_short n t rt f k)
  show ?case
  proof (cases "drop_prefix k key")
    case None
    then have "prefixLen key k \<noteq> length k" using drop_prefix_None prefixLen_full by blast
    then have "prefixLen key k < length k" using prefixLen_le(2) [of key k] by simp
    then have "trie_delete db (ShortNode k n f) prefix key = Some (Inr (False, ShortNode k n f))"
      by (subst trie_delete.simps) simp
    then show ?thesis using None rep_short.hyps by auto
  next
    case (Some z)
    then have key: "key = k @ z" by (simp add: drop_prefix_Some)
    show ?thesis
    proof (cases z)
      case Nil
      then have "trie_delete db (ShortNode k n f) prefix key = Some (Inr (True, NilNode))"
        using key prefixLen_append [of k "[]"] by (subst trie_delete.simps) simp
      then show ?thesis using Some Nil by (simp add: exI [of _ True])
    next
      case (Cons c r)
      have "at_node t z" using rep_short.prems at_node_short key by simp
      from rep_short.IH [OF this, of "prefix @ k"] obtain d n'
        where IH: "trie_delete db n (prefix @ k) z = Some (Inr (d, n'))"
          "rep K db False n' (pdelete t z)" "if d then \<forall>h. n' \<noteq> HashNode h else pdelete t z = t" by blast
      have del: "trie_delete db (ShortNode k n f) prefix key =
        Some (Inr (if d then (True, case n' of ShortNode q m g \<Rightarrow> ShortNode (k @ q) m newFlag
          | _ \<Rightarrow> ShortNode k n' newFlag) else (False, ShortNode k n f)))"
        using IH(1) key Cons by (subst trie_delete.simps) (simp split: tnode.split)
      have p: "pdelete (PShort k t) key = pmerge k (pdelete t z)" using Some Cons by simp
      show ?thesis
      proof (cases d)
        case True
        then show ?thesis using del p IH(2,3) rep_keep [OF IH(2) IH(2), of rt k] by (auto split: tnode.splits)
      next
        case False
        have "twf (PShort k t)" using rep_short.prems by (auto simp: at_node_def)
        moreover have "\<not> is_val t"
          using Cons key rep_short.prems \<open>at_node t z\<close> by (auto simp: at_node_def is_val_def)
        ultimately have "pmerge k t = PShort k t" by (auto simp: pmerge_def is_full_def)
        then show ?thesis using False del p IH(3) rep_short.hyps by auto
      qed
    qed
  qed
next
  case (rep_full ns ts rt f)
  from rep_full.prems obtain c r where key: "key = c # r" and c: "unat c < 17" "length ts = 17"
    and at: "at_node (ts ! unat c) r" by (rule at_node_full)
  have twf: "twf (PFull ts)" using rep_full.prems by (auto simp: at_node_def)
  have ns: "length ns = 17" using rep_full.IH c by (simp add: list_all2_conv_all_nth)
  have all: "list_all2 (rep K db False) ns ts"
    using rep_full.IH by (auto simp: list_all2_conv_all_nth)
  let ?t = "pdelete (ts ! unat c) r"
  from rep_full.IH c ns at obtain d n'
    where IH: "trie_delete db (ns ! unat c) (prefix @ [c]) r = Some (Inr (d, n'))"
      "rep K db False n' ?t" "if d then \<forall>h. n' \<noteq> HashNode h else ?t = ts ! unat c"
    by (auto simp: list_all2_conv_all_nth) blast
  have upd: "list_all2 (rep K db False) (ns[unat c := n']) (ts[unat c := ?t])"
    using list_all2_update_cong [OF all IH(2)] .
  have nil: "n' = NilNode \<longleftrightarrow> ?t = PNil" using IH(2) rep_nil_iff by blast
  have p: "pdelete (PFull ts) key = (if ?t \<noteq> PNil then PFull (ts[unat c := ?t]) else pcollapse (ts[unat c := ?t]))"
    using key c by (simp add: Let_def)
  have del: "trie_delete db (FullNode ns f) prefix key =
    Some (if \<not> d then Inr (False, FullNode ns f)
      else if n' \<noteq> NilNode then Inr (True, FullNode (ns[unat c := n']) newFlag)
      else reduce_full db prefix (ns[unat c := n']))"
    using IH(1) key c ns by (subst trie_delete.simps) (simp add: Let_def)
  consider "\<not> d" | "d" "n' \<noteq> NilNode" | "d" "n' = NilNode" by blast
  then show ?case
  proof cases
    case 1
    then have e: "ts[unat c := ?t] = ts" using IH(3) by simp
    have "pdelete (PFull ts) key = PFull ts"
      unfolding p e using twf by (simp add: pcollapse_two twf_PFull)
    then show ?thesis using 1 del all rep_full.hyps by auto
  next
    case 2
    then show ?thesis using del p nil upd by auto
  next
    case 3
    have "child_ok (unat c) ?t" using 3 nil by (simp add: child_ok_def)
    then have "\<forall>j < 17. child_ok j (ts[unat c := ?t] ! j)"
      using twf child_ok_update by (simp add: twf_PFull)
    then have "child_ok 16 (ts[unat c := ?t] ! 16)" by simp
    moreover have "present (ts[unat c := ?t]) \<noteq> []" using twf present_remove by (simp add: twf_PFull)
    ultimately show ?thesis using 3 nil del p reduce_full_rep [OF upd, of prefix rt] c by auto
  qed
next
  case (rep_hash h n rt t)
  from rep_hash.IH [OF rep_hash.prems, of prefix] obtain d n'
    where IH: "trie_delete db n prefix key = Some (Inr (d, n'))" "rep K db rt n' (pdelete t key)"
      "if d then \<forall>h. n' \<noteq> HashNode h else pdelete t key = t" by blast
  have "trie_delete db (HashNode h) prefix key = Some (Inr (if d then (True, n') else (False, n)))"
    using IH(1) resolveHash_rep [of h db n prefix] rep_hash.hyps by (subst trie_delete.simps) simp
  then show ?case using IH(2,3) rep_hash.hyps by (auto split: if_splits)
qed

end
