(* ===== verification/Trie_Hash_Correct.thy ===== *)
theory Trie_Hash_Correct
  imports Trie_Hasher Trie_Refine
begin

text \<open>
  The hasher computes the Merkle root: whatever is cached in the nodes, loaded or stored, the
  result is the hash of the encoding of the trie they represent, and the nodes it returns
  represent the same trie.
\<close>

definition hashes :: "(bytes \<Rightarrow> hash) \<Rightarrow> bool \<Rightarrow> tnode \<Rightarrow> ptrie \<Rightarrow> bool" where
  "hashes K rt h t \<longleftrightarrow>
     (if rt \<or> 32 \<le> length (penc K t) then h = HashNode (K (penc K t))
      else is_loaded h \<and> enc (node_gval h) = Inr (penc K t))"

definition child_enc :: "(bytes \<Rightarrow> hash) \<Rightarrow> tnode \<Rightarrow> ptrie \<Rightarrow> bool" where
  "child_enc K h t \<longleftrightarrow> enc (if h = NilNode then GBytes [] else node_gval h) = Inr (pref K t)"

lemma hashes_child: "twf t \<Longrightarrow> hashes K False h t \<Longrightarrow> child_enc K h t"
  using twf_not_leaf [of t]
  by (cases h) (auto simp: hashes_def child_enc_def pref_def Let_def split: if_splits)

lemma child_enc_leaf: "is_leaf t \<Longrightarrow> rep K db rt n t \<Longrightarrow> child_enc K n t"
  by (cases t) (auto simp: child_enc_def pref_def)

lemma encodeNode_enc:
  "enc (node_gval n) = Inr b \<Longrightarrow> length b < 2 ^ 63 \<Longrightarrow> encodeNode n = Inr b"
  by (simp add: encodeNode_def rlp_Encode_buffer encodable_def)

lemma enc_short:
  "child_enc K h t \<Longrightarrow> h \<noteq> NilNode \<Longrightarrow>
    enc (node_gval (ShortNode (compact (hasTerm k) (strip k)) h f)) = Inr (penc K (PShort k t))"
  by (simp add: child_enc_def structFields_def lastField.simps)

lemma enc_full:
  assumes "list_all2 (child_enc K) hs ts"
  shows "enc (node_gval (FullNode hs f)) = Inr (penc K (PFull ts))"
proof -
  let ?g = "\<lambda>c. GInterface (Some (if c = NilNode then GBytes [] else node_gval c))"
  have "map enc (map ?g hs) = map Inr (map (pref K) ts)"
    using assms by (induction rule: list_all2_induct) (auto simp: child_enc_def)
  then have "enc_list (map ?g hs) = Inr (concat (map (pref K) ts))"
    unfolding enc_list_map by blast
  then show ?thesis by simp
qed

text \<open>The tail of \<open>hash\<close>.\<close>

lemma nodeToHash_correct:
  assumes "enc (node_gval collapsed) = Inr (penc K t)" "length (penc K t) < 2 ^ 63"
    "is_loaded collapsed"
  shows "\<exists>hashed. shortnodeToHash K collapsed rt = Inr hashed \<and>
    fullnodeToHash K collapsed rt = Inr hashed \<and> hashes K rt hashed t"
  using assms encodeNode_enc [OF assms(1,2)]
  by (auto simp: shortnodeToHash_def fullnodeToHash_def hashes_def hashData_def)

lemma cache_hash_rep:
  assumes "hashes K rt hashed t" "rep K db rt cached t" "is_loaded cached"
  shows "\<exists>c d'. cache_hash hashed cached d = (hashed, c, d') \<and> rep K db rt c t"
proof (cases "rt \<or> 32 \<le> length (penc K t)")
  case True
  with assms show ?thesis
    by (cases cached) (auto simp: cache_hash_def hashes_def Let_def flag_ok_def)
next
  case False
  with assms have "is_loaded hashed" by (simp add: hashes_def)
  then have "cache_hash hashed cached d = (hashed, set_hash None cached, d)"
    by (cases hashed) (simp_all add: cache_hash_def)
  then show ?thesis using assms(2,3) by (cases cached) (auto simp: flag_ok_def)
qed

definition hash_ok ::
  "(bytes \<Rightarrow> hash) \<Rightarrow> node_reader \<Rightarrow> bool \<Rightarrow> tnode \<Rightarrow> ptrie \<Rightarrow> bool" where
  "hash_ok K db rt n t \<longleftrightarrow>
     (\<forall>d. \<exists>h c d'. hash_node K d n rt = Inr (h, c, d') \<and> hashes K rt h t \<and> rep K db rt c t)"

lemma hashChildren_correct:
  assumes "list_all2 (\<lambda>n t. rep K db False n t \<and> (is_leaf t \<or> hash_ok K db False n t)) ns ts"
    and "\<forall>t \<in> set (take i ts). t = PNil \<or> twf t" "\<forall>t \<in> set (drop i ts). is_leaf t"
  shows "\<exists>hs cs d'. hashChildren K d i ns = Inr (hs, cs, d') \<and> list_all2 (child_enc K) hs ts \<and>
    list_all2 (rep K db False) cs ts"
  using assms
proof (induction ns ts arbitrary: i d rule: list_all2_induct)
  case (Cons n ns t ts)
  show ?case
  proof (cases i)
    case 0
    then have "\<forall>t \<in> set (t # ts). is_leaf t" using Cons.prems by simp
    moreover from this have "list_all2 (child_enc K) ns ts"
      using Cons.hyps(2) child_enc_leaf by (auto simp: list_all2_conv_all_nth all_set_conv_all_nth)
    ultimately have "list_all2 (child_enc K) (n # ns) (t # ts)"
      using Cons.hyps(1) child_enc_leaf by simp
    moreover have "list_all2 (rep K db False) ns ts"
      using Cons.hyps(2) by (rule list_all2_mono) blast
    then have "list_all2 (rep K db False) (n # ns) (t # ts)" using Cons.hyps(1) by simp
    ultimately show ?thesis using 0 by simp
  next
    case (Suc j)
    have n: "\<exists>h c d'. (if n \<noteq> NilNode then hash_node K d n False else Inr (ValueNode [], NilNode, d)) =
        Inr (h, c, d') \<and> child_enc K h t \<and> rep K db False c t"
    proof (cases "t = PNil")
      case True
      then show ?thesis using Cons.hyps by (simp add: child_enc_def pref_def)
    next
      case False
      then have t: "twf t" using Cons.prems(1) Suc by simp
      then have "hash_ok K db False n t" using Cons.hyps twf_not_leaf by blast
      moreover have "n \<noteq> NilNode" using False Cons.hyps rep_nil_iff by blast
      ultimately show ?thesis using hashes_child [OF t] by (auto simp: hash_ok_def) metis
    qed
    then obtain h c d' where "(if n \<noteq> NilNode then hash_node K d n False else Inr (ValueNode [], NilNode, d)) =
        Inr (h, c, d')" "child_enc K h t" "rep K db False c t" by blast
    with Cons.IH [of j d'] Cons.prems Suc show ?thesis by auto
  qed
qed simp

text \<open>The children of a short node and of a full node, given that their own hashing is right.\<close>

lemma short_children:
  assumes "rep K db False n t" "twf (PShort k t)" "twf t \<Longrightarrow> hash_ok K db False n t"
  shows "\<exists>hv cv d'. hashShortNodeChildren K d k n f =
      Inr (ShortNode (compact (hasTerm k) (strip k)) hv f, ShortNode k cv f, d') \<and>
    enc (node_gval (ShortNode (compact (hasTerm k) (strip k)) hv f)) = Inr (penc K (PShort k t)) \<and>
    rep K db False cv t"
proof -
  let ?ck = "compact (hasTerm k) (strip k)"
  have "\<exists>hv cv d'. hashShortNodeChildren K d k n f = Inr (ShortNode ?ck hv f, ShortNode k cv f, d') \<and>
    child_enc K hv t \<and> hv \<noteq> NilNode \<and> rep K db False cv t"
  proof (cases "is_val t")
    case True
    then have "n \<noteq> NilNode" "\<not> is_loaded n" "child_enc K n t"
      using assms(1) child_enc_leaf by (auto simp: is_val_def)
    then show ?thesis using assms(1) by (simp add: hashShortNodeChildren.simps hexToCompact_compact)
  next
    case False
    then have t: "twf t" using assms(2) by auto
    show ?thesis
    proof (cases "is_loaded n")
      case True
      from assms(3) [OF t] obtain h c d'
        where hc: "hash_node K d n False = Inr (h, c, d')" "hashes K False h t" "rep K db False c t"
        unfolding hash_ok_def by blast
      then show ?thesis using True hashes_child [OF t hc(2)]
        by (auto simp: hashShortNodeChildren.simps hexToCompact_compact hashes_def split: if_splits)
    next
      case not_loaded: False
      with assms(1) t obtain h where n: "n = HashNode h" "h = K (penc K t)" "32 \<le> length (penc K t)"
        by (cases rule: rep.cases) auto
      then have "child_enc K n t" using t by (intro hashes_child) (simp_all add: hashes_def)
      then show ?thesis using n assms(1)
        by (simp add: hashShortNodeChildren.simps hexToCompact_compact)
    qed
  qed
  then show ?thesis using enc_short by blast
qed

lemma full_children:
  assumes "list_all2 (\<lambda>n t. rep K db False n t \<and> (twf t \<longrightarrow> hash_ok K db False n t)) ns ts" "twf (PFull ts)"
  shows "\<exists>hs cs d'. hashFullNodeChildren K d ns f = Inr (FullNode hs f, FullNode cs f, d') \<and>
    enc (node_gval (FullNode hs f)) = Inr (penc K (PFull ts)) \<and> list_all2 (rep K db False) cs ts"
proof -
  have kids: "\<forall>t \<in> set (take 16 ts). t = PNil \<or> twf t" "\<forall>t \<in> set (drop 16 ts). is_leaf t"
    using twf_PFull_children [OF assms(2)] by (auto simp: is_val_def)
  have "is_leaf t \<or> twf t" if "t \<in> set ts" for t
    using that kids twf_PFull_children(1) [OF assms(2)]
    by (metis append_take_drop_id Un_iff set_append is_leaf.simps(1))
  then have "list_all2 (\<lambda>n t. rep K db False n t \<and> (is_leaf t \<or> hash_ok K db False n t)) ns ts"
    using assms(1) unfolding list_all2_conv_all_nth by (metis nth_mem)
  from hashChildren_correct [OF this kids, of d] obtain hs cs d'
    where c: "hashChildren K d 16 ns = Inr (hs, cs, d')" "list_all2 (child_enc K) hs ts"
      "list_all2 (rep K db False) cs ts" by blast
  then show ?thesis using enc_full [OF c(2)] by (simp add: hashFullNodeChildren.simps)
qed

lemma hash_node_rep:
  assumes "rep K db rt n t" "hash32 K" "twf t" "sized K t"
  shows "hash_ok K db rt n t"
  using assms(1,3,4)
proof (induction rule: rep.induct)
  case (rep_short n t rt f k)
  show ?case
    unfolding hash_ok_def
  proof
    fix d
    have IH: "twf t \<Longrightarrow> hash_ok K db False n t" using rep_short by simp
    let ?ck = "compact (hasTerm k) (strip k)"
    from short_children [OF rep_short.hyps(1) rep_short.prems(1) IH, of d f] obtain hv cv d'
      where c: "hashShortNodeChildren K d k n f = Inr (ShortNode ?ck hv f, ShortNode k cv f, d')"
        "enc (node_gval (ShortNode ?ck hv f)) = Inr (penc K (PShort k t))" "rep K db False cv t" by blast
    have "length (penc K (PShort k t)) < 2 ^ 63" using rep_short.prems by simp
    from nodeToHash_correct [OF c(2) this, of rt] obtain hashed
      where hashed: "shortnodeToHash K (ShortNode ?ck hv f) rt = Inr hashed" "hashes K rt hashed (PShort k t)"
      by auto
    have "rep K db rt (ShortNode k cv f) (PShort k t)" using c(3) rep_short.hyps by simp
    from cache_hash_rep [OF hashed(2) this, of d'] obtain c' d''
      where c': "cache_hash hashed (ShortNode k cv f) d' = (hashed, c', d'')" "rep K db rt c' (PShort k t)" by auto
    show "\<exists>h c d'. hash_node K d (ShortNode k n f) rt = Inr (h, c, d') \<and> hashes K rt h (PShort k t) \<and>
        rep K db rt c (PShort k t)"
    proof (cases "nf_hash f")
      case None
      then show ?thesis using c(1) hashed c' by (simp add: hash_node.simps)
    next
      case (Some h)
      then show ?thesis using rep_short.hyps by (auto simp: hash_node.simps hashes_def flag_ok_def)
    qed
  qed
next
  case (rep_full ns ts rt f)
  have kids: "list_all2 (\<lambda>n t. rep K db False n t \<and> (twf t \<longrightarrow> hash_ok K db False n t)) ns ts"
    using rep_full.IH rep_full.prems(2) by (auto simp: list_all2_conv_all_nth)
  show ?case
    unfolding hash_ok_def
  proof
    fix d
    from full_children [OF kids rep_full.prems(1), of d f] obtain hs cs d'
      where c: "hashFullNodeChildren K d ns f = Inr (FullNode hs f, FullNode cs f, d')"
        "enc (node_gval (FullNode hs f)) = Inr (penc K (PFull ts))" "list_all2 (rep K db False) cs ts" by blast
    have "length (penc K (PFull ts)) < 2 ^ 63" using rep_full.prems by simp
    from nodeToHash_correct [OF c(2) this, of rt] obtain hashed
      where hashed: "fullnodeToHash K (FullNode hs f) rt = Inr hashed" "hashes K rt hashed (PFull ts)"
      by auto
    have "rep K db rt (FullNode cs f) (PFull ts)" using c(3) rep_full.hyps by simp
    from cache_hash_rep [OF hashed(2) this, of d'] obtain c' d''
      where c': "cache_hash hashed (FullNode cs f) d' = (hashed, c', d'')" "rep K db rt c' (PFull ts)" by auto
    show "\<exists>h c d'. hash_node K d (FullNode ns f) rt = Inr (h, c, d') \<and> hashes K rt h (PFull ts) \<and>
        rep K db rt c (PFull ts)"
    proof (cases "nf_hash f")
      case None
      then show ?thesis using c(1) hashed c' by (simp add: hash_node.simps)
    next
      case (Some h)
      have "list_all2 (rep K db False) ns ts" using kids by (rule list_all2_mono) blast
      then show ?thesis using Some rep_full.hyps by (auto simp: hash_node.simps hashes_def flag_ok_def)
    qed
  qed
next
  case (rep_hash h n rt t)
  have "rep K db rt (HashNode h) t" using rep_hash.hyps by (auto intro: rep.rep_hash)
  then show ?case using rep_hash.hyps by (auto simp: hash_ok_def hash_node.simps hashes_def)
qed simp_all

end
