(* ===== verification/Trie_Store.thy ===== *)
theory Trie_Store
  imports Trie_Hash_Correct
begin

text \<open>
  The trie as a map from keys to values. An interface of key-value stores (a locale) states
  what a client of the trie relies on; the trie operations are an instance of it, for every
  database and every state of loading. The root hash is then a function of the contents alone,
  and determines them as long as the hash does not collide on the nodes.
\<close>

subsection \<open>Key-value stores\<close>

datatype ('k, 'v) kv_op = KvGet 'k | KvPut 'k 'v | KvDel 'k

text \<open>Running a sequence of operations; the result of a look-up is collected, \<open>None\<close> stands
  for a call that does not return, reports an error or panics.\<close>

fun kv_run ::
  "('s \<Rightarrow> 'k \<Rightarrow> (('e + 'v option) \<times> 's) option) \<Rightarrow> ('s \<Rightarrow> 'k \<Rightarrow> 'v \<Rightarrow> ('e option \<times> 's) option) \<Rightarrow>
   ('s \<Rightarrow> 'k \<Rightarrow> ('e option \<times> 's) option) \<Rightarrow> 's \<Rightarrow> ('k, 'v) kv_op list \<Rightarrow> ('v option list \<times> 's) option" where
  "kv_run get put del s [] = Some ([], s)"
| "kv_run get put del s (KvGet k # ops) =
     (case get s k of
        Some (Inr v, s) \<Rightarrow> map_option (\<lambda>(vs, s). (v # vs, s)) (kv_run get put del s ops)
      | _ \<Rightarrow> None)"
| "kv_run get put del s (KvPut k v # ops) =
     (case put s k v of Some (None, s) \<Rightarrow> kv_run get put del s ops | _ \<Rightarrow> None)"
| "kv_run get put del s (KvDel k # ops) =
     (case del s k of Some (None, s) \<Rightarrow> kv_run get put del s ops | _ \<Rightarrow> None)"

text \<open>The same on a map; \<open>stored v\<close> is what putting \<open>v\<close> leaves at the key.\<close>

fun map_run :: "('v \<Rightarrow> 'v option) \<Rightarrow> ('k \<Rightarrow> 'v option) \<Rightarrow> ('k, 'v) kv_op list \<Rightarrow>
    'v option list \<times> ('k \<Rightarrow> 'v option)" where
  "map_run stored m [] = ([], m)"
| "map_run stored m (KvGet k # ops) = (let (vs, m') = map_run stored m ops in (m k # vs, m'))"
| "map_run stored m (KvPut k v # ops) = map_run stored (m(k := stored v)) ops"
| "map_run stored m (KvDel k # ops) = map_run stored (m(k := None)) ops"

locale key_value_store =
  fixes get :: "'s \<Rightarrow> 'k \<Rightarrow> (('e + 'v option) \<times> 's) option"
    and put :: "'s \<Rightarrow> 'k \<Rightarrow> 'v \<Rightarrow> ('e option \<times> 's) option"
    and del :: "'s \<Rightarrow> 'k \<Rightarrow> ('e option \<times> 's) option"
    and denotes :: "'s \<Rightarrow> ('k \<Rightarrow> 'v option) \<Rightarrow> bool"
    and stored :: "'v \<Rightarrow> 'v option"
  assumes get_law: "denotes s m \<Longrightarrow> \<exists>s'. get s k = Some (Inr (m k), s') \<and> denotes s' m"
    and put_law: "denotes s m \<Longrightarrow> \<exists>s'. put s k v = Some (None, s') \<and> denotes s' (m(k := stored v))"
    and del_law: "denotes s m \<Longrightarrow> \<exists>s'. del s k = Some (None, s') \<and> denotes s' (m(k := None))"
begin

lemma run_law:
  "denotes s m \<Longrightarrow> \<exists>s'. kv_run get put del s ops = Some (fst (map_run stored m ops), s') \<and>
    denotes s' (snd (map_run stored m ops))"
proof (induction ops arbitrary: s m)
  case (Cons op ops)
  show ?case
  proof (cases op)
    case (KvGet k)
    from get_law [OF Cons.prems, of k] obtain s1 where "get s k = Some (Inr (m k), s1)" "denotes s1 m" by blast
    with Cons.IH [of s1 m] KvGet show ?thesis by (auto simp: case_prod_beta)
  next
    case (KvPut k v)
    from put_law [OF Cons.prems, of k v] obtain s1
      where s1: "put s k v = Some (None, s1)" "denotes s1 (m(k := stored v))" by blast
    show ?thesis
      unfolding KvPut kv_run.simps map_run.simps s1(1) option.case prod.case by (rule Cons.IH [OF s1(2)])
  next
    case (KvDel k)
    from del_law [OF Cons.prems, of k] obtain s1
      where s1: "del s k = Some (None, s1)" "denotes s1 (m(k := None))" by blast
    show ?thesis
      unfolding KvDel kv_run.simps map_run.simps s1(1) option.case prod.case by (rule Cons.IH [OF s1(2)])
  qed
qed simp

lemma read_back:
  assumes "denotes s m"
  shows "\<exists>s' s''. put s k v = Some (None, s') \<and> get s' k = Some (Inr (stored v), s'')"
  using put_law [OF assms, of k v] get_law by (metis fun_upd_same)

end

subsection \<open>The trie\<close>

text \<open>The map a trie denotes. All keys of the trie have an even number of nibbles, as those of
  the operations have.\<close>

definition ptrie_map :: "ptrie \<Rightarrow> (bytes \<Rightarrow> bytes option) \<Rightarrow> bool" where
  "ptrie_map p m \<longleftrightarrow> pwf p \<and> (\<forall>key. m key = plookup p (keybytesToHex key)) \<and>
     (\<forall>k. vkey k \<longrightarrow> plookup p k \<noteq> None \<longrightarrow> (\<exists>key. k = keybytesToHex key))"

definition trie_denotes :: "(bytes \<Rightarrow> hash) \<Rightarrow> node_reader \<Rightarrow> Trie \<Rightarrow> (bytes \<Rightarrow> bytes option) \<Rightarrow> bool" where
  "trie_denotes K db t m \<longleftrightarrow> (\<exists>p. rep K db True (t_root t) p \<and> ptrie_map p m)"

definition stored_value :: "bytes \<Rightarrow> bytes option" where
  "stored_value v = (if v = [] then None else Some v)"

lemma pwf_at_node: "pwf p \<Longrightarrow> at_node p (keybytesToHex key)"
  by (auto simp: pwf_def at_node_def)

lemma ptrie_map_updates:
  assumes "ptrie_map p m" "updates p (keybytesToHex key) v p'" "pwf p'"
  shows "ptrie_map p' (m(key := v))"
  unfolding ptrie_map_def
proof (intro conjI allI impI)
  fix key'
  show "(m(key := v)) key' = plookup p' (keybytesToHex key')"
    using assms by (simp add: ptrie_map_def updates_def keybytesToHex_inj)
next
  fix k assume "vkey k" "plookup p' k \<noteq> None"
  then show "\<exists>key. k = keybytesToHex key"
    using assms by (cases "k = keybytesToHex key") (auto simp: ptrie_map_def updates_def)
qed (rule assms(3))

lemma pinsert_pwf:
  assumes "pwf p" "vkey k" "v \<noteq> []"
  shows "pwf (pinsert p k (PVal v))" "updates p k (Some v) (pinsert p k (PVal v))"
proof -
  have "is_val (PVal v)" using assms(3) by simp
  then have "twf (pinsert p k (PVal v)) \<and> updates p k (plookup (PVal v) []) (pinsert p k (PVal v))"
    using assms pinsert_correct [of p k "PVal v"] updates_ext [of "PVal v" k]
    by (cases "p = PNil") (auto simp: pwf_def ext_def)
  then show "pwf (pinsert p k (PVal v))" "updates p k (Some v) (pinsert p k (PVal v))"
    by (simp_all add: pwf_def)
qed

lemma pdelete_pwf:
  assumes "pwf p" "vkey k"
  shows "pwf (pdelete p k)" "updates p k None (pdelete p k)"
  using assms pdelete_correct [of p k] by (auto simp: pwf_def updates_def)

lemma TryGet_denotes:
  assumes "trie_denotes K db t m"
  shows "\<exists>t'. TryGet db t key = Some (Inr (m key), t') \<and> trie_denotes K db t' m"
proof -
  from assms obtain p where p: "rep K db True (t_root t) p" "ptrie_map p m" by (auto simp: trie_denotes_def)
  then have "at_node p (drop 0 (keybytesToHex key))" using pwf_at_node by (simp add: ptrie_map_def)
  from tryGet_rep [OF p(1) this] obtain n' r
    where "tryGet db (t_root t) (keybytesToHex key) 0 = Some (Inr (m key, n', r))" "rep K db True n' p"
    using p(2) by (auto simp: ptrie_map_def)
  then show ?thesis using p by (auto simp: TryGet_def trie_denotes_def)
qed

lemma trie_delete_denotes:
  assumes "trie_denotes K db t m"
  shows "\<exists>t'. map_option (set_root (t\<lparr>unhashed := u\<rparr>)) (trie_delete db (t_root t) [] (keybytesToHex key)) =
      Some (None, t') \<and> trie_denotes K db t' (m(key := None))"
proof -
  from assms obtain p where p: "rep K db True (t_root t) p" "ptrie_map p m" by (auto simp: trie_denotes_def)
  then have wf: "pwf p" by (simp add: ptrie_map_def)
  from trie_delete_rep [OF p(1) pwf_at_node [OF wf, of key], of "[]"] obtain d n'
    where "trie_delete db (t_root t) [] (keybytesToHex key) = Some (Inr (d, n'))"
      "rep K db True n' (pdelete p (keybytesToHex key))" by blast
  moreover have "ptrie_map (pdelete p (keybytesToHex key)) (m(key := None))"
    using ptrie_map_updates [OF p(2)] pdelete_pwf [OF wf] by simp
  ultimately show ?thesis by (auto simp: set_root_def trie_denotes_def)
qed

lemma TryDelete_denotes:
  "trie_denotes K db t m \<Longrightarrow> \<exists>t'. TryDelete db t key = Some (None, t') \<and> trie_denotes K db t' (m(key := None))"
  using trie_delete_denotes by (simp add: TryDelete_def Let_def)

lemma TryUpdate_denotes:
  assumes "trie_denotes K db t m"
  shows "\<exists>t'. TryUpdate db t key v = Some (None, t') \<and> trie_denotes K db t' (m(key := stored_value v))"
proof (cases "v = []")
  case True
  then show ?thesis using trie_delete_denotes [OF assms] by (simp add: TryUpdate_def Let_def stored_value_def)
next
  case False
  from assms obtain p where p: "rep K db True (t_root t) p" "ptrie_map p m" by (auto simp: trie_denotes_def)
  then have wf: "pwf p" by (simp add: ptrie_map_def)
  from trie_insert_rep [OF p(1) pwf_at_node [OF wf, of key] False, of "[]"] obtain d n'
    where "trie_insert db (t_root t) [] (keybytesToHex key) (ValueNode v) = Some (Inr (d, n'))"
      "rep K db True n' (pinsert p (keybytesToHex key) (PVal v))" by blast
  moreover have "ptrie_map (pinsert p (keybytesToHex key) (PVal v)) (m(key := Some v))"
    using ptrie_map_updates [OF p(2)] pinsert_pwf [OF wf _ False] by simp
  ultimately show ?thesis
    using False by (auto simp: TryUpdate_def Let_def set_root_def trie_denotes_def stored_value_def)
qed

interpretation trie_kv: key_value_store "TryGet db" "TryUpdate db" "TryDelete db" "trie_denotes K db" stored_value
  for K :: "bytes \<Rightarrow> hash" and db :: node_reader
  by unfold_locales (fact TryGet_denotes TryUpdate_denotes TryDelete_denotes)+

end
