(* ===== verification/Trie_Root.thy ===== *)
theory Trie_Root
  imports Trie_Store
begin

text \<open>
  The root hash: a function of the contents, whatever operations led to them and whatever is
  loaded or cached, and binding.
\<close>

subsection \<open>Sizes\<close>

text \<open>The keys and values of a map fit into the encoder's buffers: keys up to a gigabyte and
  values up to four.\<close>

definition bounded_map :: "(bytes \<Rightarrow> bytes option) \<Rightarrow> bool" where
  "bounded_map m \<longleftrightarrow> (\<forall>key v. m key = Some v \<longrightarrow> length key < 2 ^ 30 \<and> length v < 2 ^ 32)"

definition bounded_ptrie :: "ptrie \<Rightarrow> bool" where
  "bounded_ptrie t \<longleftrightarrow> (\<forall>k v. vkey k \<longrightarrow> plookup t k = Some v \<longrightarrow> length k < 2 ^ 32 \<and> length v < 2 ^ 32)"

lemma rlp_list_length_le: "length b < 2 ^ 62 \<Longrightarrow> length (rlp_list b) \<le> length b + 9"
  using BE_length_u64 [of "length b"] by (simp add: rlp_list_def rlp_head_length)

lemma pref_length_le:
  assumes "hash32 K" "\<And>v. t = PVal v \<Longrightarrow> length v < 2 ^ 32"
  shows "length (pref K t) \<le> 2 ^ 32 + 37"
proof (cases t)
  case (PVal v)
  then show ?thesis using assms(2) [OF PVal] rlp_str_length_le [of v] by (simp add: pref_def)
next
  case PNil
  then show ?thesis by (simp add: pref_def)
next
  case (PShort p u)
  then show ?thesis using assms(1) rlp_str_length_le [of "K (penc K t)"]
    by (auto simp: pref_def Let_def hash32_def)
next
  case (PFull cs)
  then show ?thesis using assms(1) rlp_str_length_le [of "K (penc K t)"]
    by (auto simp: pref_def Let_def hash32_def)
qed

lemma concat_length_le: "\<forall>b \<in> set bs. length b \<le> n \<Longrightarrow> length (concat bs) \<le> length bs * n"
  by (induction bs) auto

lemma bounded_sized:
  assumes "hash32 K" "twf t" "bounded_ptrie t"
  shows "sized K t"
  using assms(2,3)
proof (induction t)
  case (PShort p t)
  obtain k where k: "vkey k" "plookup (PShort p t) k \<noteq> None" using twf_has_key PShort.prems(1) by blast
  then obtain s v where s: "k = p @ s" "plookup (PShort p t) k = Some v"
    using plookup_PShort_prefix by (metis option.exhaust)
  then have "length p < 2 ^ 32" using k(1) PShort.prems(2) by (fastforce simp: bounded_ptrie_def)
  then have "length (compact (hasTerm p) (strip p)) \<le> 2 ^ 31" by (auto simp: strip_def)
  then have key: "length (rlp_str (compact (hasTerm p) (strip p))) \<le> 2 ^ 31 + 5"
    using rlp_str_length_le [of "compact (hasTerm p) (strip p)"] by simp
  have sub: "bounded_ptrie t" if "nibbles p"
    unfolding bounded_ptrie_def
  proof (intro allI impI)
    fix s v assume "vkey s" "plookup t s = Some v"
    then have "vkey (p @ s)" "plookup (PShort p t) (p @ s) = Some v" using that by (simp_all add: vkey_append)
    then have "length (p @ s) < 2 ^ 32 \<and> length v < 2 ^ 32"
      using PShort.prems(2) unfolding bounded_ptrie_def by blast
    then show "length s < 2 ^ 32 \<and> length v < 2 ^ 32" by simp
  qed
  have "length v < 2 ^ 32" if "t = PVal v" for v
  proof -
    have "vkey p" using PShort.prems(1) that by simp
    moreover have "plookup (PShort p t) p = Some v" using that by simp
    ultimately show ?thesis using PShort.prems(2) unfolding bounded_ptrie_def by blast
  qed
  then have "length (pref K t) \<le> 2 ^ 32 + 37" by (rule pref_length_le [OF assms(1)])
  then have "length (penc K (PShort p t)) < 2 ^ 63"
    using key rlp_list_length_le [of "rlp_str (compact (hasTerm p) (strip p)) @ pref K t"] by simp
  moreover have "sized K t" using PShort sub by (auto simp: is_val_def)
  ultimately show ?case by simp
next
  case (PFull cs)
  have len: "length cs = 17" using PFull.prems(1) by (simp add: twf_PFull)
  have look: "plookup (PFull cs) (of_nat i # r) = plookup (cs ! i) r" if "i < 17" for i r
    using that len by (simp add: unat_of_nat_byte)
  have val: "length v < 2 ^ 32" if "c \<in> set cs" "c = PVal v" for c v
  proof -
    from that obtain i where i: "i < 17" "cs ! i = PVal v" using len by (auto simp: in_set_conv_nth)
    then have "child_ok i (PVal v)" using PFull.prems(1) by (auto simp: twf_PFull)
    then have "i = 16" by (auto simp: child_ok_def split: if_splits)
    then have "plookup (PFull cs) [16] = Some v" "vkey [16]" using i look [of 16 "[]"] by (simp_all add: vkey_Cons)
    then show ?thesis using PFull.prems(2) unfolding bounded_ptrie_def by blast
  qed
  have "\<forall>b \<in> set (map (pref K) cs). length b \<le> 2 ^ 32 + 37"
  proof (clarsimp simp del: One_nat_def)
    fix c assume "c \<in> set cs"
    have "length (pref K c) \<le> 2 ^ 32 + 37"
      by (rule pref_length_le [OF assms(1)]) (rule val [OF \<open>c \<in> set cs\<close>])
    then show "length (pref K c) \<le> 4294967333" by simp
  qed
  from concat_length_le [OF this] have "length (concat (map (pref K) cs)) \<le> 17 * (2 ^ 32 + 37)"
    using len by simp
  then have "length (penc K (PFull cs)) < 2 ^ 63"
    using rlp_list_length_le [of "concat (map (pref K) cs)"] by simp
  moreover have "sized K c" if c: "c \<in> set cs" for c
  proof -
    from c obtain i where i: "i < 17" "cs ! i = c" using len by (auto simp: in_set_conv_nth)
    then have ok: "child_ok i c" using PFull.prems(1) by (auto simp: twf_PFull)
    show ?thesis
    proof (cases "twf c")
      case True
      then have i16: "i \<noteq> 16" using ok by (auto simp: child_ok_def is_val_def)
      have "bounded_ptrie c"
        unfolding bounded_ptrie_def
      proof (intro allI impI)
        fix s v assume s: "vkey s" "plookup c s = Some v"
        have "vkey (of_nat i # s)" using i i16 s(1)
          by (simp add: vkey_Cons word_less_nat_alt unat_of_nat_byte)
        moreover have "plookup (PFull cs) (of_nat i # s) = Some v" using look [OF i(1)] i(2) s(2) by simp
        ultimately have "length (of_nat i # s :: bytes) < 2 ^ 32 \<and> length v < 2 ^ 32"
          using PFull.prems(2) unfolding bounded_ptrie_def by blast
        then show "length s < 2 ^ 32 \<and> length v < 2 ^ 32" by simp
      qed
      then show ?thesis using PFull.IH [OF c True] by blast
    next
      case False
      then show ?thesis using ok by (auto simp: child_ok_def is_val_def split: if_splits)
    qed
  qed
  ultimately show ?case by simp
qed simp_all

lemma length_keybytesToHex [simp]: "length (keybytesToHex key) = 2 * length key + 1"
  by (simp add: keybytesToHex_def)

lemma ptrie_map_sized:
  assumes "hash32 K" "ptrie_map p m" "bounded_map m" "p \<noteq> PNil"
  shows "twf p" "sized K p"
proof -
  show "twf p" using assms(2,4) by (simp add: ptrie_map_def pwf_def)
  moreover have "bounded_ptrie p"
    unfolding bounded_ptrie_def
  proof (intro allI impI)
    fix k v assume k: "vkey k" "plookup p k = Some v"
    then obtain key where key: "k = keybytesToHex key" using assms(2) by (auto simp: ptrie_map_def)
    then have "m key = Some v" using k assms(2) by (simp add: ptrie_map_def)
    then show "length k < 2 ^ 32 \<and> length v < 2 ^ 32" using assms(3) key by (fastforce simp: bounded_map_def)
  qed
  ultimately show "sized K p" using assms(1) by (intro bounded_sized)
qed

subsection \<open>The root hash\<close>

text \<open>The map determines the trie.\<close>

lemma ptrie_map_unique:
  assumes "ptrie_map p m" "ptrie_map q m"
  shows "p = q"
proof (rule pwf_unique)
  show "pwf p" "pwf q" using assms by (simp_all add: ptrie_map_def)
  fix k assume k: "vkey k"
  show "plookup p k = plookup q k"
  proof (cases "\<exists>key. k = keybytesToHex key")
    case True
    then show ?thesis using assms by (auto simp: ptrie_map_def)
  next
    case False
    then show ?thesis using assms k by (metis ptrie_map_def)
  qed
qed

definition proot :: "(bytes \<Rightarrow> hash) \<Rightarrow> ptrie \<Rightarrow> hash" where
  "proot K p = (if p = PNil then emptyRoot else K (penc K p))"

lemma trie_Hash_proot:
  assumes "rep K db True (t_root t) p" "ptrie_map p m" "hash32 K" "bounded_map m"
  shows "\<exists>t' d'. trie_Hash K d t = Inr (proot K p, t', d') \<and> rep K db True (t_root t') p"
proof (cases "p = PNil")
  case True
  then show ?thesis using assms(1)
    by (simp add: trie_Hash_def hashRoot_def proot_def emptyRoot_def)
next
  case False
  have "hash_ok K db True (t_root t) p"
    using hash_node_rep [OF assms(1,3)] ptrie_map_sized [OF assms(3,2,4) False] by simp
  then obtain c d' where "hash_node K d (t_root t) True = Inr (HashNode (K (penc K p)), c, d')" "rep K db True c p"
    unfolding hash_ok_def hashes_def by fastforce
  moreover have "t_root t \<noteq> NilNode" using False assms(1) by auto
  ultimately show ?thesis using False assms(3)
    by (simp add: trie_Hash_def hashRoot_def proot_def hash32_def)
qed

text \<open>Hashing returns and keeps the contents.\<close>

lemma trie_Hash_returns:
  assumes "trie_denotes K db t m" "hash32 K" "bounded_map m"
  shows "\<exists>h t' d'. trie_Hash K d t = Inr (h, t', d') \<and> trie_denotes K db t' m"
  using assms trie_Hash_proot unfolding trie_denotes_def by blast

lemma penc_proot: "K [0x80] = emptyRoot \<Longrightarrow> proot K p = K (penc K p)"
  by (simp add: proot_def)

definition node_encodings :: "(bytes \<Rightarrow> hash) \<Rightarrow> node_reader \<Rightarrow> Trie \<Rightarrow> bytes set" where
  "node_encodings K db t =
     {e. \<exists>p. rep K db True (t_root t) p \<and> (e = penc K p \<or> e \<in> encs K p)}"

text \<open>C31: the operations of the trie implement a map. From a trie whose nodes, in memory or in the
  database, represent the map \<open>m\<close>, every sequence of \<open>TryGet\<close>, \<open>TryUpdate\<close> and \<open>TryDelete\<close> returns
  without an error or a panic, the look-ups give the values of the map at that point (an update
  with an empty value removes the key), and the trie left represents the updated map.\<close>

theorem trie_implements_map:
  assumes "trie_denotes K db t m"
  shows "\<exists>t'. kv_run (TryGet db) (TryUpdate db) (TryDelete db) t ops =
      Some (fst (map_run stored_value m ops), t') \<and> trie_denotes K db t' (snd (map_run stored_value m ops))"
  using assms by (rule trie_kv.run_law)

definition empty_trie :: Trie where
  "empty_trie = \<lparr>t_root = NilNode, unhashed = 0\<rparr>"

lemma empty_trie_denotes: "trie_denotes K db empty_trie Map.empty"
  unfolding trie_denotes_def by (intro exI [of _ PNil]) (simp add: empty_trie_def ptrie_map_def pwf_def)

definition no_nodes :: node_reader where
  "no_nodes h = Inr NilNode"

theorem trie_implements_map_witness:
  "\<exists>t'. kv_run (TryGet no_nodes) (TryUpdate no_nodes) (TryDelete no_nodes) empty_trie
      [KvPut [0x12] [7], KvPut [0x13] [8], KvGet [0x12], KvPut [0x12] [], KvGet [0x12], KvGet [0x13]] =
    Some ([Some [7], None, Some [8]], t')"
  using trie_implements_map [OF empty_trie_denotes [of "\<lambda>x. replicate 32 0" no_nodes], of
      "[KvPut [0x12] [7], KvPut [0x13] [8], KvGet [0x12], KvPut [0x12] [], KvGet [0x12], KvGet [0x13]]"]
  by (auto simp: stored_value_def)

text \<open>C32: the root hash depends on the contents only. Two tries that represent the same map, whatever
  operations led to them, whatever part of them is loaded or has a cached hash, and whatever
  databases hold the rest, have the same root hash; hashing keeps the contents.\<close>

theorem root_of_contents:
  assumes "trie_denotes K db t m" "trie_denotes K db' u m" "hash32 K" "bounded_map m"
  shows "\<exists>h t' u' d1 d2. trie_Hash K d t = Inr (h, t', d1) \<and> trie_Hash K d' u = Inr (h, u', d2) \<and>
    trie_denotes K db t' m \<and> trie_denotes K db' u' m"
proof -
  from assms(1,2) obtain p q where p: "rep K db True (t_root t) p" "ptrie_map p m"
    and q: "rep K db' True (t_root u) q" "ptrie_map q m" by (auto simp: trie_denotes_def)
  have "p = q" using p(2) q(2) by (rule ptrie_map_unique)
  with trie_Hash_proot [OF p assms(3,4), of d] trie_Hash_proot [OF q assms(3,4), of d'] p q
  show ?thesis unfolding trie_denotes_def by metis
qed

text \<open>A hash function of 32 bytes for the examples: the first bytes of its argument.\<close>

definition sample_hash :: "bytes \<Rightarrow> hash" where
  "sample_hash x = (if x = [0x80] then emptyRoot else take 32 (x @ replicate 32 0))"

lemma sample_hash32: "hash32 sample_hash"
  by (auto simp: hash32_def sample_hash_def emptyRoot_def min_def)

theorem root_of_contents_witness:
  "\<exists>t u h t' u' d1 d2.
    kv_run (TryGet no_nodes) (TryUpdate no_nodes) (TryDelete no_nodes) empty_trie
      [KvPut [1] [7], KvPut [2] [8]] = Some ([], t) \<and>
    kv_run (TryGet no_nodes) (TryUpdate no_nodes) (TryDelete no_nodes) empty_trie
      [KvPut [2] [8], KvPut [3] [9], KvPut [1] [7], KvDel [3]] = Some ([], u) \<and>
    trie_Hash sample_hash None t = Inr (h, t', d1) \<and> trie_Hash sample_hash None u = Inr (h, u', d2)"
proof -
  let ?m = "[[1] \<mapsto> [7], [2] \<mapsto> [8]] :: bytes \<Rightarrow> bytes option"
  have m: "snd (map_run stored_value Map.empty [KvPut [1] [7], KvPut [2] [8]]) = ?m"
    "snd (map_run stored_value Map.empty [KvPut [2] [8], KvPut [3] [9], KvPut [1] [7], KvDel [3]]) = ?m"
    by (auto simp: stored_value_def)
  have "bounded_map ?m" by (auto simp: bounded_map_def)
  moreover from trie_kv.run_law [OF empty_trie_denotes [of sample_hash no_nodes], of "[KvPut [1] [7], KvPut [2] [8]]"]
  obtain t where t: "kv_run (TryGet no_nodes) (TryUpdate no_nodes) (TryDelete no_nodes) empty_trie
      [KvPut [1] [7], KvPut [2] [8]] = Some ([], t)" "trie_denotes sample_hash no_nodes t ?m"
    using m(1) by auto
  moreover from trie_kv.run_law [OF empty_trie_denotes [of sample_hash no_nodes],
      of "[KvPut [2] [8], KvPut [3] [9], KvPut [1] [7], KvDel [3]]"]
  obtain u where u: "kv_run (TryGet no_nodes) (TryUpdate no_nodes) (TryDelete no_nodes) empty_trie
      [KvPut [2] [8], KvPut [3] [9], KvPut [1] [7], KvDel [3]] = Some ([], u)"
    "trie_denotes sample_hash no_nodes u ?m" using m(2) by auto
  ultimately show ?thesis
    using root_of_contents [OF t(2) u(2) sample_hash32, of None None] by blast
qed

lemma rlp_list_not_str: "rlp_list b \<noteq> [0x80]"
  by (cases "length b \<le> 55") (auto simp: rlp_list_def rlp_head_def)

text \<open>C33: the root hash binds the contents. When Keccak does not collide on the encodings of the nodes
  of two tries (and the root of the empty trie is the hash of the empty string's encoding), equal
  root hashes mean equal contents.\<close>

theorem root_binding:
  assumes "trie_denotes K db t m" "trie_denotes K db' u m'" "hash32 K" "bounded_map m" "bounded_map m'"
    and empty_root: "K [0x80] = emptyRoot"
    and "no_collision K (node_encodings K db t) (node_encodings K db' u)"
    and "trie_Hash K d t = Inr (h, t', d1)" "trie_Hash K d' u = Inr (h, u', d2)"
  shows "m = m'"
proof -
  from assms(1,2) obtain p q where p: "rep K db True (t_root t) p" "ptrie_map p m"
    and q: "rep K db' True (t_root u) q" "ptrie_map q m'" by (auto simp: trie_denotes_def)
  have "K (penc K p) = h" "K (penc K q) = h"
    using trie_Hash_proot [OF p assms(3,4), of d] trie_Hash_proot [OF q assms(3,5), of d'] assms(8,9)
    by (auto simp: penc_proot [of K, OF empty_root])
  moreover have enc: "penc K p \<in> node_encodings K db t" "penc K q \<in> node_encodings K db' u"
    "encs K p \<subseteq> node_encodings K db t" "encs K q \<subseteq> node_encodings K db' u"
    using p q by (auto simp: node_encodings_def)
  ultimately have eq: "penc K p = penc K q" "K (penc K p) = K (penc K q)"
    using assms(7) by (auto simp: no_collision_def)
  have nil: "p = PNil \<longleftrightarrow> q = PNil"
  proof -
    have "penc K r \<noteq> penc K PNil" if "twf r" for r
      using that rlp_list_not_str by (cases r) auto
    then show ?thesis using eq(1) p(2) q(2) by (metis ptrie_map_def pwf_def)
  qed
  have "p = q"
  proof (cases "p = PNil")
    case False
    with nil show ?thesis
      using penc_binding [OF assms(3) _ _ _ _ no_collision_mono [OF assms(7) enc(3,4)] eq(2)]
        ptrie_map_sized [OF assms(3) p(2) assms(4)] ptrie_map_sized [OF assms(3) q(2) assms(5)] by blast
  qed (use nil in simp)
  then show ?thesis using p(2) q(2) by (auto simp: ptrie_map_def)
qed

text \<open>The empty trie and a trie of one leaf have different roots.\<close>

definition leaf_trie :: Trie where
  "leaf_trie = \<lparr>t_root = ShortNode [1, 2, 16] (ValueNode [7]) newFlag, unhashed = 1\<rparr>"

lemma leaf_trie_rep: "rep K db True (t_root leaf_trie) (PShort [1, 2, 16] (PVal [7]))"
  by (simp add: leaf_trie_def)

lemma keybytesToHex_18: "keybytesToHex [0x12] = [1, 2, 16]"
  by (simp add: keybytesToHex_def)

lemma leaf_trie_denotes: "trie_denotes K db leaf_trie [[0x12] \<mapsto> [7]]"
  unfolding trie_denotes_def
proof (intro exI conjI)
  show "rep K db True (t_root leaf_trie) (PShort [1, 2, 16] (PVal [7]))" by (rule leaf_trie_rep)
  have k: "vkey [1, 2, 16]" by (simp add: vkey_Cons)
  have look: "plookup (PShort [1, 2, 16] (PVal [7])) k = (if k = keybytesToHex [0x12] then Some [7] else None)"
    if "vkey k" for k
    using drop_prefix_vkey [OF k that] by (simp add: keybytesToHex_18)
  show "ptrie_map (PShort [1, 2, 16] (PVal [7])) [[0x12] \<mapsto> [7]]"
    unfolding ptrie_map_def using k
    by (auto simp: look keybytesToHex_inj pwf_def simp del: plookup.simps)
qed

lemma leaf_trie_encodings:
  "node_encodings sample_hash no_nodes leaf_trie = {[0xC4, 0x82, 0x20, 0x12, 7]}"
proof -
  have leaf: "rep sample_hash no_nodes True (t_root leaf_trie) p \<longleftrightarrow> p = PShort [1, 2, 16] (PVal [7])" for p
    by (auto simp: leaf_trie_def)
  have "penc sample_hash (PShort [1, 2, 16] (PVal [7])) = [0xC4, 0x82, 0x20, 0x12, 7]"
    by (simp add: compact_def strip_def hasTerm_def pref_def rlp_list_def rlp_str_def rlp_head_def)
  then show ?thesis by (auto simp: node_encodings_def leaf)
qed

theorem root_binding_witness:
  "\<exists>h h' t' u' d1 d2. trie_Hash sample_hash None empty_trie = Inr (h, t', d1) \<and>
    trie_Hash sample_hash None leaf_trie = Inr (h', u', d2) \<and> h \<noteq> h'"
proof -
  have b: "bounded_map Map.empty" "bounded_map [[0x12] \<mapsto> [7]]" by (auto simp: bounded_map_def)
  from trie_Hash_returns [OF empty_trie_denotes sample_hash32 b(1), where db = no_nodes and d = None]
  obtain h t' d1 where t: "trie_Hash sample_hash None empty_trie = Inr (h, t', d1)" by blast
  from trie_Hash_returns [OF leaf_trie_denotes sample_hash32 b(2), where db = no_nodes and d = None]
  obtain h' u' d2 where u: "trie_Hash sample_hash None leaf_trie = Inr (h', u', d2)" by blast
  note leaf_trie_encodings
  moreover have "node_encodings sample_hash no_nodes empty_trie = {[0x80]}"
    by (auto simp: node_encodings_def empty_trie_def)
  ultimately have "no_collision sample_hash (node_encodings sample_hash no_nodes empty_trie)
      (node_encodings sample_hash no_nodes leaf_trie)"
    by (simp add: no_collision_def sample_hash_def emptyRoot_def)
  then have "h = h' \<Longrightarrow> Map.empty = [[0x12 :: byte] \<mapsto> [7 :: byte]]"
    using root_binding [OF empty_trie_denotes leaf_trie_denotes sample_hash32 b _ _ t, where db = no_nodes
        and db' = no_nodes and d' = None and u' = u' and ?d2.0 = d2] u by (simp add: sample_hash_def)
  then have "h \<noteq> h'" by (metis fun_upd_same option.distinct(1))
  then show ?thesis using t u by blast
qed

end
