(* ===== verification/Trie_Proof_Correct.thy ===== *)
theory Trie_Proof_Correct
  imports Trie_Proof Trie_Root
begin

text \<open>
  Merkle proofs are sound and complete: \<open>VerifyProof\<close> on a database in which every entry is
  stored under its hash returns the value that the trie of the root has, or reports an error;
  and on the proof that \<open>Prove\<close> makes it returns it.
\<close>

subsection \<open>The path of a key\<close>

function ppath :: "ptrie \<Rightarrow> bytes \<Rightarrow> ptrie list" where
  "ppath PNil k = []"
| "ppath (PVal v) k = []"
| "ppath (PShort p t) k =
     PShort p t # (case drop_prefix p k of None \<Rightarrow> [] | Some s \<Rightarrow> ppath t s)"
| "ppath (PFull cs) k =
     PFull cs # (case k of [] \<Rightarrow> [] | c # r \<Rightarrow> if unat c < length cs then ppath (cs ! unat c) r else [])"
  by pat_completeness auto
termination
  by (relation "measure (\<lambda>(t, k). size t)") (auto simp: less_Suc_eq_le size_nth)

lemma ppath_twf: "at_node t k \<Longrightarrow> u \<in> set (ppath t k) \<Longrightarrow> twf u"
proof (induction t k rule: ppath.induct)
  case (3 p t k)
  show ?case
  proof (cases "drop_prefix p k")
    case None
    then show ?thesis using 3 by (auto simp: at_node_def)
  next
    case (Some s)
    then have "at_node t s" using 3(2) at_node_short by (simp add: drop_prefix_Some)
    then show ?thesis using 3 Some by (auto simp: at_node_def)
  qed
next
  case (4 cs k)
  from \<open>at_node (PFull cs) k\<close> obtain c r where "k = c # r" "unat c < 17" "length cs = 17" "at_node (cs ! unat c) r"
    by (rule at_node_full)
  then show ?case using 4 by (auto simp: at_node_def)
qed simp_all

lemma ppath_encs: "u \<in> set (ppath t k) \<Longrightarrow> penc K u \<in> encs K t"
proof (induction t k rule: ppath.induct)
  case (3 p t k)
  then show ?case by (cases "drop_prefix p k") auto
qed (auto split: list.splits if_splits)

lemma ppath_sized: "u \<in> set (ppath t k) \<Longrightarrow> sized K t \<Longrightarrow> sized K u"
proof (induction t k rule: ppath.induct)
  case (3 p t k)
  then show ?case by (cases "drop_prefix p k") auto
qed (auto split: list.splits if_splits)

subsection \<open>One step of the verification\<close>

text \<open>What \<open>get\<close> finds in a decoded node: the end of the path, or the hash of a node further
  down.\<close>

inductive get_ok :: "(bytes \<Rightarrow> hash) \<Rightarrow> ptrie \<Rightarrow> bytes \<Rightarrow> bytes \<Rightarrow> tnode \<Rightarrow> bool"
  for K t key r where
  get_nil: "plookup t key = None \<Longrightarrow> get_ok K t key r NilNode"
| get_val: "plookup t key = Some v \<Longrightarrow> get_ok K t key r (ValueNode v)"
| get_hash: "32 \<le> length (penc K u) \<Longrightarrow> twf u \<Longrightarrow> vkey r \<Longrightarrow> size u < size t \<Longrightarrow>
    plookup t key = plookup u r \<Longrightarrow> u \<in> set (ppath t key) \<Longrightarrow> set (ppath u r) \<subseteq> set (ppath t key) \<Longrightarrow>
    encs K u \<subseteq> encs K t \<Longrightarrow> (sized K t \<Longrightarrow> sized K u) \<Longrightarrow> get_ok K t key r (HashNode (K (penc K u)))"

lemma get_ok_mono:
  assumes "get_ok K t key r cld" "plookup T k = plookup t key" "set (ppath t key) \<subseteq> set (ppath T k)"
    "size t < size T" "encs K t \<subseteq> encs K T" "sized K T \<Longrightarrow> sized K t"
  shows "get_ok K T k r cld"
  using assms(1)
proof cases
  case (get_hash u)
  show ?thesis unfolding get_hash(1) using get_hash(2-) assms(2-) by (intro get_ok.get_hash) auto
qed (use assms(2) in \<open>simp_all add: get_ok.intros\<close>)

lemma get_dref:
  assumes "at_node t key"
    and "\<And>h. twf t \<Longrightarrow> \<exists>r cld. proof_get (dnode K h t) key True = Some (r, cld) \<and> get_ok K t key r cld"
    and "plookup T k = plookup t key" "set (ppath t key) \<subseteq> set (ppath T k)" "size t < size T"
      "encs K t \<subseteq> encs K T" "sized K T \<Longrightarrow> sized K t"
  shows "\<exists>r cld. proof_get (dref K t) key True = Some (r, cld) \<and> get_ok K T k r cld"
proof -
  consider "is_leaf t" | "twf t" "length (penc K t) < 32" | "twf t" "\<not> length (penc K t) < 32"
    using assms(1) by (auto simp: at_node_def is_val_def)
  then show ?thesis
  proof cases
    case 1
    then show ?thesis using assms(3) by (cases t) (auto simp: dref_def intro: get_ok.intros)
  next
    case 2
    then obtain r cld where "proof_get (dref K t) key True = Some (r, cld)" "get_ok K t key r cld"
      using assms(2) [of None] by (auto simp: dref_def)
    then show ?thesis using get_ok_mono [OF _ assms(3-)] by blast
  next
    case 3
    then have "vkey key" "t \<in> set (ppath t key)" "\<not> is_leaf t"
      using assms(1) by (cases t; auto simp: at_node_def is_val_def)+
    then show ?thesis using 3 assms(3-) by (auto simp: dref_def intro!: get_ok.get_hash)
  qed
qed

lemma get_dnode:
  assumes "twf t" "vkey key"
  shows "\<exists>r cld. proof_get (dnode K h t) key True = Some (r, cld) \<and> get_ok K t key r cld"
  using assms
proof (induction t arbitrary: key h)
  case (PShort p t)
  show ?case
  proof (cases "drop_prefix p key")
    case None
    then have "length key < length p \<or> p \<noteq> take (length p) key"
      using drop_prefix_None by (metis append_take_drop_id)
    then show ?thesis using None by (auto intro: get_ok.get_nil)
  next
    case (Some s)
    then have key: "key = p @ s" by (simp add: drop_prefix_Some)
    have "at_node t s" using at_node_short [of p t s] PShort.prems key by (simp add: at_node_def)
    then have "\<exists>r cld. proof_get (dref K t) s True = Some (r, cld) \<and> get_ok K (PShort p t) key r cld"
    proof (rule get_dref)
      show "\<exists>r cld. proof_get (dnode K h t) s True = Some (r, cld) \<and> get_ok K t s r cld" if "twf t" for h
        using PShort.IH that \<open>at_node t s\<close> by (auto simp: at_node_def is_val_def)
    qed (use Some in auto)
    then show ?thesis using key by simp
  qed
next
  case (PFull cs)
  then have "at_node (PFull cs) key" by (simp add: at_node_def)
  then obtain c r where key: "key = c # r" and c: "unat c < 17" "length cs = 17" and at: "at_node (cs ! unat c) r"
    by (rule at_node_full)
  have mem: "cs ! unat c \<in> set cs" using c by simp
  from at have "\<exists>r' cld. proof_get (dref K (cs ! unat c)) r True = Some (r', cld) \<and> get_ok K (PFull cs) key r' cld"
  proof (rule get_dref)
    show "\<exists>r' cld. proof_get (dnode K h (cs ! unat c)) r True = Some (r', cld) \<and> get_ok K (cs ! unat c) r r' cld"
      if "twf (cs ! unat c)" for h
      using PFull.IH [OF mem that] at that by (auto simp: at_node_def is_val_def)
    show "size (cs ! unat c) < size (PFull cs)" using size_nth [of "unat c" cs] c by simp
  qed (use key c mem in auto)
  then show ?case using key c by simp
qed simp_all

subsection \<open>Verification\<close>

definition keyed :: "(bytes \<Rightarrow> hash) \<Rightarrow> (hash \<rightharpoonup> bytes) \<Rightarrow> bool" where
  "keyed K proofDb \<longleftrightarrow> (\<forall>h b. proofDb h = Some b \<longrightarrow> K b = h)"

lemma verify_loop_correct:
  assumes "hash32 K" "keyed K proofDb" "twf t" "vkey key" "sized K t"
    "no_collision K (ran proofDb) (encs K t)"
  shows "verify_loop proofDb i (K (penc K t)) key = Some (Inr (plookup t key)) \<or>
    (\<exists>j u. verify_loop proofDb i (K (penc K t)) key = Some (Inl (ProofMissing j (K (penc K u)))) \<and>
      proofDb (K (penc K u)) = None \<and> u \<in> set (ppath t key) \<and> (u = t \<or> 32 \<le> length (penc K u)))"
  using assms(3-)
proof (induction "size t" arbitrary: t key i rule: less_induct)
  case less
  show ?case
  proof (cases "proofDb (K (penc K t))")
    case None
    then have "verify_loop proofDb i (K (penc K t)) key = Some (Inl (ProofMissing i (K (penc K t))))"
      by (subst verify_loop.simps) simp
    moreover have "t \<in> set (ppath t key)" using less.prems(1) by (cases t) auto
    ultimately show ?thesis using None by blast
  next
    case (Some b)
    then have "K b = K (penc K t)" "b \<in> ran proofDb" using assms(2) by (auto simp: keyed_def ran_def)
    then have b: "b = penc K t"
      using less.prems penc_in_encs twf_not_leaf unfolding no_collision_def by blast
    have dec: "decodeNode (Some (K (penc K t))) b = Inr (dnode K (Some (K (penc K t))) t)"
      using decode_penc [OF assms(1) less.prems(1), of "[]"] sized_penc [OF less.prems(1,3)] b by simp
    from get_dnode [OF less.prems(1,2)] obtain r cld
      where g: "proof_get (dnode K (Some (K (penc K t))) t) key True = Some (r, cld)" "get_ok K t key r cld" by blast
    from g(2) show ?thesis
    proof cases
      case get_nil
      then show ?thesis using Some dec g(1) by (subst verify_loop.simps) simp
    next
      case (get_val v)
      then show ?thesis using Some dec g(1) by (subst verify_loop.simps) simp
    next
      case (get_hash u)
      have len: "length (K x) = 32" for x using assms(1) by (simp add: hash32_def)
      have "verify_loop proofDb i (K (penc K t)) key = verify_loop proofDb (i + 1) (K (penc K u)) r"
        using Some dec g(1) get_hash(1) len by (subst verify_loop.simps) simp
      moreover have "no_collision K (ran proofDb) (encs K u)"
        using less.prems(4) get_hash(9) by (auto elim: no_collision_mono)
      ultimately show ?thesis
        using less.hyps [OF get_hash(5,3,4), of "i + 1"] get_hash(2,6-10) less.prems(3) by (metis subsetD)
    qed
  qed
qed

subsection \<open>Proofs\<close>

definition on_path :: "(bytes \<Rightarrow> hash) \<Rightarrow> node_reader \<Rightarrow> tnode \<Rightarrow> ptrie \<Rightarrow> bool" where
  "on_path K db n u \<longleftrightarrow> rep K db True n u \<and> is_loaded n"

lemma prove_nodes_rep:
  assumes "rep K db rt n t" "at_node t key"
  shows "\<exists>ns. prove_nodes db n key nodes = Some (Inr (nodes @ ns)) \<and> list_all2 (on_path K db) ns (ppath t key)"
  using assms
proof (induction arbitrary: key nodes rule: rep.induct)
  case (rep_nil rt)
  show ?case by (subst prove_nodes.simps) simp
next
  case (rep_val rt v)
  then have "key = []" by (simp add: at_node_def)
  then show ?case by (subst prove_nodes.simps) simp
next
  case (rep_short n t rt f k)
  then have key: "key \<noteq> []" by (auto simp: at_node_def)
  have here: "on_path K db (ShortNode k n f) (PShort k t)"
    using rep_top [OF rep.rep_short [OF rep_short.hyps]] by (simp add: on_path_def)
  show ?case
  proof (cases "drop_prefix k key")
    case None
    then have "length key < length k \<or> k \<noteq> take (length k) key"
      using drop_prefix_None by (metis append_take_drop_id)
    moreover have "prove_nodes db NilNode key ns = Some (Inr ns)" for ns by (subst prove_nodes.simps) simp
    ultimately have "prove_nodes db (ShortNode k n f) key nodes = Some (Inr (nodes @ [ShortNode k n f]))"
      using key by (subst prove_nodes.simps) simp
    then show ?thesis using None here by simp
  next
    case (Some s)
    then have s: "key = k @ s" by (simp add: drop_prefix_Some)
    then have "at_node t s" using rep_short.prems at_node_short by simp
    from rep_short.IH [OF this, of "nodes @ [ShortNode k n f]"] obtain ns
      where ns: "prove_nodes db n s (nodes @ [ShortNode k n f]) = Some (Inr (nodes @ ShortNode k n f # ns))"
        "list_all2 (on_path K db) ns (ppath t s)" by auto
    have "prove_nodes db (ShortNode k n f) key nodes = prove_nodes db n s (nodes @ [ShortNode k n f])"
      using key s by (subst prove_nodes.simps) simp
    then show ?thesis using ns Some here by (intro exI [of _ "ShortNode k n f # ns"]) simp
  qed
next
  case (rep_full ns ts rt f)
  from rep_full.prems obtain c r where key: "key = c # r" and c: "unat c < 17" "length ts = 17"
    and at: "at_node (ts ! unat c) r" by (rule at_node_full)
  have len: "length ns = 17" using rep_full.IH c by (simp add: list_all2_conv_all_nth)
  have all: "list_all2 (rep K db False) ns ts"
    using rep_full.IH by (rule list_all2_mono) blast
  then have here: "on_path K db (FullNode ns f) (PFull ts)"
    using rep_top [OF rep.rep_full [OF all rep_full.hyps]] by (simp add: on_path_def)
  from rep_full.IH c len at obtain ms
    where ms: "prove_nodes db (ns ! unat c) r (nodes @ [FullNode ns f]) = Some (Inr ((nodes @ [FullNode ns f]) @ ms))"
      "list_all2 (on_path K db) ms (ppath (ts ! unat c) r)"
    unfolding list_all2_conv_all_nth by metis
  have "prove_nodes db (FullNode ns f) key nodes = prove_nodes db (ns ! unat c) r (nodes @ [FullNode ns f])"
    using key c len by (subst prove_nodes.simps) simp
  then show ?case using ms key c here by (intro exI [of _ "FullNode ns f # ms"]) simp
next
  case (rep_hash h n rt t)
  have "\<not> is_leaf t" using rep_hash.hyps rep_loaded by blast
  then have "key \<noteq> []" using rep_hash.prems by (auto simp: at_node_def is_val_def)
  then have "prove_nodes db (HashNode h) key nodes = prove_nodes db n key nodes"
    using resolveHash_rep [of h db n "[]"] rep_hash.hyps by (subst prove_nodes.simps) simp
  then show ?case using rep_hash.IH [OF rep_hash.prems] by simp
qed

lemma proofHash_rep:
  assumes "on_path K db n u" "hash32 K" "twf u" "sized K u"
  shows "\<exists>c hn. proofHash K n = Inr (c, hn) \<and> enc (node_gval c) = Inr (penc K u) \<and> hashes K False hn u"
proof -
  have len: "length (penc K u) < 2 ^ 63" using assms(3,4) by (rule sized_penc)
  show ?thesis
  proof (cases n)
    case (ShortNode k v f)
    with assms(1) obtain t where u: "u = PShort k t" "rep K db False v t" by (auto simp: on_path_def)
    have IH: "twf t \<Longrightarrow> hash_ok K db False v t"
      using hash_node_rep [OF u(2) assms(2)] u(1) assms(4) by simp
    from short_children [OF u(2) assms(3) [unfolded u(1)] IH, of None f] obtain hv cv d'
      where c: "hashShortNodeChildren K None k v f = Inr (ShortNode (compact (hasTerm k) (strip k)) hv f, ShortNode k cv f, d')"
        "enc (node_gval (ShortNode (compact (hasTerm k) (strip k)) hv f)) = Inr (penc K u)"
      unfolding u(1) by blast
    from nodeToHash_correct [OF c(2) len, of False] c ShortNode show ?thesis by (auto simp: proofHash_def)
  next
    case (FullNode ns f)
    with assms(1) obtain ts where u: "u = PFull ts" "list_all2 (rep K db False) ns ts" by (auto simp: on_path_def)
    have "list_all2 (\<lambda>n t. rep K db False n t \<and> (twf t \<longrightarrow> hash_ok K db False n t)) ns ts"
      using u hash_node_rep [OF _ assms(2)] assms(4) by (auto simp: list_all2_conv_all_nth)
    from full_children [OF this assms(3) [unfolded u(1)], of None f] obtain hs cs d'
      where c: "hashFullNodeChildren K None ns f = Inr (FullNode hs f, FullNode cs f, d')"
        "enc (node_gval (FullNode hs f)) = Inr (penc K u)"
      unfolding u(1) by blast
    from nodeToHash_correct [OF c(2) len, of False] c FullNode show ?thesis by (auto simp: proofHash_def)
  qed (use assms(1) in \<open>simp_all add: on_path_def\<close>)
qed

lemma prove_put_correct:
  assumes "list_all2 (on_path K db) ns us" "hash32 K" "\<forall>u \<in> set us. twf u \<and> sized K u"
  shows "\<exists>pdb. prove_put K 0 i ns pdb0 = Inr pdb \<and>
    (\<forall>h b. pdb h = Some b \<longrightarrow> pdb0 h = Some b \<or> (\<exists>u \<in> set us. b = penc K u \<and> h = K b)) \<and>
    (\<forall>h. pdb0 h \<noteq> None \<longrightarrow> pdb h \<noteq> None) \<and>
    (\<forall>u \<in> set us. 32 \<le> length (penc K u) \<or> (i = 0 \<and> u = hd us) \<longrightarrow> pdb (K (penc K u)) \<noteq> None)"
  using assms(1,3)
proof (induction ns us arbitrary: i pdb0 rule: list_all2_induct)
  case (Cons n ns u us)
  then have u: "twf u" "sized K u" by simp_all
  from proofHash_rep [OF Cons.hyps(1) assms(2) u] obtain c hn
    where c: "proofHash K n = Inr (c, hn)" "enc (node_gval c) = Inr (penc K u)" "hashes K False hn u" by blast
  have e: "EncodeToBytes (node_gval c) = Inr (penc K u)"
    using c(2) sized_penc [OF u] EncodeToBytes_enc [of "node_gval c"] by simp
  define pdb1 where "pdb1 = (if 32 \<le> length (penc K u) \<or> i = 0 then pdb0(K (penc K u) \<mapsto> penc K u) else pdb0)"
  have "prove_put K 0 i (n # ns) pdb0 = prove_put K 0 (i + 1) ns pdb1"
    using c(1,3) e by (cases hn) (auto simp: hashes_def pdb1_def Let_def split: if_splits)
  with Cons.IH [of "i + 1" pdb1] Cons.prems obtain pdb
    where pdb: "prove_put K 0 i (n # ns) pdb0 = Inr pdb"
      "\<And>h b. pdb h = Some b \<Longrightarrow> pdb1 h = Some b \<or> (\<exists>u \<in> set us. b = penc K u \<and> h = K b)"
      "\<And>h. pdb1 h \<noteq> None \<Longrightarrow> pdb h \<noteq> None"
      "\<And>u. u \<in> set us \<Longrightarrow> 32 \<le> length (penc K u) \<Longrightarrow> pdb (K (penc K u)) \<noteq> None" by force
  have "pdb0 h = Some b \<or> (\<exists>u \<in> set (u # us). b = penc K u \<and> h = K b)" if "pdb h = Some b" for h b
    using pdb(2) [OF that] by (auto simp: pdb1_def split: if_splits)
  moreover have "pdb h \<noteq> None" if "pdb0 h \<noteq> None" for h
    using pdb(3) [of h] that by (auto simp: pdb1_def split: if_splits)
  moreover have "pdb (K (penc K w)) \<noteq> None"
    if "w \<in> set (u # us)" "32 \<le> length (penc K w) \<or> (i = 0 \<and> w = hd (u # us))" for w
    using that pdb(3) [of "K (penc K u)"] pdb(4) [of w] by (auto simp: pdb1_def split: if_splits)
  ultimately show ?case using pdb(1) by blast
qed simp

subsection \<open>Soundness and completeness\<close>

lemma empty_root_no_proof:
  "decodeNode h [0x80] = Inl (NodeRlp ErrExpectedList)"
proof -
  have "Split [0x80] = Inr (StringK, [], [])"
    using Split_item [of StringK "[]" "[]"] by (simp add: item_def kind_ok_def)
  then show ?thesis by (subst decodeNode.simps) (simp add: SplitList_def)
qed

lemma VerifyProof_cases:
  assumes "rep K db True (t_root t) p" "ptrie_map p m" "hash32 K" "bounded_map m" "K [0x80] = emptyRoot"
    and "trie_Hash K d t = Inr (root, t', d')" "keyed K proofDb"
    and "no_collision K (ran proofDb) (node_encodings K db t)"
  shows "VerifyProof root key proofDb = Some (Inr (m key)) \<or>
    (\<exists>e. VerifyProof root key proofDb = Some (Inl e) \<and> e \<noteq> ProofPanic \<and> (p \<noteq> PNil \<longrightarrow>
      (\<exists>u \<in> set (ppath p (keybytesToHex key)). (u = p \<or> 32 \<le> length (penc K u)) \<and> proofDb (K (penc K u)) = None)))"
proof -
  have root: "root = K (penc K p)"
    using trie_Hash_proot [OF assms(1-4), of d] assms(6) penc_proot [of K p, OF assms(5)] by simp
  have enc: "penc K p \<in> node_encodings K db t" "encs K p \<subseteq> node_encodings K db t"
    using assms(1) by (auto simp: node_encodings_def)
  show ?thesis
  proof (cases "p = PNil")
    case True
    show ?thesis
    proof (cases "proofDb root")
      case None
      then have "VerifyProof root key proofDb = Some (Inl (ProofMissing 0 root))"
        unfolding VerifyProof_def by (subst verify_loop.simps) simp
      then show ?thesis using True by simp
    next
      case (Some b)
      then have "K b = K (penc K p)" "b \<in> ran proofDb" using assms(7) root by (auto simp: keyed_def ran_def)
      then have "b = [0x80]" using assms(8) enc(1) True by (auto simp: no_collision_def)
      then have "VerifyProof root key proofDb = Some (Inl (BadProofNode 0 (NodeRlp ErrExpectedList)))"
        unfolding VerifyProof_def using Some by (subst verify_loop.simps) (simp add: empty_root_no_proof)
      then show ?thesis using True by simp
    qed
  next
    case False
    note p = ptrie_map_sized [OF assms(3,2,4) False]
    have "plookup p (keybytesToHex key) = m key" using assms(2) by (simp add: ptrie_map_def)
    then show ?thesis
      using verify_loop_correct [OF assms(3,7) p(1) keybytesToHex_vkey p(2)
          no_collision_mono [OF assms(8) subset_refl enc(2)], of 0 key] root
      unfolding VerifyProof_def by auto
  qed
qed

text \<open>C34: Merkle proofs are sound. When every entry of the proof database is stored under its Keccak
  hash and Keccak does not collide between these entries and the nodes of a trie, \<open>VerifyProof\<close> with
  the root hash of the trie returns, does not panic, and returns the value the trie has at the key
  (none for an absent key) or an error, whatever else the database contains.\<close>

theorem VerifyProof_sound:
  assumes "trie_denotes K db t m" "hash32 K" "bounded_map m" "K [0x80] = emptyRoot"
    and "trie_Hash K d t = Inr (root, t', d')" "keyed K proofDb"
    and "no_collision K (ran proofDb) (node_encodings K db t)"
  shows "VerifyProof root key proofDb = Some (Inr (m key)) \<or>
    (\<exists>e. VerifyProof root key proofDb = Some (Inl e) \<and> e \<noteq> ProofPanic)"
proof -
  from assms(1) obtain p where "rep K db True (t_root t) p" "ptrie_map p m" by (auto simp: trie_denotes_def)
  from VerifyProof_cases [OF this assms(2-7), of key] show ?thesis by blast
qed

text \<open>C35: Merkle proofs are complete. For a trie that is not empty, \<open>Prove\<close> returns a proof for every
  key, present or absent, and \<open>VerifyProof\<close> accepts it and returns the value the trie has at the key,
  as long as Keccak does not collide on the nodes of the trie.\<close>

theorem Prove_complete:
  assumes "trie_denotes K db t m" "hash32 K" "bounded_map m" "K [0x80] = emptyRoot" "t_root t \<noteq> NilNode"
    and "trie_Hash K d t = Inr (root, t', d')"
    and "no_collision K (node_encodings K db t) (node_encodings K db t)"
  shows "\<exists>proofDb. Prove K db t key 0 Map.empty = Some (Inr proofDb) \<and>
    VerifyProof root key proofDb = Some (Inr (m key))"
proof -
  from assms(1) obtain p where p: "rep K db True (t_root t) p" "ptrie_map p m" by (auto simp: trie_denotes_def)
  then have nil: "p \<noteq> PNil" using assms(5) by auto
  note twf = ptrie_map_sized [OF assms(2) p(2) assms(3) nil]
  let ?k = "keybytesToHex key"
  have at: "at_node p ?k" using twf by (simp add: at_node_def)
  from prove_nodes_rep [OF p(1) at, of "[]"] obtain ns
    where ns: "prove_nodes db (t_root t) ?k [] = Some (Inr ns)" "list_all2 (on_path K db) ns (ppath p ?k)" by auto
  have "\<forall>u \<in> set (ppath p ?k). twf u \<and> sized K u" using ppath_twf [OF at] ppath_sized twf(2) by blast
  from prove_put_correct [OF ns(2) assms(2) this, of 0 Map.empty] obtain pdb
    where pdb: "prove_put K 0 0 ns Map.empty = Inr pdb"
      "\<forall>h b. pdb h = Some b \<longrightarrow> Map.empty h = Some b \<or> (\<exists>u \<in> set (ppath p ?k). b = penc K u \<and> h = K b)"
      "\<forall>u \<in> set (ppath p ?k). 32 \<le> length (penc K u) \<or> ((0 :: nat) = 0 \<and> u = hd (ppath p ?k)) \<longrightarrow>
        pdb (K (penc K u)) \<noteq> None"
    by blast
  have "keyed K pdb" using pdb(2) by (auto simp: keyed_def)
  moreover have "ran pdb \<subseteq> node_encodings K db t"
    using pdb(2) ppath_encs p(1) by (fastforce simp: ran_def node_encodings_def)
  ultimately have v: "VerifyProof root key pdb = Some (Inr (m key)) \<or>
    (\<exists>u \<in> set (ppath p ?k). (u = p \<or> 32 \<le> length (penc K u)) \<and> pdb (K (penc K u)) = None)"
    using VerifyProof_cases [OF p assms(2-4,6), of pdb key] no_collision_mono [OF assms(7)] nil by blast
  have "hd (ppath p ?k) = p" using nil twf(1) by (cases p) auto
  with v pdb(3) have "VerifyProof root key pdb = Some (Inr (m key))" by metis
  then show ?thesis using ns(1) pdb(1) by (simp add: Prove_def)
qed

text \<open>Examples on the trie with one leaf.\<close>

lemma leaf_trie_bounded: "bounded_map [[0x12] \<mapsto> [7]]"
  by (simp add: bounded_map_def)

lemma sample_hash_empty: "sample_hash [0x80] = emptyRoot"
  by (simp add: sample_hash_def)

theorem VerifyProof_sound_witness:
  "\<exists>root t' d'. trie_Hash sample_hash None leaf_trie = Inr (root, t', d') \<and>
    (let proofDb = [sample_hash [0xC4, 0x82, 0x20, 0x12, 7] \<mapsto> [0xC4, 0x82, 0x20, 0x12, 7]] in
     VerifyProof root [0x12] proofDb = Some (Inr (Some [7])) \<or>
     (\<exists>e. VerifyProof root [0x12] proofDb = Some (Inl e) \<and> e \<noteq> ProofPanic))"
proof -
  from trie_Hash_returns [OF leaf_trie_denotes sample_hash32 leaf_trie_bounded, where db = no_nodes and d = None]
  obtain root t' d' where t: "trie_Hash sample_hash None leaf_trie = Inr (root, t', d')" by blast
  let ?db = "[sample_hash [0xC4, 0x82, 0x20, 0x12, 7] \<mapsto> [0xC4, 0x82, 0x20, 0x12, 7]]"
  have "keyed sample_hash ?db" by (auto simp: keyed_def split: if_splits)
  moreover have "no_collision sample_hash (ran ?db) (node_encodings sample_hash no_nodes leaf_trie)"
    by (simp add: leaf_trie_encodings no_collision_def)
  ultimately show ?thesis
    using VerifyProof_sound [OF leaf_trie_denotes sample_hash32 leaf_trie_bounded sample_hash_empty t, of ?db no_nodes "[0x12]"] t
    by (simp add: Let_def)
qed

theorem Prove_complete_witness:
  "\<exists>root t' d' proofDb. trie_Hash sample_hash None leaf_trie = Inr (root, t', d') \<and>
    Prove sample_hash no_nodes leaf_trie [0x12] 0 Map.empty = Some (Inr proofDb) \<and>
    VerifyProof root [0x12] proofDb = Some (Inr (Some [7]))"
proof -
  from trie_Hash_returns [OF leaf_trie_denotes sample_hash32 leaf_trie_bounded, where db = no_nodes and d = None]
  obtain root t' d' where t: "trie_Hash sample_hash None leaf_trie = Inr (root, t', d')" by blast
  have "no_collision sample_hash (node_encodings sample_hash no_nodes leaf_trie)
      (node_encodings sample_hash no_nodes leaf_trie)"
    by (simp add: leaf_trie_encodings no_collision_def)
  then show ?thesis
    using Prove_complete [OF leaf_trie_denotes sample_hash32 leaf_trie_bounded sample_hash_empty _ t, of no_nodes "[0x12]"] t
    by (auto simp: leaf_trie_def)
qed

end
