(* ===== verification/Secure_Trie.thy ===== *)
theory Secure_Trie
  imports Trie_Root
begin

text \<open>
  The trie with hashed keys, \<open>trie/secure_trie.go\<close>. It wraps a trie, hands the Keccak digest of a key
  to it, and remembers the preimages of the digests it used. A copy shares the map of preimages
  until it is asked for its own; \<open>sec_owner\<close> says whether the map is the trie's own.
\<close>

record SecureTrie =
  sec_trie :: Trie
  secKeyCache :: "bytes \<Rightarrow> bytes option"
  sec_owner :: bool

definition NewSecure :: "node_reader \<Rightarrow> hash \<Rightarrow> trie_error + SecureTrie" where
  "NewSecure db root =
     (case trie_New db root of Inl e \<Rightarrow> Inl e
      | Inr t \<Rightarrow> Inr \<lparr>sec_trie = t, secKeyCache = Map.empty, sec_owner = False\<rparr>)"

definition getSecKeyCache :: "SecureTrie \<Rightarrow> SecureTrie" where
  "getSecKeyCache t = (if sec_owner t then t else t\<lparr>sec_owner := True, secKeyCache := Map.empty\<rparr>)"

text \<open>\<open>None\<close> is an operation that panics or does not return.\<close>

definition sec_TryGet :: "(bytes \<Rightarrow> hash) \<Rightarrow> node_reader \<Rightarrow> SecureTrie \<Rightarrow> bytes \<Rightarrow>
    ((trie_error + bytes option) \<times> SecureTrie) option" where
  "sec_TryGet K db t key =
     (case TryGet db (sec_trie t) (K key) of
        None \<Rightarrow> None
      | Some (r, u) \<Rightarrow> if r = Inl TriePanic then None else Some (r, t\<lparr>sec_trie := u\<rparr>))"

definition sec_TryUpdate :: "(bytes \<Rightarrow> hash) \<Rightarrow> node_reader \<Rightarrow> SecureTrie \<Rightarrow> bytes \<Rightarrow> bytes \<Rightarrow>
    (trie_error option \<times> SecureTrie) option" where
  "sec_TryUpdate K db t key value =
     (let hk = K key in
      case TryUpdate db (sec_trie t) hk value of
        None \<Rightarrow> None
      | Some (Some e, u) \<Rightarrow> if e = TriePanic then None else Some (Some e, t\<lparr>sec_trie := u\<rparr>)
      | Some (None, u) \<Rightarrow>
          let t = getSecKeyCache (t\<lparr>sec_trie := u\<rparr>)
          in Some (None, t\<lparr>secKeyCache := (secKeyCache t)(hk \<mapsto> key)\<rparr>))"

definition sec_TryDelete :: "(bytes \<Rightarrow> hash) \<Rightarrow> node_reader \<Rightarrow> SecureTrie \<Rightarrow> bytes \<Rightarrow>
    (trie_error option \<times> SecureTrie) option" where
  "sec_TryDelete K db t key =
     (let hk = K key; t = getSecKeyCache t; t = t\<lparr>secKeyCache := (secKeyCache t)(hk := None)\<rparr> in
      case TryDelete db (sec_trie t) hk of
        None \<Rightarrow> None
      | Some (r, u) \<Rightarrow> if r = Some TriePanic then None else Some (r, t\<lparr>sec_trie := u\<rparr>))"

text \<open>\<open>preimage\<close> stands for the preimages the database holds.\<close>

definition sec_GetKey :: "(hash \<Rightarrow> bytes) \<Rightarrow> SecureTrie \<Rightarrow> bytes \<Rightarrow> bytes \<times> SecureTrie" where
  "sec_GetKey preimage t shaKey =
     (let t = getSecKeyCache t in
      case secKeyCache t shaKey of Some key \<Rightarrow> (key, t) | None \<Rightarrow> (preimage (BytesToHash shaKey), t))"

text \<open>A failure to hash is a panic.\<close>

definition sec_Hash :: "(bytes \<Rightarrow> hash) \<Rightarrow> hash_cache option \<Rightarrow> SecureTrie \<Rightarrow>
    (hash \<times> SecureTrie \<times> hash_cache option) option" where
  "sec_Hash K d t =
     (case trie_Hash K d (sec_trie t) of
        Inl e \<Rightarrow> None
      | Inr (h, u, d) \<Rightarrow> Some (h, t\<lparr>sec_trie := u\<rparr>, d))"

definition sec_Copy :: "SecureTrie \<Rightarrow> SecureTrie" where
  "sec_Copy t = t\<lparr>sec_owner := False\<rparr>"

subsection \<open>Contents\<close>

text \<open>The map from hashed keys to values that a secure trie represents.\<close>

definition sec_denotes :: "(bytes \<Rightarrow> hash) \<Rightarrow> node_reader \<Rightarrow> SecureTrie \<Rightarrow> (bytes \<Rightarrow> bytes option) \<Rightarrow> bool" where
  "sec_denotes K db t m \<longleftrightarrow> trie_denotes K db (sec_trie t) m"

lemma getSecKeyCache_trie [simp]: "sec_trie (getSecKeyCache t) = sec_trie t"
  by (simp add: getSecKeyCache_def)

lemma sec_TryGet_denotes:
  "sec_denotes K db t m \<Longrightarrow> \<exists>t'. sec_TryGet K db t key = Some (Inr (m (K key)), t') \<and> sec_denotes K db t' m"
  using TryGet_denotes [of K db "sec_trie t" m "K key"] by (auto simp: sec_denotes_def sec_TryGet_def)

lemma sec_TryUpdate_denotes:
  "sec_denotes K db t m \<Longrightarrow>
   \<exists>t'. sec_TryUpdate K db t key v = Some (None, t') \<and> sec_denotes K db t' (m(K key := stored_value v))"
  using TryUpdate_denotes [of K db "sec_trie t" m "K key" v] by (auto simp: sec_denotes_def sec_TryUpdate_def Let_def)

lemma sec_TryDelete_denotes:
  "sec_denotes K db t m \<Longrightarrow>
   \<exists>t'. sec_TryDelete K db t key = Some (None, t') \<and> sec_denotes K db t' (m(K key := None))"
  using TryDelete_denotes [of K db "sec_trie t" m "K key"] by (auto simp: sec_denotes_def sec_TryDelete_def Let_def)

lemma sec_Copy_denotes [simp]: "sec_denotes K db (sec_Copy t) m \<longleftrightarrow> sec_denotes K db t m"
  by (simp add: sec_denotes_def sec_Copy_def)

text \<open>The root of the pure trie of a map: the root hash of every trie that represents it.\<close>

lemma sec_Hash_root:
  assumes "sec_denotes K db t m" "hash32 K" "bounded_map m" "ptrie_map p m"
  shows "\<exists>t' d'. sec_Hash K d t = Some (proot K p, t', d') \<and> sec_denotes K db t' m"
proof -
  from assms(1) obtain q where q: "rep K db True (t_root (sec_trie t)) q" "ptrie_map q m"
    by (auto simp: sec_denotes_def trie_denotes_def)
  have "q = p" using q(2) assms(4) by (rule ptrie_map_unique)
  with trie_Hash_proot [OF q assms(2,3), of d] q(2) show ?thesis
    by (auto simp: sec_Hash_def sec_denotes_def trie_denotes_def)
qed

lemma NewSecure_empty: "root = replicate 32 0 \<or> root = emptyRoot \<Longrightarrow>
  \<exists>t. NewSecure db root = Inr t \<and> sec_denotes K db t Map.empty"
  using empty_trie_denotes [of K db] by (auto simp: NewSecure_def trie_New_def sec_denotes_def empty_trie_def)

text \<open>The preimage of a digest is found again after an update.\<close>

lemma sec_GetKey_TryUpdate:
  "sec_TryUpdate K db t key v = Some (None, t') \<Longrightarrow> sec_GetKey preimage t' (K key) = (key, t')"
  by (auto simp: sec_TryUpdate_def sec_GetKey_def Let_def getSecKeyCache_def split: option.splits if_splits)

end
