(* ===== verification/State_Object.thy ===== *)
theory State_Object
  imports Secure_Trie Rlp_Roundtrip
begin

text \<open>
  A state object, \<open>core/state/state_object.go\<close>: an account that is being modified, with its cached
  code and its storage. Storage has three caches over the storage trie: the slots changed by the
  running transaction, those changed by earlier transactions of the block, and the values read or
  written out before. The trie prefetcher is not used (a nil prefetcher).

  What the object reads from the database comes from the environment: trie nodes, contract code and
  the Keccak digest; a state snapshot, when there is one, is the interface \<open>snapshot.Snapshot\<close> as
  a record of its methods.
\<close>

record state_env =
  keccak :: "bytes \<Rightarrow> hash"
  nodes :: node_reader
  readCode :: "hash \<Rightarrow> bytes"

abbreviation zeroHash :: hash where "zeroHash \<equiv> replicate 32 0"

definition emptyCodeHash :: "state_env \<Rightarrow> hash" where
  "emptyCodeHash env = keccak env []"

text \<open>\<open>types.StateAccount\<close>; the balance of an object and its code hash are never nil.\<close>

record StateAccount =
  acc_Nonce :: u64
  acc_Balance :: int
  acc_Root :: hash
  acc_CodeHash :: bytes

definition account_types :: "gtyp list" where
  "account_types = [TUint 64, TBigIntPtr, TByteArray 32, TBytes]"

definition account_typ :: gtyp where
  "account_typ = TStruct (map (Pair False) account_types)"

definition account_values :: "StateAccount \<Rightarrow> gval list" where
  "account_values acc =
     [GUint (acc_Nonce acc), GBigIntPtr (Some (acc_Balance acc)), GByteArray (acc_Root acc),
      GBytes (acc_CodeHash acc)]"

definition account_gval :: "StateAccount \<Rightarrow> gval" where
  "account_gval acc = GStruct (map2 (\<lambda>t v. (isZero t v, v)) account_types (account_values acc)) 4"

definition account_of_gval :: "gval \<Rightarrow> StateAccount option" where
  "account_of_gval v =
     (case v of GStruct fs _ \<Rightarrow>
        (case map snd fs of [n, b, r, c] \<Rightarrow>
           (case n of GUint n \<Rightarrow>
             (case b of GBigIntPtr b \<Rightarrow>
               (case r of GByteArray r \<Rightarrow>
                 (case c of GBytes c \<Rightarrow>
                    map_option (\<lambda>b. \<lparr>acc_Nonce = n, acc_Balance = b, acc_Root = r, acc_CodeHash = c\<rparr>) b
                  | _ \<Rightarrow> None) | _ \<Rightarrow> None) | _ \<Rightarrow> None) | _ \<Rightarrow> None) | _ \<Rightarrow> None) | _ \<Rightarrow> None)"

text \<open>The account format and the reading methods of a snapshot.\<close>

record slim_account =
  slim_Nonce :: u64
  slim_Balance :: "int option"
  slim_Root :: bytes
  slim_CodeHash :: bytes

record snapshot_layer =
  snap_Root :: hash
  snap_Account :: "hash \<Rightarrow> unit + slim_account option"
  snap_Storage :: "hash \<Rightarrow> hash \<Rightarrow> unit + bytes"

datatype state_error =
    ErrTrie trie_error
  | ErrOpenStorage trie_error
  | ErrNoCode hash
  | ErrSlot rlp_error
  | ErrAccount address trie_error
  | ErrUpdateAccount address trie_error
  | ErrDeleteAccount address trie_error

definition ContractCode :: "state_env \<Rightarrow> hash \<Rightarrow> unit + bytes" where
  "ContractCode env codeHash =
     (let code = readCode env codeHash in if length code > 0 then Inr code else Inl ())"

definition ContractCodeSize :: "state_env \<Rightarrow> hash \<Rightarrow> nat \<times> bool" where
  "ContractCodeSize env codeHash =
     (case ContractCode env codeHash of Inr code \<Rightarrow> (length code, True) | Inl _ \<Rightarrow> (0, False))"

definition OpenStorageTrie :: "state_env \<Rightarrow> hash \<Rightarrow> hash \<Rightarrow> trie_error + SecureTrie" where
  "OpenStorageTrie env addrHash root = NewSecure (nodes env) root"

definition OpenTrie :: "state_env \<Rightarrow> hash \<Rightarrow> trie_error + SecureTrie" where
  "OpenTrie env root = NewSecure (nodes env) root"

subsection \<open>The object\<close>

text \<open>The last four fields are set while the object is written to the account trie; a nil map is
  \<open>None\<close>, a nil slice is empty. The slots handed to the prefetcher are left out.\<close>

record stateObject =
  o_address :: address
  o_addrHash :: hash
  o_data :: StateAccount
  o_dbErr :: "state_error option"
  o_trie :: "SecureTrie option"
  o_code :: "bytes option"
  originStorage :: "hash \<Rightarrow> hash option"
  pendingStorage :: "hash \<Rightarrow> hash option"
  dirtyStorage :: "hash \<Rightarrow> hash option"
  dirtyCode :: bool
  suicided :: bool
  deleted :: bool
  accountRLP :: bytes
  rlpErr :: "rlp_error option"
  slimAccountRLP :: bytes
  o_snapStorage :: "(hash \<Rightarrow> bytes option) option"

definition obj_empty :: "state_env \<Rightarrow> stateObject \<Rightarrow> bool" where
  "obj_empty env s \<longleftrightarrow>
     acc_Nonce (o_data s) = 0 \<and> acc_Balance (o_data s) = 0 \<and> acc_CodeHash (o_data s) = emptyCodeHash env"

text \<open>The account data \<open>newObject\<close> is given may hold a nil balance or a nil code hash.\<close>

definition newObject :: "state_env \<Rightarrow> address \<Rightarrow> u64 \<Rightarrow> int option \<Rightarrow> hash \<Rightarrow> bytes option \<Rightarrow> stateObject" where
  "newObject env address nonce balance root codeHash =
     \<lparr>o_address = address, o_addrHash = keccak env address,
      o_data = \<lparr>acc_Nonce = nonce,
                acc_Balance = (case balance of None \<Rightarrow> 0 | Some b \<Rightarrow> b),
                acc_Root = (if root = zeroHash then emptyRoot else root),
                acc_CodeHash = (case codeHash of None \<Rightarrow> emptyCodeHash env | Some c \<Rightarrow> c)\<rparr>,
      o_dbErr = None, o_trie = None, o_code = None,
      originStorage = Map.empty, pendingStorage = Map.empty, dirtyStorage = Map.empty,
      dirtyCode = False, suicided = False, deleted = False,
      accountRLP = [], rlpErr = None, slimAccountRLP = [], o_snapStorage = None\<rparr>"

definition obj_setError :: "state_error \<Rightarrow> stateObject \<Rightarrow> stateObject" where
  "obj_setError err s = (if o_dbErr s = None then s\<lparr>o_dbErr := Some err\<rparr> else s)"

text \<open>Opening the empty trie never fails.\<close>

definition getTrie :: "state_env \<Rightarrow> stateObject \<Rightarrow> SecureTrie \<times> stateObject" where
  "getTrie env s =
     (case o_trie s of
        Some t \<Rightarrow> (t, s)
      | None \<Rightarrow>
          (case OpenStorageTrie env (o_addrHash s) (acc_Root (o_data s)) of
             Inr t \<Rightarrow> (t, s\<lparr>o_trie := Some t\<rparr>)
           | Inl err \<Rightarrow>
               let t = projr (OpenStorageTrie env (o_addrHash s) zeroHash)
               in (t, obj_setError (ErrOpenStorage err) (s\<lparr>o_trie := Some t\<rparr>))))"

text \<open>The value of a slot from its encoding, and what the object remembers of it.\<close>

definition load_slot :: "hash \<Rightarrow> bytes \<Rightarrow> stateObject \<Rightarrow> hash \<times> stateObject" where
  "load_slot key e s =
     (let (value, s) =
        (if length e > 0 then
           (case Split e of
              Inl err \<Rightarrow> (zeroHash, obj_setError (ErrSlot err) s)
            | Inr (_, content, _) \<Rightarrow> (BytesToHash content, s))
         else (zeroHash, s))
      in (value, s\<lparr>originStorage := (originStorage s)(key \<mapsto> value)\<rparr>))"

definition obj_GetCommittedState ::
  "state_env \<Rightarrow> snapshot_layer option \<Rightarrow> hash set \<Rightarrow> stateObject \<Rightarrow> hash \<Rightarrow> (hash \<times> stateObject) option" where
  "obj_GetCommittedState env snap snapDestructs s key =
     (case pendingStorage s key of Some value \<Rightarrow> Some (value, s) | None \<Rightarrow>
      case originStorage s key of Some value \<Rightarrow> Some (value, s) | None \<Rightarrow>
      if snap \<noteq> None \<and> o_addrHash s \<in> snapDestructs then Some (zeroHash, s)
      else
        case (case snap of None \<Rightarrow> Inl () | Some layer \<Rightarrow> snap_Storage layer (o_addrHash s) (keccak env key)) of
          Inr e \<Rightarrow> Some (load_slot key e s)
        | Inl _ \<Rightarrow>
            let (t, s) = getTrie env s in
            case sec_TryGet (keccak env) (nodes env) t key of
              None \<Rightarrow> None
            | Some (Inl err, t) \<Rightarrow> Some (zeroHash, obj_setError (ErrTrie err) (s\<lparr>o_trie := Some t\<rparr>))
            | Some (Inr v, t) \<Rightarrow>
                Some (load_slot key (case v of None \<Rightarrow> [] | Some e \<Rightarrow> e) (s\<lparr>o_trie := Some t\<rparr>)))"

definition obj_GetState ::
  "state_env \<Rightarrow> snapshot_layer option \<Rightarrow> hash set \<Rightarrow> stateObject \<Rightarrow> hash \<Rightarrow> (hash \<times> stateObject) option" where
  "obj_GetState env snap snapDestructs s key =
     (case dirtyStorage s key of
        Some value \<Rightarrow> Some (value, s)
      | None \<Rightarrow> obj_GetCommittedState env snap snapDestructs s key)"

definition obj_setState :: "hash \<Rightarrow> hash \<Rightarrow> stateObject \<Rightarrow> stateObject" where
  "obj_setState key value s = s\<lparr>dirtyStorage := (dirtyStorage s)(key \<mapsto> value)\<rparr>"

definition obj_setBalance :: "int \<Rightarrow> stateObject \<Rightarrow> stateObject" where
  "obj_setBalance amount s = s\<lparr>o_data := (o_data s)\<lparr>acc_Balance := amount\<rparr>\<rparr>"

definition obj_setNonce :: "u64 \<Rightarrow> stateObject \<Rightarrow> stateObject" where
  "obj_setNonce nonce s = s\<lparr>o_data := (o_data s)\<lparr>acc_Nonce := nonce\<rparr>\<rparr>"

definition obj_Code :: "state_env \<Rightarrow> stateObject \<Rightarrow> bytes option \<times> stateObject" where
  "obj_Code env s =
     (if o_code s \<noteq> None then (o_code s, s)
      else if acc_CodeHash (o_data s) = emptyCodeHash env then (None, s)
      else case ContractCode env (BytesToHash (acc_CodeHash (o_data s))) of
             Inl _ \<Rightarrow> (None, (obj_setError (ErrNoCode (acc_CodeHash (o_data s))) s)\<lparr>o_code := None\<rparr>)
           | Inr code \<Rightarrow> (Some code, s\<lparr>o_code := Some code\<rparr>))"

definition obj_CodeSize :: "state_env \<Rightarrow> stateObject \<Rightarrow> nat \<times> stateObject" where
  "obj_CodeSize env s =
     (case o_code s of
        Some code \<Rightarrow> (length code, s)
      | None \<Rightarrow>
          if acc_CodeHash (o_data s) = emptyCodeHash env then (0, s)
          else case ContractCodeSize env (BytesToHash (acc_CodeHash (o_data s))) of
                 (codeSize, found) \<Rightarrow>
                   (codeSize, if found then s else obj_setError (ErrNoCode (acc_CodeHash (o_data s))) s))"

definition obj_setCode :: "hash \<Rightarrow> bytes option \<Rightarrow> stateObject \<Rightarrow> stateObject" where
  "obj_setCode codeHash code s =
     s\<lparr>o_code := code, o_data := (o_data s)\<lparr>acc_CodeHash := codeHash\<rparr>, dirtyCode := True\<rparr>"

definition revertErase :: "state_env \<Rightarrow> hash \<Rightarrow> bytes option \<Rightarrow> hash \<Rightarrow> stateObject \<Rightarrow> stateObject" where
  "revertErase env codeHash code root s =
     (let s = s\<lparr>o_code := code, o_data := (o_data s)\<lparr>acc_CodeHash := codeHash, acc_Root := root\<rparr>\<rparr>;
          (_, s) = getTrie env s
      in s\<lparr>dirtyCode := True\<rparr>)"

text \<open>\<open>finalise\<close> moves the dirty slots to the pending ones.\<close>

definition obj_finalise :: "stateObject \<Rightarrow> stateObject" where
  "obj_finalise s = s\<lparr>pendingStorage := pendingStorage s ++ dirtyStorage s, dirtyStorage := Map.empty\<rparr>"

definition obj_deepCopy :: "state_env \<Rightarrow> stateObject \<Rightarrow> stateObject" where
  "obj_deepCopy env s =
     (let d = o_data s;
          o' = newObject env (o_address s) (acc_Nonce d) (Some (acc_Balance d)) (acc_Root d) (Some (acc_CodeHash d))
      in o'\<lparr>o_trie := map_option sec_Copy (o_trie s), o_code := o_code s,
            dirtyStorage := dirtyStorage s, originStorage := originStorage s,
            pendingStorage := pendingStorage s, suicided := suicided s, dirtyCode := dirtyCode s,
            deleted := deleted s\<rparr>)"

subsection \<open>What an object shows\<close>

text \<open>The values that reading gives, without the caches that reading fills. \<open>destructed\<close> says
  whether the account was destructed in this block, when a snapshot is used.\<close>

definition trie_read :: "state_env \<Rightarrow> SecureTrie \<Rightarrow> bytes \<Rightarrow> bytes" where
  "trie_read env t key =
     (case sec_TryGet (keccak env) (nodes env) t key of Some (Inr (Some v), _) \<Rightarrow> v | _ \<Rightarrow> [])"

definition storage_read :: "state_env \<Rightarrow> stateObject \<Rightarrow> bytes \<Rightarrow> bytes" where
  "storage_read env s =
     (case o_trie s of
        Some t \<Rightarrow> trie_read env t
      | None \<Rightarrow>
          (case NewSecure (nodes env) (acc_Root (o_data s)) of
             Inr t \<Rightarrow> trie_read env t
           | Inl _ \<Rightarrow> trie_read env (projr (NewSecure (nodes env) zeroHash))))"

definition slot_value :: "bytes \<Rightarrow> hash" where
  "slot_value e =
     (if e = [] then zeroHash
      else case Split e of Inl _ \<Rightarrow> zeroHash | Inr (_, content, _) \<Rightarrow> BytesToHash content)"

definition committed_view :: "state_env \<Rightarrow> snapshot_layer option \<Rightarrow> bool \<Rightarrow> stateObject \<Rightarrow> hash \<Rightarrow> hash" where
  "committed_view env snap destructed s key =
     (case pendingStorage s key of Some value \<Rightarrow> value | None \<Rightarrow>
      case originStorage s key of Some value \<Rightarrow> value | None \<Rightarrow>
      if snap \<noteq> None \<and> destructed then zeroHash
      else case (case snap of None \<Rightarrow> Inl () | Some layer \<Rightarrow> snap_Storage layer (o_addrHash s) (keccak env key)) of
             Inr e \<Rightarrow> slot_value e
           | Inl _ \<Rightarrow> slot_value (storage_read env s key))"

definition state_view :: "state_env \<Rightarrow> snapshot_layer option \<Rightarrow> bool \<Rightarrow> stateObject \<Rightarrow> hash \<Rightarrow> hash" where
  "state_view env snap destructed s key =
     (case dirtyStorage s key of Some value \<Rightarrow> value | None \<Rightarrow> committed_view env snap destructed s key)"

definition code_view :: "state_env \<Rightarrow> stateObject \<Rightarrow> bytes option" where
  "code_view env s =
     (case o_code s of
        Some code \<Rightarrow> Some code
      | None \<Rightarrow>
          if acc_CodeHash (o_data s) = emptyCodeHash env then None
          else case ContractCode env (BytesToHash (acc_CodeHash (o_data s))) of
                 Inl _ \<Rightarrow> None | Inr code \<Rightarrow> Some code)"

record account_view =
  v_nonce :: u64
  v_balance :: int
  v_root :: hash
  v_codeHash :: bytes
  v_code :: "bytes option"
  v_suicided :: bool
  v_deleted :: bool
  v_committed :: "hash \<Rightarrow> hash"
  v_state :: "hash \<Rightarrow> hash"

definition obj_view :: "state_env \<Rightarrow> snapshot_layer option \<Rightarrow> bool \<Rightarrow> stateObject \<Rightarrow> account_view" where
  "obj_view env snap destructed s =
     \<lparr>v_nonce = acc_Nonce (o_data s), v_balance = acc_Balance (o_data s), v_root = acc_Root (o_data s),
      v_codeHash = acc_CodeHash (o_data s), v_code = code_view env s,
      v_suicided = suicided s, v_deleted = deleted s,
      v_committed = committed_view env snap destructed s, v_state = state_view env snap destructed s\<rparr>"

text \<open>The storage trie can be read, and the digests have their lengths.\<close>

definition readable :: "state_env \<Rightarrow> SecureTrie \<Rightarrow> bool" where
  "readable env t \<longleftrightarrow> (\<exists>m. sec_denotes (keccak env) (nodes env) t m)"

definition opens :: "state_env \<Rightarrow> hash \<Rightarrow> bool" where
  "opens env root \<longleftrightarrow> (\<exists>t. NewSecure (nodes env) root = Inr t \<and> readable env t)"

definition obj_ok :: "state_env \<Rightarrow> stateObject \<Rightarrow> bool" where
  "obj_ok env s \<longleftrightarrow> o_addrHash s = keccak env (o_address s) \<and> length (acc_CodeHash (o_data s)) = 32 \<and>
     (case o_trie s of Some t \<Rightarrow> readable env t | None \<Rightarrow> opens env (acc_Root (o_data s)))"

lemmas case_congs = option.case_cong sum.case_cong

lemma obj_ok_cong:
  "o_address s' = o_address s \<Longrightarrow> o_addrHash s' = o_addrHash s \<Longrightarrow> o_trie s' = o_trie s \<Longrightarrow>
   length (acc_CodeHash (o_data s')) = length (acc_CodeHash (o_data s)) \<Longrightarrow>
   acc_Root (o_data s') = acc_Root (o_data s) \<Longrightarrow> obj_ok env s' = obj_ok env s"
  by (simp add: obj_ok_def cong: case_congs)

lemma opens_empty [simp]: "opens env emptyRoot" "opens env zeroHash"
  using NewSecure_empty [of emptyRoot "nodes env" "keccak env"] NewSecure_empty [of zeroHash "nodes env" "keccak env"]
  unfolding opens_def readable_def by blast+

lemma length_BytesToHash [simp]: "length (BytesToHash b) = 32"
  by (simp add: BytesToHash_def Let_def)

text \<open>Reading a trie loads nodes and changes nothing that can be read.\<close>

lemma sec_TryGet_readable:
  assumes "readable env t"
  shows "\<exists>v t'. sec_TryGet (keccak env) (nodes env) t key = Some (Inr v, t') \<and> readable env t' \<and>
    trie_read env t key = (case v of None \<Rightarrow> [] | Some e \<Rightarrow> e) \<and> trie_read env t' = trie_read env t"
proof -
  from assms obtain m where m: "sec_denotes (keccak env) (nodes env) t m" by (auto simp: readable_def)
  have read: "trie_read env u k = (case m (keccak env k) of None \<Rightarrow> [] | Some e \<Rightarrow> e)"
    if "sec_denotes (keccak env) (nodes env) u m" for u k
    using sec_TryGet_denotes [OF that, of k] by (auto simp: trie_read_def split: option.splits)
  from sec_TryGet_denotes [OF m, of key] obtain t' where
    "sec_TryGet (keccak env) (nodes env) t key = Some (Inr (m (keccak env key)), t')"
    "sec_denotes (keccak env) (nodes env) t' m" by blast
  with read m show ?thesis by (auto simp: readable_def)
qed

lemma getTrie_ok:
  assumes "obj_ok env s" "getTrie env s = (t, s')"
  shows "readable env t" "s' = s\<lparr>o_trie := Some t\<rparr>" "trie_read env t = storage_read env s"
  using assms by (auto simp: obj_ok_def getTrie_def opens_def OpenStorageTrie_def storage_read_def
      split: option.splits)

text \<open>Two objects show the same when they agree on the data and on what their caches and tries give.\<close>

lemma storage_read_trie [simp]: "storage_read env (s\<lparr>o_trie := Some t\<rparr>) = trie_read env t"
  by (simp add: storage_read_def cong: case_congs)

text \<open>What each part of the view depends on.\<close>
lemma storage_read_cong:
  "o_trie s' = o_trie s \<Longrightarrow> acc_Root (o_data s') = acc_Root (o_data s) \<Longrightarrow> storage_read env s' = storage_read env s"
  by (simp add: storage_read_def cong: case_congs)

lemma committed_view_cong:
  "pendingStorage s' = pendingStorage s \<Longrightarrow> originStorage s' = originStorage s \<Longrightarrow> o_addrHash s' = o_addrHash s \<Longrightarrow>
   storage_read env s' = storage_read env s \<Longrightarrow> committed_view env snap d s' = committed_view env snap d s"
  by (rule ext) (simp add: committed_view_def cong: case_congs)

lemma state_view_cong:
  "dirtyStorage s' = dirtyStorage s \<Longrightarrow> committed_view env snap d s' = committed_view env snap d s \<Longrightarrow>
   state_view env snap d s' = state_view env snap d s"
  by (rule ext) (simp add: state_view_def cong: case_congs)

lemma code_view_cong:
  "o_code s' = o_code s \<Longrightarrow> acc_CodeHash (o_data s') = acc_CodeHash (o_data s) \<Longrightarrow> code_view env s' = code_view env s"
  by (simp add: code_view_def cong: case_congs)

lemma obj_view_cong:
  "o_data s' = o_data s \<Longrightarrow> suicided s' = suicided s \<Longrightarrow> deleted s' = deleted s \<Longrightarrow>
   code_view env s' = code_view env s \<Longrightarrow> dirtyStorage s' = dirtyStorage s \<Longrightarrow>
   committed_view env snap d s' = committed_view env snap d s \<Longrightarrow> obj_view env snap d s' = obj_view env snap d s"
  using state_view_cong [of s' s env snap d] by (simp add: obj_view_def)

lemmas view_congs = obj_view_cong committed_view_cong storage_read_cong code_view_cong

lemma obj_view_trie:
  "trie_read env t = storage_read env s \<Longrightarrow> obj_view env snap d (s\<lparr>o_trie := Some t\<rparr>) = obj_view env snap d s"
  by (intro obj_view_cong committed_view_cong code_view_cong) simp_all

definition same_object :: "state_env \<Rightarrow> snapshot_layer option \<Rightarrow> bool \<Rightarrow> stateObject \<Rightarrow> stateObject \<Rightarrow> bool" where
  "same_object env snap d s s' \<longleftrightarrow> obj_ok env s' \<and> o_address s' = o_address s \<and>
     obj_view env snap d s' = obj_view env snap d s"

lemma same_object_refl [simp]: "same_object env snap d s s \<longleftrightarrow> obj_ok env s"
  by (simp add: same_object_def)

lemma same_object_trans:
  "same_object env snap d s s' \<Longrightarrow> same_object env snap d s' s'' \<Longrightarrow> same_object env snap d s s''"
  by (simp add: same_object_def)

lemma obj_setError_view [simp]:
  "obj_view env snap d (obj_setError err s) = obj_view env snap d s"
  "obj_ok env (obj_setError err s) = obj_ok env s" "o_address (obj_setError err s) = o_address s"
  "committed_view env snap d (obj_setError err s) = committed_view env snap d s"
  "pendingStorage (obj_setError err s) = pendingStorage s"
proof -
  have "obj_setError err s = s \<or> obj_setError err s = s\<lparr>o_dbErr := Some err\<rparr>" by (simp add: obj_setError_def)
  moreover have "obj_view env snap d (s\<lparr>o_dbErr := Some err\<rparr>) = obj_view env snap d s"
    "committed_view env snap d (s\<lparr>o_dbErr := Some err\<rparr>) = committed_view env snap d s"
    by (intro view_congs; simp)+
  moreover have "obj_ok env (s\<lparr>o_dbErr := Some err\<rparr>) = obj_ok env s" by (simp add: obj_ok_def cong: case_congs)
  ultimately show "obj_view env snap d (obj_setError err s) = obj_view env snap d s"
    "obj_ok env (obj_setError err s) = obj_ok env s" "o_address (obj_setError err s) = o_address s"
    "committed_view env snap d (obj_setError err s) = committed_view env snap d s"
    "pendingStorage (obj_setError err s) = pendingStorage s" by auto
qed

lemma same_object_setError [simp]:
  "same_object env snap d s (obj_setError err s') = same_object env snap d s s'"
  by (simp add: same_object_def)

lemma same_object_origin:
  assumes "obj_ok env s" "committed_view env snap d s key = v"
  shows "same_object env snap d s (s\<lparr>originStorage := (originStorage s)(key \<mapsto> v)\<rparr>)"
proof -
  let ?s = "s\<lparr>originStorage := (originStorage s)(key \<mapsto> v)\<rparr>"
  have "committed_view env snap d ?s k = committed_view env snap d s k" for k
    using assms(2) storage_read_cong [of ?s s env]
    by (auto simp: committed_view_def cong: case_congs split: option.split)
  then show ?thesis
    using assms(1) obj_view_cong [of ?s s] code_view_cong [of ?s s] obj_ok_cong [of ?s s]
    by (simp add: same_object_def fun_eq_iff)
qed

lemma load_slot_same:
  assumes "obj_ok env s" "committed_view env snap d s key = slot_value e"
  shows "\<exists>s'. load_slot key e s = (slot_value e, s') \<and> same_object env snap d s s'"
proof -
  obtain s1 where s1: "load_slot key e s = (slot_value e, s1\<lparr>originStorage := (originStorage s1)(key \<mapsto> slot_value e)\<rparr>)"
    and "s1 = s \<or> (\<exists>err. s1 = obj_setError err s)"
    by (cases "e = []"; cases "Split e") (auto simp: load_slot_def slot_value_def)
  then have "same_object env snap d s s1" "obj_ok env s1" "committed_view env snap d s1 key = slot_value e"
    using assms by (auto simp: same_object_def)
  with same_object_origin [OF this(2,3)] s1 show ?thesis by (metis same_object_trans)
qed

lemma obj_GetCommittedState_same:
  assumes "obj_ok env s" "d \<longleftrightarrow> o_addrHash s \<in> ds"
  shows "\<exists>s'. obj_GetCommittedState env snap ds s key = Some (committed_view env snap d s key, s') \<and>
    same_object env snap d s s'"
proof (cases "pendingStorage s key \<noteq> None \<or> originStorage s key \<noteq> None \<or> snap \<noteq> None \<and> d")
  case True
  then show ?thesis
    using assms by (auto simp: obj_GetCommittedState_def committed_view_def split: option.splits)
next
  case cached: False
  let ?read = "case snap of None \<Rightarrow> Inl () | Some layer \<Rightarrow> snap_Storage layer (o_addrHash s) (keccak env key)"
  show ?thesis
  proof (cases ?read)
    case (Inr e)
    then have "committed_view env snap d s key = slot_value e"
      using cached by (auto simp: committed_view_def)
    with load_slot_same [OF assms(1) this] cached Inr assms(2) show ?thesis
      by (auto simp: obj_GetCommittedState_def)
  next
    case (Inl u)
    obtain t s1 where t: "getTrie env s = (t, s1)" by fastforce
    from sec_TryGet_readable [OF getTrie_ok(1) [OF assms(1) t], of key] obtain v t'
      where v: "sec_TryGet (keccak env) (nodes env) t key = Some (Inr v, t')" "readable env t'"
        "trie_read env t key = (case v of None \<Rightarrow> [] | Some e \<Rightarrow> e)" "trie_read env t' = trie_read env t" by blast
    let ?s = "s\<lparr>o_trie := Some t'\<rparr>" and ?e = "case v of None \<Rightarrow> [] | Some e \<Rightarrow> e"
    have s1: "s1\<lparr>o_trie := Some t'\<rparr> = ?s" using getTrie_ok(2) [OF assms(1) t] by simp
    have same: "same_object env snap d s ?s"
      using obj_view_trie [of env t' s] getTrie_ok(3) [OF assms(1) t] v(2,4) assms(1)
      by (simp add: same_object_def obj_ok_def)
    have view: "committed_view env snap d s key = slot_value ?e"
      using cached Inl v(3) getTrie_ok(3) [OF assms(1) t] by (auto simp: committed_view_def)
    moreover have "committed_view env snap d ?s key = committed_view env snap d s key"
      using same by (simp add: same_object_def obj_view_def)
    ultimately obtain s' where "load_slot key ?e ?s = (slot_value ?e, s')" "same_object env snap d ?s s'"
      using load_slot_same [of env ?s snap d key ?e] same by (auto simp: same_object_def)
    moreover from this same have "same_object env snap d s s'" by (metis same_object_trans)
    ultimately show ?thesis
      using cached Inl assms(2) t v(1) s1 view by (auto simp: obj_GetCommittedState_def)
  qed
qed

lemma obj_GetState_same:
  assumes "obj_ok env s" "d \<longleftrightarrow> o_addrHash s \<in> ds"
  shows "\<exists>s'. obj_GetState env snap ds s key = Some (state_view env snap d s key, s') \<and> same_object env snap d s s'"
  using obj_GetCommittedState_same [OF assms, of snap key] assms(1)
  by (auto simp: obj_GetState_def state_view_def split: option.splits)

lemma obj_Code_same:
  assumes "obj_ok env s"
  shows "\<exists>s'. obj_Code env s = (code_view env s, s') \<and> same_object env snap d s s'"
proof -
  have load: "same_object env snap d s (s\<lparr>o_code := c\<rparr>)" if "code_view env (s\<lparr>o_code := c\<rparr>) = code_view env s" for c
  proof -
    have "obj_view env snap d (s\<lparr>o_code := c\<rparr>) = obj_view env snap d s"
      by (intro obj_view_cong committed_view_cong storage_read_cong) (use that in simp_all)
    then show ?thesis using assms obj_ok_cong [of "s\<lparr>o_code := c\<rparr>" s] by (simp add: same_object_def)
  qed
  have "s\<lparr>o_code := None\<rparr> = s" if "o_code s = None" using that by (cases s) simp
  then have "(obj_setError e s)\<lparr>o_code := None\<rparr> = obj_setError e s" if "o_code s = None" for e
    using that by (simp add: obj_setError_def)
  with load assms show ?thesis
    by (auto simp: obj_Code_def code_view_def split: option.splits sum.splits)
qed

lemma obj_CodeSize_same:
  assumes "obj_ok env s"
  shows "\<exists>s'. obj_CodeSize env s = (case code_view env s of None \<Rightarrow> 0 | Some c \<Rightarrow> length c, s') \<and>
    same_object env snap d s s'"
proof (cases "o_code s = None \<and> acc_CodeHash (o_data s) \<noteq> emptyCodeHash env")
  case True
  then show ?thesis
    using assms
    by (cases "ContractCode env (BytesToHash (acc_CodeHash (o_data s)))")
      (simp_all add: obj_CodeSize_def code_view_def ContractCodeSize_def)
next
  case False
  then show ?thesis using assms by (cases "o_code s") (auto simp: obj_CodeSize_def code_view_def)
qed

end
