(* ===== verification/Access_List.thy ===== *)
theory Access_List
  imports Prelude
begin

text \<open>
  The access list of a transaction, \<open>core/state/access_list.go\<close> (EIP-2929, EIP-2930). An
  address maps to the index of its set of slots, or to -1 when it has none; the sets are kept in a
  slice, and a deletion cuts the slice off at the index of the set that became empty.
\<close>

record accessList =
  al_addresses :: "address \<Rightarrow> int option"
  al_slots :: "hash set list"

definition newAccessList :: accessList where
  "newAccessList = \<lparr>al_addresses = Map.empty, al_slots = []\<rparr>"

definition ContainsAddress :: "address \<Rightarrow> accessList \<Rightarrow> bool" where
  "ContainsAddress address al \<longleftrightarrow> al_addresses al address \<noteq> None"

text \<open>\<open>al.slots[idx]\<close>; \<open>None\<close> is the panic of an index out of range.\<close>

definition slots_at :: "accessList \<Rightarrow> int \<Rightarrow> hash set option" where
  "slots_at al idx =
     (if 0 \<le> idx \<and> nat idx < length (al_slots al) then Some (al_slots al ! nat idx) else None)"

definition al_Contains :: "address \<Rightarrow> hash \<Rightarrow> accessList \<Rightarrow> (bool \<times> bool) option" where
  "al_Contains address slot al =
     (case al_addresses al address of
        None \<Rightarrow> Some (False, False)
      | Some idx \<Rightarrow>
          if idx = -1 then Some (True, False)
          else map_option (\<lambda>slotmap. (True, slot \<in> slotmap)) (slots_at al idx))"

definition al_Copy :: "accessList \<Rightarrow> accessList" where
  "al_Copy a = \<lparr>al_addresses = al_addresses a, al_slots = map (\<lambda>slotMap. slotMap) (al_slots a)\<rparr>"

definition AddAddress :: "address \<Rightarrow> accessList \<Rightarrow> bool \<times> accessList" where
  "AddAddress address al =
     (if al_addresses al address \<noteq> None then (False, al)
      else (True, al\<lparr>al_addresses := (al_addresses al)(address \<mapsto> -1)\<rparr>))"

definition AddSlot :: "address \<Rightarrow> hash \<Rightarrow> accessList \<Rightarrow> ((bool \<times> bool) \<times> accessList) option" where
  "AddSlot address slot al =
     (let idx = al_addresses al address in
      if idx = None \<or> idx = Some (-1) then
        Some ((idx = None, True),
          al\<lparr>al_addresses := (al_addresses al)(address \<mapsto> int (length (al_slots al))),
             al_slots := al_slots al @ [{slot}]\<rparr>)
      else
        (case slots_at al (the idx) of
           None \<Rightarrow> None
         | Some slotmap \<Rightarrow>
             if slot \<notin> slotmap then
               Some ((False, True), al\<lparr>al_slots := (al_slots al)[nat (the idx) := insert slot slotmap]\<rparr>)
             else Some ((False, False), al)))"

definition DeleteSlot :: "address \<Rightarrow> hash \<Rightarrow> accessList \<Rightarrow> accessList option" where
  "DeleteSlot address slot al =
     (case al_addresses al address of
        None \<Rightarrow> None
      | Some idx \<Rightarrow>
          (case slots_at al idx of
             None \<Rightarrow> None
           | Some slotmap \<Rightarrow>
               let slotmap = slotmap - {slot} in
               if slotmap = {} then
                 Some (al\<lparr>al_slots := take (nat idx) (al_slots al),
                          al_addresses := (al_addresses al)(address \<mapsto> -1)\<rparr>)
               else Some (al\<lparr>al_slots := (al_slots al)[nat idx := slotmap]\<rparr>)))"

definition DeleteAddress :: "address \<Rightarrow> accessList \<Rightarrow> accessList" where
  "DeleteAddress address al = al\<lparr>al_addresses := (al_addresses al)(address := None)\<rparr>"

subsection \<open>The invariant\<close>

text \<open>Indices are in range, no two addresses share one, and no set of slots is empty.\<close>

definition unshared :: "(address \<Rightarrow> int option) \<Rightarrow> bool" where
  "unshared f \<longleftrightarrow> (\<forall>a b i. f a = Some i \<longrightarrow> f b = Some i \<longrightarrow> i \<noteq> -1 \<longrightarrow> a = b)"

definition al_wf :: "accessList \<Rightarrow> bool" where
  "al_wf al \<longleftrightarrow>
     (\<forall>a i. al_addresses al a = Some i \<longrightarrow> i \<noteq> -1 \<longrightarrow> 0 \<le> i \<and> nat i < length (al_slots al)) \<and>
     unshared (al_addresses al) \<and> {} \<notin> set (al_slots al)"

lemma al_wf_range: "al_wf al \<Longrightarrow> al_addresses al a = Some i \<Longrightarrow> i \<noteq> -1 \<Longrightarrow> 0 \<le> i \<and> nat i < length (al_slots al)"
  by (simp add: al_wf_def)

lemma al_wf_share:
  "al_wf al \<Longrightarrow> al_addresses al a = Some i \<Longrightarrow> al_addresses al b = Some i \<Longrightarrow> i \<noteq> -1 \<Longrightarrow> a = b"
  unfolding al_wf_def unshared_def by blast

lemma unshared_add:
  "unshared f \<Longrightarrow> i = -1 \<or> (\<forall>b. f b \<noteq> Some i) \<Longrightarrow> unshared (f(a \<mapsto> i))"
  unfolding unshared_def by (metis fun_upd_apply option.inject)

lemma al_wf_nonempty: "al_wf al \<Longrightarrow> slots_at al i = Some m \<Longrightarrow> m \<noteq> {}"
  by (auto simp: al_wf_def slots_at_def split: if_splits) (metis nth_mem)

lemma newAccessList_wf [simp]: "al_wf newAccessList"
  by (simp add: al_wf_def unshared_def newAccessList_def)

text \<open>What the list denotes: the addresses, and the slots of each.\<close>

definition al_addrs :: "accessList \<Rightarrow> address set" where
  "al_addrs al = dom (al_addresses al)"

definition al_pairs :: "accessList \<Rightarrow> (address \<times> hash) set" where
  "al_pairs al = {(a, s). \<exists>i m. al_addresses al a = Some i \<and> slots_at al i = Some m \<and> s \<in> m}"

lemma al_pairs_addrs: "(a, s) \<in> al_pairs al \<Longrightarrow> a \<in> al_addrs al"
  by (auto simp: al_pairs_def al_addrs_def)

lemma slots_at_minus1 [simp]: "slots_at al (-1) = None"
  by (simp add: slots_at_def)

lemma al_Contains_correct:
  "al_wf al \<Longrightarrow> al_Contains a s al = Some (a \<in> al_addrs al, (a, s) \<in> al_pairs al)"
  using al_wf_range [of al a]
  by (fastforce simp: al_Contains_def al_addrs_def al_pairs_def slots_at_def split: option.splits)

lemma AddAddress_correct:
  assumes "al_wf al" "AddAddress a al = (c, al')"
  shows "al_wf al'" "c \<longleftrightarrow> a \<notin> al_addrs al" "al_addrs al' = insert a (al_addrs al)" "al_pairs al' = al_pairs al"
proof -
  show "al_wf al'"
    using assms unfolding AddAddress_def al_wf_def by (auto simp: unshared_add split: if_splits)
  show "c \<longleftrightarrow> a \<notin> al_addrs al" "al_addrs al' = insert a (al_addrs al)"
    using assms by (auto simp: AddAddress_def al_addrs_def split: if_splits)
  show "al_pairs al' = al_pairs al"
    using assms(2) by (auto simp: AddAddress_def al_pairs_def slots_at_def split: if_splits)
qed

lemma slots_at_append:
  "slots_at (al\<lparr>al_addresses := f, al_slots := al_slots al @ [x]\<rparr>) i =
     (if i = int (length (al_slots al)) then Some x else slots_at al i)"
  by (auto simp: slots_at_def nth_append)

lemma slots_at_update:
  "0 \<le> j \<Longrightarrow> nat j < length (al_slots al) \<Longrightarrow>
   slots_at (al\<lparr>al_slots := (al_slots al)[nat j := x]\<rparr>) i = (if i = j then Some x else slots_at al i)"
  by (auto simp: slots_at_def nth_list_update eq_nat_nat_iff)

text \<open>The three ways \<open>AddSlot\<close> can go.\<close>

lemma AddSlot_new:
  fixes s :: hash
  assumes "al_wf al" "al_addresses al a = None \<or> al_addresses al a = Some (-1)"
  defines "al' \<equiv> al\<lparr>al_addresses := (al_addresses al)(a \<mapsto> int (length (al_slots al))),
             al_slots := al_slots al @ [{s}]\<rparr>"
  shows "AddSlot a s al = Some ((a \<notin> al_addrs al, True), al')" "al_wf al'"
    "al_addrs al' = insert a (al_addrs al)" "al_pairs al' = insert (a, s) (al_pairs al)"
    "(a, s) \<notin> al_pairs al"
proof -
  show "AddSlot a s al = Some ((a \<notin> al_addrs al, True), al')"
    using assms by (auto simp: AddSlot_def al_addrs_def)
  have range: "al_addresses al b = Some i \<Longrightarrow> i \<noteq> int (length (al_slots al))" for b i
    using al_wf_range [OF assms(1), of b i] by (cases "i = -1") auto
  then have "unshared ((al_addresses al)(a \<mapsto> int (length (al_slots al))))"
    using assms(1) by (intro unshared_add) (auto simp: al_wf_def)
  moreover have "\<forall>b i. al_addresses al b = Some i \<longrightarrow> i \<noteq> -1 \<longrightarrow> 0 \<le> i \<and> nat i < Suc (length (al_slots al))"
    using assms(1) by (auto simp: al_wf_def less_SucI)
  ultimately show "al_wf al'"
    using assms(1) by (auto simp: al_wf_def al'_def)
  show "al_addrs al' = insert a (al_addrs al)" by (auto simp: al'_def al_addrs_def)
  show "al_pairs al' = insert (a, s) (al_pairs al)"
    using assms(2) range unfolding al'_def al_pairs_def slots_at_append by (fastforce split: if_splits)
  show "(a, s) \<notin> al_pairs al" using assms(2) by (auto simp: al_pairs_def)
qed

lemma AddSlot_old:
  fixes s :: hash
  assumes "al_wf al" "al_addresses al a = Some i" "i \<noteq> -1" "(a, s) \<notin> al_pairs al"
  defines "al' \<equiv> al\<lparr>al_slots := (al_slots al)[nat i := insert s (al_slots al ! nat i)]\<rparr>"
  shows "AddSlot a s al = Some ((False, True), al')" "al_wf al'"
    "al_addrs al' = al_addrs al" "al_pairs al' = insert (a, s) (al_pairs al)"
proof -
  have i: "0 \<le> i" "nat i < length (al_slots al)" using al_wf_range assms by auto
  then have at: "slots_at al i = Some (al_slots al ! nat i)" by (simp add: slots_at_def)
  show "AddSlot a s al = Some ((False, True), al')"
    using assms i at by (auto simp: AddSlot_def al_pairs_def)
  show "al_wf al'"
  proof -
    have "{} \<notin> insert (insert s (al_slots al ! nat i)) (set (al_slots al))" using assms(1) by (simp add: al_wf_def)
    then have "{} \<notin> set ((al_slots al)[nat i := insert s (al_slots al ! nat i)])"
      using set_update_subset_insert [of "al_slots al" "nat i" "insert s (al_slots al ! nat i)"] by blast
    then show ?thesis using assms(1) by (simp add: al_wf_def al'_def)
  qed
  show "al_addrs al' = al_addrs al" by (simp add: al'_def al_addrs_def)
  have "(b, u) \<in> al_pairs al' \<longleftrightarrow> (b, u) \<in> insert (a, s) (al_pairs al)" for b u
  proof (cases "b = a")
    case True
    then show ?thesis using assms(2) at by (simp add: al'_def al_pairs_def slots_at_update [OF i])
  next
    case False
    then have "al_addresses al b \<noteq> Some i" using al_wf_share [OF assms(1,2) _ assms(3)] by blast
    then show ?thesis using False
      by (cases "al_addresses al b") (simp_all add: al'_def al_pairs_def slots_at_update [OF i])
  qed
  then show "al_pairs al' = insert (a, s) (al_pairs al)" by (intro set_eqI) (metis surj_pair)
qed

lemma AddSlot_present:
  assumes "al_wf al" "(a, s) \<in> al_pairs al"
  shows "AddSlot a s al = Some ((False, False), al)"
  using assms by (cases "al_addresses al a = Some (-1)") (auto simp: AddSlot_def al_pairs_def)

lemma AddSlot_correct:
  assumes "al_wf al"
  shows "\<exists>al'. AddSlot a s al = Some ((a \<notin> al_addrs al, (a, s) \<notin> al_pairs al), al') \<and> al_wf al' \<and>
    al_addrs al' = insert a (al_addrs al) \<and> al_pairs al' = insert (a, s) (al_pairs al)"
proof (cases "(a, s) \<in> al_pairs al")
  case True
  with AddSlot_present [OF assms] al_pairs_addrs [of a s al] assms show ?thesis by auto
next
  case False
  show ?thesis
  proof (cases "al_addresses al a = None \<or> al_addresses al a = Some (-1)")
    case True
    with AddSlot_new [OF assms this] show ?thesis by simp
  next
    case old: False
    then obtain i where i: "al_addresses al a = Some i" "i \<noteq> -1" by auto
    then have "a \<in> al_addrs al" by (auto simp: al_addrs_def)
    with AddSlot_old [OF assms i False] False show ?thesis by auto
  qed
qed

subsection \<open>Undoing\<close>

text \<open>Deleting what was added last gives back the very same list, slice and indices included.\<close>

lemma DeleteAddress_AddAddress: "AddAddress a al = (True, al') \<Longrightarrow> DeleteAddress a al' = al"
  by (cases al) (auto simp: AddAddress_def DeleteAddress_def fun_upd_idem split: if_splits)

lemma DeleteSlot_AddSlot:
  assumes "al_wf al" "AddSlot a s al = Some ((c, True), al')"
  shows "\<exists>al''. DeleteSlot a s al' = Some al'' \<and> (if c then DeleteAddress a al'' else al'') = al"
proof (cases "al_addresses al a = None \<or> al_addresses al a = Some (-1)")
  case True
  then show ?thesis
    using assms(2) by (cases al)
      (auto simp: AddSlot_def DeleteSlot_def slots_at_def DeleteAddress_def fun_upd_idem)
next
  case False
  then obtain i where i: "al_addresses al a = Some i" "i \<noteq> -1" by auto
  have r: "0 \<le> i" "nat i < length (al_slots al)" using al_wf_range [OF assms(1) i] by auto
  have at: "slots_at al i = Some (al_slots al ! nat i)" using r by (simp add: slots_at_def)
  have s: "s \<notin> al_slots al ! nat i" "\<not> c" "al' = al\<lparr>al_slots := (al_slots al)[nat i := insert s (al_slots al ! nat i)]\<rparr>"
    using assms(2) i at by (auto simp: AddSlot_def split: if_splits)
  have "al_slots al ! nat i \<noteq> {}" using al_wf_nonempty [OF assms(1) at] .
  with s i r show ?thesis
    by (simp add: DeleteSlot_def slots_at_update)
qed

lemma al_Copy_same [simp]: "al_Copy al = al"
  by (simp add: al_Copy_def)

end
