(* ===== verification/StateDB.thy ===== *)
theory StateDB
  imports State_Object Access_List "HOL-Library.Monad_Syntax"
begin

text \<open>
  The state database, \<open>core/state/statedb.go\<close>, with its journal, \<open>core/state/journal.go\<close>. Accounts
  are loaded on demand, from the snapshot or from the account trie, and kept as live objects; every
  change appends an entry to the journal, and reverting replays the entries backwards. An operation
  that panics, or waits for a trie that has no end, is \<open>None\<close>. The live objects are the values of
  a map: a pointer to one is its address.
\<close>

record Log =
  log_Address :: address
  log_Topics :: "hash list"
  log_Data :: bytes
  log_BlockNumber :: u64
  log_TxHash :: hash
  log_TxIndex :: u64
  log_BlockHash :: hash
  log_Index :: u64
  log_Removed :: bool

subsection \<open>The journal\<close>

datatype journalEntry =
    createObjectChange address
  | resetObjectChange stateObject bool
  | suicideChange address bool int
  | balanceChange address int
  | nonceChange address u64
  | storageChange address hash hash
  | codeChange address "bytes option" bytes
  | refundChange u64
  | addLogChange hash
  | addPreimageChange hash
  | touchChange address
  | accessListAddAccountChange address
  | accessListAddSlotChange address hash
  | eraseChange address "bytes option" bytes hash

fun dirtied :: "journalEntry \<Rightarrow> address option" where
  "dirtied (createObjectChange a) = Some a"
| "dirtied (suicideChange a _ _) = Some a"
| "dirtied (balanceChange a _) = Some a"
| "dirtied (nonceChange a _) = Some a"
| "dirtied (storageChange a _ _) = Some a"
| "dirtied (codeChange a _ _) = Some a"
| "dirtied (touchChange a) = Some a"
| "dirtied (eraseChange a _ _ _) = Some a"
| "dirtied _ = None"

record journal =
  entries :: "journalEntry list"
  dirties :: "address \<Rightarrow> int option"

definition newJournal :: journal where
  "newJournal = \<lparr>entries = [], dirties = Map.empty\<rparr>"

text \<open>\<open>j.dirties[addr]++\<close>; the value of a missing key is 0.\<close>

definition journal_dirty :: "address \<Rightarrow> journal \<Rightarrow> journal" where
  "journal_dirty addr j =
     j\<lparr>dirties := (dirties j)(addr \<mapsto> (case dirties j addr of None \<Rightarrow> 0 | Some n \<Rightarrow> n) + 1)\<rparr>"

definition journal_append :: "journalEntry \<Rightarrow> journal \<Rightarrow> journal" where
  "journal_append entry j =
     (let j = j\<lparr>entries := entries j @ [entry]\<rparr>
      in case dirtied entry of None \<Rightarrow> j | Some addr \<Rightarrow> journal_dirty addr j)"

text \<open>Dropping the dirty mark of an entry that was undone.\<close>

definition journal_undirty :: "journalEntry \<Rightarrow> journal \<Rightarrow> journal" where
  "journal_undirty entry j =
     (case dirtied entry of
        None \<Rightarrow> j
      | Some addr \<Rightarrow>
          let n = (case dirties j addr of None \<Rightarrow> 0 | Some n \<Rightarrow> n) - 1
          in j\<lparr>dirties := (dirties j)(addr := if n = 0 then None else Some n)\<rparr>)"

subsection \<open>The database\<close>

text \<open>A field that is a nil map until it is made is an option: \<open>stateObjectsDestruct\<close>. The other maps
  are made with the state (those of the snapshot when there is one).\<close>

record StateDB =
  s_trie :: SecureTrie
  originalRoot :: hash
  s_snap :: "snapshot_layer option"
  snapDestructs :: "hash set"
  snapAccounts :: "hash \<Rightarrow> bytes option"
  snapStorage :: "hash \<Rightarrow> (hash \<Rightarrow> bytes option) option"
  stateObjects :: "address \<Rightarrow> stateObject option"
  stateObjectsPending :: "address set"
  stateObjectsDirty :: "address set"
  stateObjectsDestruct :: "address set option"
  s_dbErr :: "state_error option"
  refund :: u64
  thash :: hash
  txIndex :: int
  logs :: "hash \<Rightarrow> Log list option"
  logSize :: u64
  preimages :: "hash \<Rightarrow> bytes option"
  s_accessList :: accessList
  s_journal :: journal
  validRevisions :: "(int \<times> nat) list"
  nextRevisionId :: int
  s_hashCache :: "hash_cache option"

definition state_New :: "state_env \<Rightarrow> hash \<Rightarrow> snapshot_layer option \<Rightarrow> hash_cache option \<Rightarrow> trie_error + StateDB" where
  "state_New env root snap hc =
     (case OpenTrie env root of
        Inl err \<Rightarrow> Inl err
      | Inr tr \<Rightarrow>
          Inr \<lparr>s_trie = tr, originalRoot = root, s_snap = snap, snapDestructs = {},
               snapAccounts = Map.empty, snapStorage = Map.empty, stateObjects = Map.empty,
               stateObjectsPending = {}, stateObjectsDirty = {}, stateObjectsDestruct = None,
               s_dbErr = None, refund = 0, thash = zeroHash, txIndex = 0, logs = Map.empty, logSize = 0,
               preimages = Map.empty, s_accessList = newAccessList, s_journal = newJournal,
               validRevisions = [], nextRevisionId = 0, s_hashCache = hc\<rparr>)"

definition sdb_setError :: "state_error \<Rightarrow> StateDB \<Rightarrow> StateDB" where
  "sdb_setError err s = (if s_dbErr s = None then s\<lparr>s_dbErr := Some err\<rparr> else s)"

definition log_change :: "journalEntry \<Rightarrow> StateDB \<Rightarrow> StateDB" where
  "log_change entry s = s\<lparr>s_journal := journal_append entry (s_journal s)\<rparr>"

definition setStateObject :: "stateObject \<Rightarrow> StateDB \<Rightarrow> StateDB" where
  "setStateObject obj s = s\<lparr>stateObjects := (stateObjects s)(o_address obj \<mapsto> obj)\<rparr>"

subsection \<open>Loading accounts\<close>

definition snap_object :: "state_env \<Rightarrow> address \<Rightarrow> slim_account \<Rightarrow> stateObject" where
  "snap_object env addr acc =
     (let codeHash = (if length (slim_CodeHash acc) = 0 then emptyCodeHash env else slim_CodeHash acc);
          root = BytesToHash (slim_Root acc);
          root = (if root = zeroHash then emptyRoot else root)
      in newObject env addr (slim_Nonce acc) (slim_Balance acc) root (Some codeHash))"

definition account_object :: "state_env \<Rightarrow> address \<Rightarrow> StateAccount \<Rightarrow> stateObject" where
  "account_object env addr d =
     newObject env addr (acc_Nonce d) (Some (acc_Balance d)) (acc_Root d) (Some (acc_CodeHash d))"

definition getDeletedStateObject :: "state_env \<Rightarrow> address \<Rightarrow> StateDB \<Rightarrow> (stateObject option \<times> StateDB) option" where
  "getDeletedStateObject env addr s =
     (case stateObjects s addr of
        Some obj \<Rightarrow> Some (Some obj, s)
      | None \<Rightarrow>
          (case (case s_snap s of None \<Rightarrow> Inl () | Some layer \<Rightarrow> snap_Account layer (keccak env addr)) of
             Inr None \<Rightarrow> Some (None, s)
           | Inr (Some acc) \<Rightarrow>
               let obj = snap_object env addr acc in Some (Some obj, setStateObject obj s)
           | Inl _ \<Rightarrow>
               (case sec_TryGet (keccak env) (nodes env) (s_trie s) addr of
                  None \<Rightarrow> None
                | Some (Inl err, t) \<Rightarrow> Some (None, sdb_setError (ErrAccount addr err) (s\<lparr>s_trie := t\<rparr>))
                | Some (Inr v, t) \<Rightarrow>
                    let s = s\<lparr>s_trie := t\<rparr>; e = (case v of None \<Rightarrow> [] | Some e \<Rightarrow> e) in
                    if length e = 0 then Some (None, s)
                    else case DecodeBytes account_typ e of
                           None \<Rightarrow> None
                         | Some (Inl err) \<Rightarrow> Some (None, s)
                         | Some (Inr g) \<Rightarrow>
                             (case account_of_gval g of
                                None \<Rightarrow> Some (None, s)
                              | Some d \<Rightarrow>
                                  let obj = account_object env addr d in Some (Some obj, setStateObject obj s)))))"

definition getStateObject :: "state_env \<Rightarrow> address \<Rightarrow> StateDB \<Rightarrow> (stateObject option \<times> StateDB) option" where
  "getStateObject env addr s =
     map_option (\<lambda>(obj, s). (case obj of None \<Rightarrow> None | Some o' \<Rightarrow> if deleted o' then None else Some o', s))
       (getDeletedStateObject env addr s)"

definition createObject :: "state_env \<Rightarrow> address \<Rightarrow> StateDB \<Rightarrow> ((stateObject \<times> stateObject option) \<times> StateDB) option" where
  "createObject env addr s =
     map_option (\<lambda>(prev, s).
       let prevdestruct = (s_snap s \<noteq> None \<and> (case prev of None \<Rightarrow> False | Some p \<Rightarrow> o_addrHash p \<in> snapDestructs s));
           s = (if s_snap s \<noteq> None \<and> prev \<noteq> None \<and> \<not> prevdestruct
                then s\<lparr>snapDestructs := insert (o_addrHash (the prev)) (snapDestructs s)\<rparr> else s);
           newobj = newObject env addr 0 None zeroHash None;
           s = (case prev of
                  None \<Rightarrow> log_change (createObjectChange addr) s
                | Some p \<Rightarrow> log_change (resetObjectChange p prevdestruct) s);
           s = setStateObject newobj s
       in ((newobj, case prev of None \<Rightarrow> None | Some p \<Rightarrow> if deleted p then None else Some p), s))
       (getDeletedStateObject env addr s)"

definition GetOrNewStateObject :: "state_env \<Rightarrow> address \<Rightarrow> StateDB \<Rightarrow> (stateObject \<times> StateDB) option" where
  "GetOrNewStateObject env addr s =
     do { (obj, s) \<leftarrow> getStateObject env addr s;
          case obj of
            Some o' \<Rightarrow> Some (o', s)
          | None \<Rightarrow> do { ((newobj, _), s) \<leftarrow> createObject env addr s; Some (newobj, s) } }"

definition CreateAccount :: "state_env \<Rightarrow> address \<Rightarrow> StateDB \<Rightarrow> StateDB option" where
  "CreateAccount env addr s =
     do { ((newObj, prev), s) \<leftarrow> createObject env addr s;
          Some (case prev of
                  None \<Rightarrow> s
                | Some p \<Rightarrow> setStateObject (obj_setBalance (acc_Balance (o_data p)) newObj) s) }"

subsection \<open>Reading\<close>

definition Exist :: "state_env \<Rightarrow> address \<Rightarrow> StateDB \<Rightarrow> (bool \<times> StateDB) option" where
  "Exist env addr s = do { (so, s) \<leftarrow> getStateObject env addr s; Some (so \<noteq> None, s) }"

definition sdb_Empty :: "state_env \<Rightarrow> address \<Rightarrow> StateDB \<Rightarrow> (bool \<times> StateDB) option" where
  "sdb_Empty env addr s =
     do { (so, s) \<leftarrow> getStateObject env addr s;
          Some (case so of None \<Rightarrow> True | Some obj \<Rightarrow> obj_empty env obj, s) }"

definition GetBalance :: "state_env \<Rightarrow> address \<Rightarrow> StateDB \<Rightarrow> (int \<times> StateDB) option" where
  "GetBalance env addr s =
     do { (so, s) \<leftarrow> getStateObject env addr s;
          Some (case so of None \<Rightarrow> 0 | Some obj \<Rightarrow> acc_Balance (o_data obj), s) }"

definition GetNonce :: "state_env \<Rightarrow> address \<Rightarrow> StateDB \<Rightarrow> (u64 \<times> StateDB) option" where
  "GetNonce env addr s =
     do { (so, s) \<leftarrow> getStateObject env addr s;
          Some (case so of None \<Rightarrow> 0 | Some obj \<Rightarrow> acc_Nonce (o_data obj), s) }"

definition GetCode :: "state_env \<Rightarrow> address \<Rightarrow> StateDB \<Rightarrow> (bytes option \<times> StateDB) option" where
  "GetCode env addr s =
     do { (so, s) \<leftarrow> getStateObject env addr s;
          Some (case so of None \<Rightarrow> (None, s)
                | Some obj \<Rightarrow> let (code, obj) = obj_Code env obj in (code, setStateObject obj s)) }"

definition GetCodeSize :: "state_env \<Rightarrow> address \<Rightarrow> StateDB \<Rightarrow> (nat \<times> StateDB) option" where
  "GetCodeSize env addr s =
     do { (so, s) \<leftarrow> getStateObject env addr s;
          Some (case so of None \<Rightarrow> (0, s)
                | Some obj \<Rightarrow> let (n, obj) = obj_CodeSize env obj in (n, setStateObject obj s)) }"

definition GetCodeHash :: "state_env \<Rightarrow> address \<Rightarrow> StateDB \<Rightarrow> (hash \<times> StateDB) option" where
  "GetCodeHash env addr s =
     do { (so, s) \<leftarrow> getStateObject env addr s;
          Some (case so of None \<Rightarrow> zeroHash | Some obj \<Rightarrow> BytesToHash (acc_CodeHash (o_data obj)), s) }"

definition GetState :: "state_env \<Rightarrow> address \<Rightarrow> hash \<Rightarrow> StateDB \<Rightarrow> (hash \<times> StateDB) option" where
  "GetState env addr key s =
     do { (so, s) \<leftarrow> getStateObject env addr s;
          case so of None \<Rightarrow> Some (zeroHash, s)
          | Some obj \<Rightarrow>
              do { (v, obj) \<leftarrow> obj_GetState env (s_snap s) (snapDestructs s) obj key; Some (v, setStateObject obj s) } }"

definition GetCommittedState :: "state_env \<Rightarrow> address \<Rightarrow> hash \<Rightarrow> StateDB \<Rightarrow> (hash \<times> StateDB) option" where
  "GetCommittedState env addr key s =
     do { (so, s) \<leftarrow> getStateObject env addr s;
          case so of None \<Rightarrow> Some (zeroHash, s)
          | Some obj \<Rightarrow>
              do { (v, obj) \<leftarrow> obj_GetCommittedState env (s_snap s) (snapDestructs s) obj key;
                   Some (v, setStateObject obj s) } }"

definition HasSuicided :: "state_env \<Rightarrow> address \<Rightarrow> StateDB \<Rightarrow> (bool \<times> StateDB) option" where
  "HasSuicided env addr s =
     do { (so, s) \<leftarrow> getStateObject env addr s;
          Some (case so of None \<Rightarrow> False | Some obj \<Rightarrow> suicided obj, s) }"

definition GetLogs :: "hash \<Rightarrow> hash \<Rightarrow> StateDB \<Rightarrow> Log list \<times> StateDB" where
  "GetLogs h blockHash s =
     (case logs s h of
        None \<Rightarrow> ([], s)
      | Some ls \<Rightarrow>
          let ls = map (\<lambda>l. l\<lparr>log_BlockHash := blockHash\<rparr>) ls in (ls, s\<lparr>logs := (logs s)(h \<mapsto> ls)\<rparr>))"

subsection \<open>Changing objects\<close>

definition ripemd :: address where
  "ripemd = replicate 19 0 @ [3]"

definition obj_touch :: "stateObject \<Rightarrow> StateDB \<Rightarrow> StateDB" where
  "obj_touch obj s =
     (let s = log_change (touchChange (o_address obj)) s
      in if o_address obj = ripemd then s\<lparr>s_journal := journal_dirty (o_address obj) (s_journal s)\<rparr> else s)"

definition obj_SetBalance :: "int \<Rightarrow> stateObject \<Rightarrow> StateDB \<Rightarrow> StateDB" where
  "obj_SetBalance amount obj s =
     setStateObject (obj_setBalance amount obj)
       (log_change (balanceChange (o_address obj) (acc_Balance (o_data obj))) s)"

definition obj_AddBalance :: "state_env \<Rightarrow> int \<Rightarrow> stateObject \<Rightarrow> StateDB \<Rightarrow> StateDB" where
  "obj_AddBalance env amount obj s =
     (if amount = 0 then (if obj_empty env obj then obj_touch obj s else s)
      else obj_SetBalance (acc_Balance (o_data obj) + amount) obj s)"

definition obj_SubBalance :: "state_env \<Rightarrow> int \<Rightarrow> stateObject \<Rightarrow> StateDB \<Rightarrow> StateDB" where
  "obj_SubBalance env amount obj s =
     (if amount = 0 then (if obj_empty env obj then obj_touch obj s else s)
      else obj_SetBalance (acc_Balance (o_data obj) - amount) obj s)"

definition obj_SetNonce :: "u64 \<Rightarrow> stateObject \<Rightarrow> StateDB \<Rightarrow> StateDB" where
  "obj_SetNonce nonce obj s =
     setStateObject (obj_setNonce nonce obj)
       (log_change (nonceChange (o_address obj) (acc_Nonce (o_data obj))) s)"

definition obj_SetCode :: "state_env \<Rightarrow> hash \<Rightarrow> bytes option \<Rightarrow> stateObject \<Rightarrow> StateDB \<Rightarrow> StateDB" where
  "obj_SetCode env codeHash code obj s =
     (let (prevcode, obj) = obj_Code env obj
      in setStateObject (obj_setCode codeHash code obj)
           (log_change (codeChange (o_address obj) prevcode (acc_CodeHash (o_data obj))) s))"

definition obj_SetState :: "state_env \<Rightarrow> hash \<Rightarrow> hash \<Rightarrow> stateObject \<Rightarrow> StateDB \<Rightarrow> StateDB option" where
  "obj_SetState env key value obj s =
     do { (prev, obj) \<leftarrow> obj_GetState env (s_snap s) (snapDestructs s) obj key;
          Some (if prev = value then setStateObject obj s
                else setStateObject (obj_setState key value obj)
                       (log_change (storageChange (o_address obj) key prev) s)) }"

definition obj_erase :: "state_env \<Rightarrow> stateObject \<Rightarrow> StateDB \<Rightarrow> StateDB" where
  "obj_erase env obj s =
     (let (prevcode, obj) = obj_Code env obj
      in setStateObject
           (obj\<lparr>o_code := Some [],
                o_data := (o_data obj)\<lparr>acc_CodeHash := emptyCodeHash env, acc_Root := emptyRoot\<rparr>,
                o_trie := None, dirtyCode := True\<rparr>)
           (log_change (eraseChange (o_address obj) prevcode (acc_CodeHash (o_data obj)) (acc_Root (o_data obj))) s))"

definition AddBalance :: "state_env \<Rightarrow> address \<Rightarrow> int \<Rightarrow> StateDB \<Rightarrow> StateDB option" where
  "AddBalance env addr amount s =
     do { (obj, s) \<leftarrow> GetOrNewStateObject env addr s; Some (obj_AddBalance env amount obj s) }"

definition SubBalance :: "state_env \<Rightarrow> address \<Rightarrow> int \<Rightarrow> StateDB \<Rightarrow> StateDB option" where
  "SubBalance env addr amount s =
     do { (obj, s) \<leftarrow> GetOrNewStateObject env addr s; Some (obj_SubBalance env amount obj s) }"

definition SetBalance :: "state_env \<Rightarrow> address \<Rightarrow> int \<Rightarrow> StateDB \<Rightarrow> StateDB option" where
  "SetBalance env addr amount s =
     do { (obj, s) \<leftarrow> GetOrNewStateObject env addr s; Some (obj_SetBalance amount obj s) }"

definition SetNonce :: "state_env \<Rightarrow> address \<Rightarrow> u64 \<Rightarrow> StateDB \<Rightarrow> StateDB option" where
  "SetNonce env addr nonce s =
     do { (obj, s) \<leftarrow> GetOrNewStateObject env addr s; Some (obj_SetNonce nonce obj s) }"

definition SetCode :: "state_env \<Rightarrow> address \<Rightarrow> bytes option \<Rightarrow> StateDB \<Rightarrow> StateDB option" where
  "SetCode env addr code s =
     do { (obj, s) \<leftarrow> GetOrNewStateObject env addr s;
          Some (obj_SetCode env (keccak env (case code of None \<Rightarrow> [] | Some c \<Rightarrow> c)) code obj s) }"

definition SetState :: "state_env \<Rightarrow> address \<Rightarrow> hash \<Rightarrow> hash \<Rightarrow> StateDB \<Rightarrow> StateDB option" where
  "SetState env addr key value s =
     do { (obj, s) \<leftarrow> GetOrNewStateObject env addr s; obj_SetState env key value obj s }"

fun set_slots :: "state_env \<Rightarrow> address \<Rightarrow> (hash \<times> hash) list \<Rightarrow> StateDB \<Rightarrow> StateDB option" where
  "set_slots env addr [] s = Some s"
| "set_slots env addr ((k, v) # kvs) s =
     (case stateObjects s addr of
        None \<Rightarrow> None
      | Some obj \<Rightarrow> do { s \<leftarrow> obj_SetState env k v obj s; set_slots env addr kvs s })"

text \<open>Writing to a nil map panics.\<close>

definition SetStorage :: "state_env \<Rightarrow> address \<Rightarrow> (hash \<times> hash) list \<Rightarrow> StateDB \<Rightarrow> StateDB option" where
  "SetStorage env addr storage s =
     (case stateObjectsDestruct s of
        None \<Rightarrow> None
      | Some ds \<Rightarrow>
          do { (obj, s) \<leftarrow> GetOrNewStateObject env addr (s\<lparr>stateObjectsDestruct := Some (insert addr ds)\<rparr>);
               set_slots env addr storage s })"

definition Suicide :: "state_env \<Rightarrow> address \<Rightarrow> StateDB \<Rightarrow> (bool \<times> StateDB) option" where
  "Suicide env addr s =
     do { (so, s) \<leftarrow> getStateObject env addr s;
          Some (case so of
                  None \<Rightarrow> (False, s)
                | Some obj \<Rightarrow>
                    (True, setStateObject (obj_setBalance 0 (obj\<lparr>suicided := True\<rparr>))
                       (log_change (suicideChange addr (suicided obj) (acc_Balance (o_data obj))) s))) }"

definition sdb_Erase :: "state_env \<Rightarrow> address \<Rightarrow> StateDB \<Rightarrow> (bool \<times> StateDB) option" where
  "sdb_Erase env addr s =
     do { (so, s) \<leftarrow> getStateObject env addr s;
          Some (case so of None \<Rightarrow> (False, s) | Some obj \<Rightarrow> (True, obj_erase env obj s)) }"

subsection \<open>Logs, preimages, refunds and the access list\<close>

definition AddLog :: "Log \<Rightarrow> StateDB \<Rightarrow> StateDB" where
  "AddLog l s =
     (let s = log_change (addLogChange (thash s)) s;
          l = l\<lparr>log_TxHash := thash s, log_TxIndex := of_int (txIndex s), log_Index := logSize s\<rparr>
      in s\<lparr>logs := (logs s)(thash s \<mapsto> (case logs s (thash s) of None \<Rightarrow> [] | Some ls \<Rightarrow> ls) @ [l]),
           logSize := logSize s + 1\<rparr>)"

definition AddPreimage :: "hash \<Rightarrow> bytes \<Rightarrow> StateDB \<Rightarrow> StateDB" where
  "AddPreimage h preimage s =
     (if preimages s h = None
      then let s = log_change (addPreimageChange h) s in s\<lparr>preimages := (preimages s)(h \<mapsto> preimage)\<rparr>
      else s)"

definition AddRefund :: "u64 \<Rightarrow> StateDB \<Rightarrow> StateDB" where
  "AddRefund gas s = (let s = log_change (refundChange (refund s)) s in s\<lparr>refund := refund s + gas\<rparr>)"

definition SubRefund :: "u64 \<Rightarrow> StateDB \<Rightarrow> StateDB option" where
  "SubRefund gas s =
     (let s = log_change (refundChange (refund s)) s
      in if gas > refund s then None else Some (s\<lparr>refund := refund s - gas\<rparr>))"

definition AddAddressToAccessList :: "address \<Rightarrow> StateDB \<Rightarrow> StateDB" where
  "AddAddressToAccessList addr s =
     (let (added, al) = AddAddress addr (s_accessList s); s = s\<lparr>s_accessList := al\<rparr>
      in if added then log_change (accessListAddAccountChange addr) s else s)"

definition AddSlotToAccessList :: "address \<Rightarrow> hash \<Rightarrow> StateDB \<Rightarrow> StateDB option" where
  "AddSlotToAccessList addr slot s =
     map_option (\<lambda>((addrMod, slotMod), al).
       let s = s\<lparr>s_accessList := al\<rparr>;
           s = (if addrMod then log_change (accessListAddAccountChange addr) s else s)
       in if slotMod then log_change (accessListAddSlotChange addr slot) s else s)
       (AddSlot addr slot (s_accessList s))"

definition AddressInAccessList :: "address \<Rightarrow> StateDB \<Rightarrow> bool" where
  "AddressInAccessList addr s = ContainsAddress addr (s_accessList s)"

definition SlotInAccessList :: "address \<Rightarrow> hash \<Rightarrow> StateDB \<Rightarrow> (bool \<times> bool) option" where
  "SlotInAccessList addr slot s = al_Contains addr slot (s_accessList s)"

fun add_slots :: "address \<Rightarrow> hash list \<Rightarrow> StateDB \<Rightarrow> StateDB option" where
  "add_slots addr [] s = Some s"
| "add_slots addr (k # ks) s = do { s \<leftarrow> AddSlotToAccessList addr k s; add_slots addr ks s }"

fun add_tuples :: "(address \<times> hash list) list \<Rightarrow> StateDB \<Rightarrow> StateDB option" where
  "add_tuples [] s = Some s"
| "add_tuples ((a, ks) # els) s = do { s \<leftarrow> add_slots a ks (AddAddressToAccessList a s); add_tuples els s }"

definition PrepareAccessList ::
  "address \<Rightarrow> address option \<Rightarrow> address list \<Rightarrow> (address \<times> hash list) list \<Rightarrow> StateDB \<Rightarrow> StateDB option" where
  "PrepareAccessList sender dst precompiles list s =
     (let s = AddAddressToAccessList sender s;
          s = (case dst of None \<Rightarrow> s | Some d \<Rightarrow> AddAddressToAccessList d s);
          s = fold AddAddressToAccessList precompiles s
      in add_tuples list s)"

definition sdb_Prepare :: "hash \<Rightarrow> int \<Rightarrow> StateDB \<Rightarrow> StateDB" where
  "sdb_Prepare h ti s = s\<lparr>thash := h, txIndex := ti, s_accessList := newAccessList\<rparr>"

subsection \<open>Snapshots\<close>

definition sdb_Snapshot :: "StateDB \<Rightarrow> int \<times> StateDB" where
  "sdb_Snapshot s =
     (let rid = nextRevisionId s
      in (rid, s\<lparr>nextRevisionId := rid + 1,
                 validRevisions := validRevisions s @ [(rid, length (entries (s_journal s)))]\<rparr>))"

text \<open>Undoing one entry. A nil object that is used is a panic.\<close>

definition with_object :: "state_env \<Rightarrow> address \<Rightarrow> (stateObject \<Rightarrow> stateObject) \<Rightarrow> StateDB \<Rightarrow> StateDB option" where
  "with_object env addr f s =
     do { (so, s) \<leftarrow> getStateObject env addr s;
          case so of None \<Rightarrow> None | Some obj \<Rightarrow> Some (setStateObject (f obj) s) }"

fun revert_entry :: "state_env \<Rightarrow> journalEntry \<Rightarrow> StateDB \<Rightarrow> StateDB option" where
  "revert_entry env (createObjectChange a) s =
     Some (s\<lparr>stateObjects := (stateObjects s)(a := None), stateObjectsDirty := stateObjectsDirty s - {a}\<rparr>)"
| "revert_entry env (resetObjectChange prev prevdestruct) s =
     (let s = setStateObject prev s
      in Some (if \<not> prevdestruct \<and> s_snap s \<noteq> None
               then s\<lparr>snapDestructs := snapDestructs s - {o_addrHash prev}\<rparr> else s))"
| "revert_entry env (suicideChange a prev prevbalance) s =
     do { (so, s) \<leftarrow> getStateObject env a s;
          Some (case so of
                  None \<Rightarrow> s
                | Some obj \<Rightarrow> setStateObject (obj_setBalance prevbalance (obj\<lparr>suicided := prev\<rparr>)) s) }"
| "revert_entry env (balanceChange a prev) s = with_object env a (obj_setBalance prev) s"
| "revert_entry env (nonceChange a prev) s = with_object env a (obj_setNonce prev) s"
| "revert_entry env (storageChange a key prevalue) s = with_object env a (obj_setState key prevalue) s"
| "revert_entry env (codeChange a prevcode prevhash) s =
     with_object env a (obj_setCode (BytesToHash prevhash) prevcode) s"
| "revert_entry env (refundChange prev) s = Some (s\<lparr>refund := prev\<rparr>)"
| "revert_entry env (addLogChange txhash) s =
     (let ls = (case logs s txhash of None \<Rightarrow> [] | Some ls \<Rightarrow> ls)
      in if length ls = 0 then None
         else Some (s\<lparr>logs := (logs s)(txhash := if length ls = 1 then None else Some (butlast ls)),
                      logSize := logSize s - 1\<rparr>))"
| "revert_entry env (addPreimageChange h) s = Some (s\<lparr>preimages := (preimages s)(h := None)\<rparr>)"
| "revert_entry env (touchChange a) s = Some s"
| "revert_entry env (accessListAddAccountChange a) s =
     Some (s\<lparr>s_accessList := DeleteAddress a (s_accessList s)\<rparr>)"
| "revert_entry env (accessListAddSlotChange a slot) s =
     map_option (\<lambda>al. s\<lparr>s_accessList := al\<rparr>) (DeleteSlot a slot (s_accessList s))"
| "revert_entry env (eraseChange a prevcode prevhash prevroot) s =
     with_object env a (revertErase env (BytesToHash prevhash) prevcode prevroot) s"

text \<open>The loop of \<open>journal.revert\<close>, over the entries from the last one backwards.\<close>

fun revert_loop :: "state_env \<Rightarrow> journalEntry list \<Rightarrow> StateDB \<Rightarrow> StateDB option" where
  "revert_loop env [] s = Some s"
| "revert_loop env (e # es) s =
     do { s \<leftarrow> revert_entry env e s;
          revert_loop env es (s\<lparr>s_journal := journal_undirty e (s_journal s)\<rparr>) }"

definition journal_revert :: "state_env \<Rightarrow> nat \<Rightarrow> StateDB \<Rightarrow> StateDB option" where
  "journal_revert env snapshot s =
     (let es = entries (s_journal s) in
      if snapshot > length es then None
      else do { s \<leftarrow> revert_loop env (rev (drop snapshot es)) s;
                Some (s\<lparr>s_journal := (s_journal s)\<lparr>entries := take snapshot es\<rparr>\<rparr>) })"

text \<open>\<open>sort.Search\<close>: binary search for the smallest index at which \<open>f\<close> holds.\<close>

function sort_Search_loop :: "(nat \<Rightarrow> bool) \<Rightarrow> nat \<Rightarrow> nat \<Rightarrow> nat" where
  "sort_Search_loop f i j =
     (if i < j then
        let h = (i + j) div 2 in
        if \<not> f h then sort_Search_loop f (h + 1) j else sort_Search_loop f i h
      else i)"
  by pat_completeness auto
termination by (relation "measure (\<lambda>(f, i, j). j - i)") auto

definition sort_Search :: "nat \<Rightarrow> (nat \<Rightarrow> bool) \<Rightarrow> nat" where
  "sort_Search n f = sort_Search_loop f 0 n"

definition RevertToSnapshot :: "state_env \<Rightarrow> int \<Rightarrow> StateDB \<Rightarrow> StateDB option" where
  "RevertToSnapshot env revid s =
     (let revs = validRevisions s; idx = sort_Search (length revs) (\<lambda>i. fst (revs ! i) \<ge> revid) in
      if idx = length revs \<or> fst (revs ! idx) \<noteq> revid then None
      else do { s \<leftarrow> journal_revert env (snd (revs ! idx)) s;
                Some (s\<lparr>validRevisions := take idx revs\<rparr>) })"

declare sort_Search_loop.simps [simp del]

end
