(* ===== verification/StateDB_View.thy ===== *)
theory StateDB_View
  imports StateDB
begin

text \<open>
  What a state database shows, apart from what is loaded and cached: the accounts by address, and the
  counters, logs and sets beside them. Reading keeps this view; undoing a journal entry acts on it.
\<close>

subsection \<open>The view\<close>

text \<open>The object that loading an account gives, and the object an address has.\<close>

definition load_object :: "state_env \<Rightarrow> StateDB \<Rightarrow> address \<Rightarrow> stateObject option" where
  "load_object env s addr =
     (case (case s_snap s of None \<Rightarrow> Inl () | Some layer \<Rightarrow> snap_Account layer (keccak env addr)) of
        Inr None \<Rightarrow> None
      | Inr (Some acc) \<Rightarrow> Some (snap_object env addr acc)
      | Inl _ \<Rightarrow>
          let e = trie_read env (s_trie s) addr in
          if e = [] then None
          else case DecodeBytes account_typ e of
                 Some (Inr g) \<Rightarrow> map_option (account_object env addr) (account_of_gval g)
               | _ \<Rightarrow> None)"

definition object_at :: "state_env \<Rightarrow> StateDB \<Rightarrow> address \<Rightarrow> stateObject option" where
  "object_at env s addr = (case stateObjects s addr of Some obj \<Rightarrow> Some obj | None \<Rightarrow> load_object env s addr)"

definition show_object :: "state_env \<Rightarrow> StateDB \<Rightarrow> stateObject \<Rightarrow> account_view" where
  "show_object env s obj = obj_view env (s_snap s) (o_addrHash obj \<in> snapDestructs s) obj"

record ledger_view =
  w_account :: "address \<Rightarrow> account_view option"
  w_destructs :: "hash set"
  w_pending :: "address set"
  w_dirty :: "address set"
  w_refund :: u64
  w_logs :: "hash \<Rightarrow> Log list option"
  w_logSize :: u64
  w_preimages :: "hash \<Rightarrow> bytes option"
  w_accessList :: accessList
  w_dirties :: "address \<Rightarrow> int option"
  w_thash :: hash
  w_txIndex :: int

text \<open>The dirty mark of the RIPEMD precompile is left out: \<open>touch\<close> sets it for good.\<close>

definition sdb_view :: "state_env \<Rightarrow> StateDB \<Rightarrow> ledger_view" where
  "sdb_view env s =
     \<lparr>w_account = (\<lambda>a. if length a = 20 then map_option (show_object env s) (object_at env s a) else None),
      w_destructs = snapDestructs s, w_pending = stateObjectsPending s, w_dirty = stateObjectsDirty s,
      w_refund = refund s, w_logs = logs s, w_logSize = logSize s, w_preimages = preimages s,
      w_accessList = s_accessList s, w_dirties = (dirties (s_journal s))(ripemd := None),
      w_thash = thash s, w_txIndex = txIndex s\<rparr>"

lemma sdb_view_simps [simp]:
  "w_destructs (sdb_view env s) = snapDestructs s" "w_pending (sdb_view env s) = stateObjectsPending s"
  "w_dirty (sdb_view env s) = stateObjectsDirty s" "w_refund (sdb_view env s) = refund s"
  "w_logs (sdb_view env s) = logs s" "w_logSize (sdb_view env s) = logSize s"
  "w_preimages (sdb_view env s) = preimages s" "w_accessList (sdb_view env s) = s_accessList s"
  "w_dirties (sdb_view env s) = (dirties (s_journal s))(ripemd := None)"
  "w_thash (sdb_view env s) = thash s" "w_txIndex (sdb_view env s) = txIndex s"
  by (simp_all add: sdb_view_def)

lemma ledger_view_self: "w\<lparr>w_account := w_account w, w_dirty := w_dirty w\<rparr> = w"
  by (cases w) simp

subsection \<open>The invariant\<close>

text \<open>What is under the live objects: the account trie can be read, its values are within the range of
  \<open>int\<close>, and the accounts it holds have storage tries that open. A snapshot has no storage for an
  account that does not exist. Without a snapshot the digests of addresses may collide; with one, an
  account is known by the digest alone.\<close>

definition base_ok :: "state_env \<Rightarrow> StateDB \<Rightarrow> bool" where
  "base_ok env s \<longleftrightarrow> hash32 (keccak env) \<and> readable env (s_trie s) \<and>
     (\<forall>a. length (trie_read env (s_trie s) a) < 2 ^ 63) \<and>
     (\<forall>a obj. length a = 20 \<longrightarrow> load_object env s a = Some obj \<longrightarrow> obj_ok env obj) \<and>
     (\<forall>a k e layer. length a = 20 \<longrightarrow> load_object env s a = None \<longrightarrow> s_snap s = Some layer \<longrightarrow>
        snap_Storage layer (keccak env a) (keccak env k) = Inr e \<longrightarrow> slot_value e = zeroHash) \<and>
     (s_snap s = None \<or> inj_on (keccak env) {a. length a = 20})"

definition same_base :: "state_env \<Rightarrow> StateDB \<Rightarrow> StateDB \<Rightarrow> bool" where
  "same_base env s s' \<longleftrightarrow> s_snap s' = s_snap s \<and> trie_read env (s_trie s') = trie_read env (s_trie s) \<and>
     readable env (s_trie s')"

definition objects_ok :: "state_env \<Rightarrow> StateDB \<Rightarrow> bool" where
  "objects_ok env s \<longleftrightarrow>
     (\<forall>a obj. stateObjects s a = Some obj \<longrightarrow> length a = 20 \<and> o_address obj = a \<and> obj_ok env obj)"

fun entry_ok :: "state_env \<Rightarrow> StateDB \<Rightarrow> journalEntry \<Rightarrow> bool" where
  "entry_ok env s (createObjectChange a) \<longleftrightarrow>
     length a = 20 \<and> load_object env s a = None \<and> a \<notin> stateObjectsPending s"
| "entry_ok env s (resetObjectChange prev _) \<longleftrightarrow> length (o_address prev) = 20 \<and> obj_ok env prev"
| "entry_ok env s (codeChange a _ h) \<longleftrightarrow> length a = 20 \<and> length h = 32"
| "entry_ok env s (suicideChange a _ _) \<longleftrightarrow> length a = 20"
| "entry_ok env s (balanceChange a _) \<longleftrightarrow> length a = 20"
| "entry_ok env s (nonceChange a _) \<longleftrightarrow> length a = 20"
| "entry_ok env s (storageChange a _ _) \<longleftrightarrow> length a = 20"
| "entry_ok env s (eraseChange _ _ _ _) \<longleftrightarrow> False"
| "entry_ok env s _ \<longleftrightarrow> True"

definition sdb_ok :: "state_env \<Rightarrow> StateDB \<Rightarrow> bool" where
  "sdb_ok env s \<longleftrightarrow> base_ok env s \<and> objects_ok env s \<and>
     stateObjectsPending s \<union> stateObjectsDirty s \<subseteq> dom (stateObjects s) \<and>
     (\<forall>e \<in> set (entries (s_journal s)). entry_ok env s e)"

text \<open>The part of the invariant that is about the view.\<close>

definition view_ok :: "ledger_view \<Rightarrow> bool" where
  "view_ok v \<longleftrightarrow> al_wf (w_accessList v) \<and> (\<forall>h. w_logs v h \<noteq> Some []) \<and>
     (\<forall>a n. w_dirties v a = Some n \<longrightarrow> 0 < n)"

lemma load_object_same: "same_base env s s' \<Longrightarrow> load_object env s' = load_object env s"
  by (rule ext) (simp add: load_object_def same_base_def cong: case_congs)

lemma same_base_refl [simp]: "readable env (s_trie s) \<Longrightarrow> same_base env s s"
  by (simp add: same_base_def)

lemma same_base_trans: "same_base env s s' \<Longrightarrow> same_base env s' s'' \<Longrightarrow> same_base env s s''"
  by (simp add: same_base_def)

lemma base_ok_same: "same_base env s s' \<Longrightarrow> base_ok env s \<Longrightarrow> base_ok env s'"
  using load_object_same [of env s s'] by (simp add: base_ok_def same_base_def)

lemma entry_ok_same:
  "same_base env s s' \<Longrightarrow> stateObjectsPending s' = stateObjectsPending s \<Longrightarrow> entry_ok env s e \<Longrightarrow> entry_ok env s' e"
  using load_object_same [of env s s'] by (cases e) simp_all

lemma sdb_okD:
  assumes "sdb_ok env s"
  shows "base_ok env s" "objects_ok env s" "stateObjectsPending s \<subseteq> dom (stateObjects s)"
    "stateObjectsDirty s \<subseteq> dom (stateObjects s)" "\<And>e. e \<in> set (entries (s_journal s)) \<Longrightarrow> entry_ok env s e"
    "hash32 (keccak env)" "readable env (s_trie s)"
  using assms by (auto simp: sdb_ok_def base_ok_def)

lemma sdb_ok_inj: "sdb_ok env s \<Longrightarrow> s_snap s \<noteq> None \<Longrightarrow> inj_on (keccak env) {a. length a = 20}"
  by (simp add: sdb_ok_def base_ok_def)

lemma sdb_ok_cong:
  assumes "sdb_ok env s" "same_base env s s'" "stateObjects s' = stateObjects s"
    and "stateObjectsPending s' = stateObjectsPending s" "stateObjectsDirty s' = stateObjectsDirty s"
    and "entries (s_journal s') = entries (s_journal s)"
  shows "sdb_ok env s'"
proof -
  have "base_ok env s'" using assms(1,2) sdb_okD(1) base_ok_same by blast
  moreover have "\<forall>e \<in> set (entries (s_journal s)). entry_ok env s' e"
    using sdb_okD(5) [OF assms(1)] entry_ok_same [OF assms(2,4)] by blast
  ultimately show ?thesis using assms by (simp add: sdb_ok_def objects_ok_def)
qed

lemma loaded_address [simp]: "o_address (snap_object env a acc) = a" "o_address (account_object env a d) = a"
  by (simp_all add: snap_object_def account_object_def newObject_def Let_def)

lemma load_object_address: "load_object env s a = Some obj \<Longrightarrow> o_address obj = a"
  by (auto simp: load_object_def Let_def split: option.splits sum.splits if_splits)

lemma object_ok_at:
  assumes "sdb_ok env s" "length a = 20" "object_at env s a = Some obj"
  shows "obj_ok env obj" "o_address obj = a" "o_addrHash obj = keccak env a"
proof -
  have load: "o_address obj' = a \<and> obj_ok env obj'" if "load_object env s a = Some obj'" for obj'
    using that assms(2) sdb_okD(1) [OF assms(1)] load_object_address by (auto simp: base_ok_def)
  then show "obj_ok env obj" "o_address obj = a"
    using assms sdb_okD(2) [OF assms(1)] by (auto simp: object_at_def objects_ok_def split: option.splits)
  then show "o_addrHash obj = keccak env a" by (simp add: obj_ok_def)
qed

lemma newObject_ok:
  assumes "hash32 (keccak env)" "opens env (if root = zeroHash then emptyRoot else root)"
    and "\<And>c. codeHash = Some c \<Longrightarrow> length c = 32"
  shows "obj_ok env (newObject env a n b root codeHash)"
  using assms by (auto simp: obj_ok_def newObject_def emptyCodeHash_def hash32_def split: option.splits)

text \<open>A state that differs in nothing the view shows.\<close>

definition frame :: "StateDB \<Rightarrow> StateDB \<Rightarrow> bool" where
  "frame s s' \<longleftrightarrow> s_journal s' = s_journal s \<and> validRevisions s' = validRevisions s \<and> nextRevisionId s' = nextRevisionId s \<and>
     stateObjectsDestruct s' = stateObjectsDestruct s \<and> stateObjectsPending s' = stateObjectsPending s"

definition reads :: "state_env \<Rightarrow> StateDB \<Rightarrow> StateDB \<Rightarrow> bool" where
  "reads env s s' \<longleftrightarrow> sdb_ok env s' \<and> sdb_view env s' = sdb_view env s \<and> same_base env s s' \<and> frame s s'"

lemma reads_refl [simp]: "sdb_ok env s \<Longrightarrow> reads env s s"
  using sdb_okD(7) by (simp add: reads_def frame_def)

lemma reads_trans: "reads env s s' \<Longrightarrow> reads env s' s'' \<Longrightarrow> reads env s s''"
  using same_base_trans by (auto simp: reads_def frame_def)

subsection \<open>Updates of single fields\<close>

lemma setStateObject_simps [simp]:
  "s_trie (setStateObject obj s) = s_trie s" "s_snap (setStateObject obj s) = s_snap s"
  "snapDestructs (setStateObject obj s) = snapDestructs s" "s_journal (setStateObject obj s) = s_journal s"
  "stateObjects (setStateObject obj s) = (stateObjects s)(o_address obj \<mapsto> obj)"
  "stateObjectsPending (setStateObject obj s) = stateObjectsPending s"
  "stateObjectsDirty (setStateObject obj s) = stateObjectsDirty s"
  "stateObjectsDestruct (setStateObject obj s) = stateObjectsDestruct s"
  "refund (setStateObject obj s) = refund s" "logs (setStateObject obj s) = logs s"
  "logSize (setStateObject obj s) = logSize s" "preimages (setStateObject obj s) = preimages s"
  "s_accessList (setStateObject obj s) = s_accessList s" "thash (setStateObject obj s) = thash s"
  "txIndex (setStateObject obj s) = txIndex s" "validRevisions (setStateObject obj s) = validRevisions s"
  "nextRevisionId (setStateObject obj s) = nextRevisionId s"
  by (simp_all add: setStateObject_def)

lemma load_object_cong: "s_snap s' = s_snap s \<Longrightarrow> s_trie s' = s_trie s \<Longrightarrow> load_object env s' = load_object env s"
  by (rule ext) (simp add: load_object_def cong: case_congs)

lemma show_object_cong:
  "s_snap s' = s_snap s \<Longrightarrow> snapDestructs s' = snapDestructs s \<Longrightarrow> show_object env s' = show_object env s"
  by (rule ext) (simp add: show_object_def)

lemma setStateObject_ok:
  assumes "sdb_ok env s" "length (o_address obj) = 20" "obj_ok env obj"
  shows "sdb_ok env (setStateObject obj s)" "same_base env s (setStateObject obj s)"
proof -
  show sb: "same_base env s (setStateObject obj s)" using sdb_okD(7) [OF assms(1)] by (simp add: same_base_def)
  have "objects_ok env (setStateObject obj s)"
    using sdb_okD(2) [OF assms(1)] assms(2,3) by (auto simp: objects_ok_def)
  then show "sdb_ok env (setStateObject obj s)"
    using sdb_okD [OF assms(1)] base_ok_same [OF sb] entry_ok_same [OF sb] by (auto simp: sdb_ok_def)
qed

lemma object_at_set:
  "object_at env (setStateObject obj s) a = (if a = o_address obj then Some obj else object_at env s a)"
  using load_object_cong [of "setStateObject obj s" s env] by (simp add: object_at_def cong: case_congs)

lemma setStateObject_view:
  assumes "length (o_address obj) = 20"
  shows "sdb_view env (setStateObject obj s) =
    (sdb_view env s)\<lparr>w_account := (w_account (sdb_view env s))(o_address obj \<mapsto> show_object env s obj)\<rparr>"
proof -
  have "show_object env (setStateObject obj s) = show_object env s" by (rule show_object_cong) simp_all
  then show ?thesis using assms by (auto simp: sdb_view_def object_at_set)
qed

text \<open>Replacing an object by one that shows the same.\<close>

lemma reads_setStateObject:
  assumes "sdb_ok env s" "length a = 20" "object_at env s a = Some obj" "o_address obj' = a" "obj_ok env obj'"
    and "show_object env s obj' = show_object env s obj"
  shows "reads env s (setStateObject obj' s)"
proof -
  have "w_account (sdb_view env s) a = Some (show_object env s obj)" using assms by (simp add: sdb_view_def)
  then have "sdb_view env (setStateObject obj' s) = sdb_view env s"
    using setStateObject_view [of obj' env s] assms by (simp add: fun_upd_idem)
  then show ?thesis
    using setStateObject_ok [OF assms(1), of obj'] assms by (simp add: reads_def frame_def)
qed

lemma reads_same_object:
  assumes "sdb_ok env s" "stateObjects s a = Some obj"
    and "same_object env (s_snap s) (o_addrHash obj \<in> snapDestructs s) obj obj'"
  shows "reads env s (setStateObject obj' s)"
proof (rule reads_setStateObject [OF assms(1)])
  show "length a = 20" "o_address obj' = a" "obj_ok env obj'" "object_at env s a = Some obj"
    using assms sdb_okD(2) [OF assms(1)] by (auto simp: objects_ok_def same_object_def object_at_def)
  have "o_addrHash obj' = o_addrHash obj"
    using assms sdb_okD(2) [OF assms(1)] by (auto simp: objects_ok_def same_object_def obj_ok_def)
  then show "show_object env s obj' = show_object env s obj"
    using assms(3) by (simp add: same_object_def show_object_def)
qed

subsection \<open>Reading accounts\<close>

lemma object_at_cong:
  "load_object env s' = load_object env s \<Longrightarrow> stateObjects s' = stateObjects s \<Longrightarrow> object_at env s' = object_at env s"
  by (rule ext) (simp add: object_at_def cong: case_congs)

lemma reads_trie:
  assumes "sdb_ok env s" "readable env t" "trie_read env t = trie_read env (s_trie s)"
  shows "reads env s (s\<lparr>s_trie := t\<rparr>)"
proof -
  let ?s = "s\<lparr>s_trie := t\<rparr>"
  have sb: "same_base env s ?s" using assms by (simp add: same_base_def)
  have "object_at env ?s = object_at env s" by (rule object_at_cong [OF load_object_same [OF sb]]) simp
  moreover have "show_object env ?s = show_object env s" by (rule show_object_cong) simp_all
  ultimately have "sdb_view env ?s = sdb_view env s" by (simp add: sdb_view_def cong: if_cong)
  moreover have "sdb_ok env ?s" by (rule sdb_ok_cong [OF assms(1) sb]) simp_all
  ultimately show ?thesis using sb by (simp add: reads_def frame_def)
qed

lemma reads_load:
  assumes "sdb_ok env s" "length a = 20" "stateObjects s a = None" "load_object env s a = Some obj"
  shows "reads env s (setStateObject obj s)"
proof -
  have "object_at env s a = Some obj" using assms(3,4) by (simp add: object_at_def)
  with object_ok_at [OF assms(1,2) this] show ?thesis
    using reads_setStateObject [OF assms(1,2)] by simp
qed

lemma account_typ_wf [simp]: "wf_typ account_typ" "\<not> is_tail account_typ"
  by (simp_all add: account_typ_def account_types_def)

lemma getDeletedStateObject_reads:
  assumes "sdb_ok env s" "length a = 20"
  shows "\<exists>s'. getDeletedStateObject env a s = Some (object_at env s a, s') \<and> reads env s s' \<and>
    stateObjects s' a = object_at env s a"
proof (cases "stateObjects s a")
  case (Some obj)
  then show ?thesis using assms(1) by (simp add: getDeletedStateObject_def object_at_def)
next
  case None
  let ?snap = "case s_snap s of None \<Rightarrow> Inl () | Some layer \<Rightarrow> snap_Account layer (keccak env a)"
  have load: ?thesis if "load_object env s a = Some obj" "getDeletedStateObject env a s = Some (Some obj, setStateObject obj s)" for obj
    using that reads_load [OF assms None that(1)] load_object_address [OF that(1)] None by (auto simp: object_at_def)
  show ?thesis
  proof (cases ?snap)
    case (Inr r)
    show ?thesis
    proof (cases r)
      case (Some acc)
      then show ?thesis using None Inr by (intro load) (simp_all add: getDeletedStateObject_def load_object_def Let_def)
    qed (use None Inr assms(1) in \<open>simp add: getDeletedStateObject_def load_object_def object_at_def\<close>)
  next
    case (Inl u)
    from sec_TryGet_readable [OF sdb_okD(7) [OF assms(1)], of a] obtain v t
      where t: "sec_TryGet (keccak env) (nodes env) (s_trie s) a = Some (Inr v, t)" "readable env t"
        "trie_read env (s_trie s) a = (case v of None \<Rightarrow> [] | Some e \<Rightarrow> e)"
        "trie_read env t = trie_read env (s_trie s)" by blast
    let ?s = "s\<lparr>s_trie := t\<rparr>" and ?e = "case v of None \<Rightarrow> [] | Some e \<Rightarrow> e"
    have r: "reads env s ?s" using assms(1) t(2,4) by (rule reads_trie)
    then have ok: "sdb_ok env ?s" and same: "load_object env ?s = load_object env s"
      using load_object_same by (auto simp: reads_def)
    have absent: ?thesis if "load_object env s a = None" "getDeletedStateObject env a s = Some (None, ?s)"
      using that r None by (simp add: object_at_def)
    have present: ?thesis if "load_object env s a = Some obj" "getDeletedStateObject env a s = Some (Some obj, setStateObject obj ?s)" for obj
      using that reads_trans [OF r reads_load [OF ok assms(2)], of obj] load_object_address [OF that(1)] same None
      by (auto simp: object_at_def)
    have len: "length ?e < 2 ^ 63" using sdb_okD(1) [OF assms(1)] t(3) by (metis base_ok_def)
    obtain dr where dr: "DecodeBytes account_typ ?e = Some dr"
      using DecodeBytes_accepts [OF account_typ_wf len, of undefined] by blast
    show ?thesis
    proof (cases "?e = []")
      case True
      then show ?thesis using None Inl t by (intro absent) (auto simp: getDeletedStateObject_def load_object_def)
    next
      case False
      show ?thesis
      proof (cases dr)
        case (Inl err)
        then show ?thesis using None \<open>?snap = Inl u\<close> t dr False
          by (intro absent) (auto simp: getDeletedStateObject_def load_object_def Let_def)
      next
        case (Inr g)
        show ?thesis
        proof (cases "account_of_gval g")
          case None
          then show ?thesis using \<open>stateObjects s a = None\<close> \<open>?snap = Inl u\<close> t dr False Inr
            by (intro absent) (auto simp: getDeletedStateObject_def load_object_def Let_def)
        next
          case (Some d)
          then show ?thesis using \<open>stateObjects s a = None\<close> \<open>?snap = Inl u\<close> t dr False Inr
            by (intro present) (auto simp: getDeletedStateObject_def load_object_def Let_def)
        qed
      qed
    qed
  qed
qed

text \<open>The live object of an account, that is one that is not deleted.\<close>

definition live_at :: "state_env \<Rightarrow> StateDB \<Rightarrow> address \<Rightarrow> stateObject option" where
  "live_at env s a = (case object_at env s a of None \<Rightarrow> None | Some obj \<Rightarrow> if deleted obj then None else Some obj)"

lemma getStateObject_reads:
  assumes "sdb_ok env s" "length a = 20"
  shows "\<exists>s'. getStateObject env a s = Some (live_at env s a, s') \<and> reads env s s' \<and> stateObjects s' a = object_at env s a"
  using getDeletedStateObject_reads [OF assms] by (auto simp: getStateObject_def live_at_def)

end
