(* ===== verification/StateDB_Journal.thy ===== *)
theory StateDB_Journal
  imports StateDB_View
begin

text \<open>
  Undoing journal entries, seen from outside: what \<open>revert\<close> of an entry does to the view, and the
  relation between two states of which the later one is undone to the earlier one by its entries.
\<close>

subsection \<open>Entries on the view\<close>

definition code_of :: "state_env \<Rightarrow> bytes option \<Rightarrow> bytes \<Rightarrow> bytes option" where
  "code_of env code codeHash =
     (case code of
        Some c \<Rightarrow> Some c
      | None \<Rightarrow>
          if codeHash = emptyCodeHash env then None
          else case ContractCode env (BytesToHash codeHash) of Inl _ \<Rightarrow> None | Inr c \<Rightarrow> Some c)"

lemma code_view_code_of: "code_view env s = code_of env (o_code s) (acc_CodeHash (o_data s))"
  by (simp add: code_view_def code_of_def cong: case_congs)

lemma code_of_idem: "code_of env (code_of env c h) h = code_of env c h"
  by (auto simp: code_of_def split: option.split sum.split)

fun arevert :: "state_env \<Rightarrow> journalEntry \<Rightarrow> account_view \<Rightarrow> account_view option" where
  "arevert env (balanceChange _ b) v = Some (v\<lparr>v_balance := b\<rparr>)"
| "arevert env (nonceChange _ n) v = Some (v\<lparr>v_nonce := n\<rparr>)"
| "arevert env (storageChange _ k x) v = Some (v\<lparr>v_state := (v_state v)(k := x)\<rparr>)"
| "arevert env (codeChange _ c h) v =
     Some (v\<lparr>v_codeHash := BytesToHash h, v_code := code_of env c (BytesToHash h)\<rparr>)"
| "arevert env (suicideChange _ p b) v = Some (v\<lparr>v_suicided := p, v_balance := b\<rparr>)"
| "arevert env _ v = None"

fun vrevert :: "state_env \<Rightarrow> snapshot_layer option \<Rightarrow> journalEntry \<Rightarrow> ledger_view \<Rightarrow> ledger_view option" where
  "vrevert env snap (createObjectChange a) w =
     Some (w\<lparr>w_account := (w_account w)(a := None), w_dirty := w_dirty w - {a}\<rparr>)"
| "vrevert env snap (resetObjectChange prev pd) w =
     (let ds = (if \<not> pd \<and> snap \<noteq> None then w_destructs w - {o_addrHash prev} else w_destructs w)
      in Some (w\<lparr>w_destructs := ds,
           w_account := (w_account w)(o_address prev \<mapsto> obj_view env snap (o_addrHash prev \<in> ds) prev)\<rparr>))"
| "vrevert env snap (refundChange r) w = Some (w\<lparr>w_refund := r\<rparr>)"
| "vrevert env snap (addLogChange h) w =
     (case w_logs w h of
        None \<Rightarrow> None
      | Some ls \<Rightarrow>
          if ls = [] then None
          else Some (w\<lparr>w_logs := (w_logs w)(h := if length ls = 1 then None else Some (butlast ls)),
                       w_logSize := w_logSize w - 1\<rparr>))"
| "vrevert env snap (addPreimageChange h) w = Some (w\<lparr>w_preimages := (w_preimages w)(h := None)\<rparr>)"
| "vrevert env snap (touchChange a) w = Some w"
| "vrevert env snap (accessListAddAccountChange a) w = Some (w\<lparr>w_accessList := DeleteAddress a (w_accessList w)\<rparr>)"
| "vrevert env snap (accessListAddSlotChange a slot) w =
     map_option (\<lambda>al. w\<lparr>w_accessList := al\<rparr>) (DeleteSlot a slot (w_accessList w))"
| "vrevert env snap e w =
     (case dirtied e of
        None \<Rightarrow> None
      | Some a \<Rightarrow>
          (case w_account w a of
             None \<Rightarrow> None
           | Some v \<Rightarrow>
               if v_deleted v then None
               else map_option (\<lambda>v. w\<lparr>w_account := (w_account w)(a \<mapsto> v)\<rparr>) (arevert env e v)))"

text \<open>Marks of dirty accounts.\<close>

definition vdirty :: "journalEntry \<Rightarrow> ledger_view \<Rightarrow> ledger_view" where
  "vdirty e w =
     (case dirtied e of
        None \<Rightarrow> w
      | Some a \<Rightarrow>
          if a = ripemd then w
          else w\<lparr>w_dirties := (w_dirties w)(a \<mapsto> (case w_dirties w a of None \<Rightarrow> 0 | Some n \<Rightarrow> n) + 1)\<rparr>)"

definition vundirty :: "journalEntry \<Rightarrow> ledger_view \<Rightarrow> ledger_view" where
  "vundirty e w =
     (case dirtied e of
        None \<Rightarrow> w
      | Some a \<Rightarrow>
          if a = ripemd then w
          else let n = (case w_dirties w a of None \<Rightarrow> 0 | Some n \<Rightarrow> n) - 1
               in w\<lparr>w_dirties := (w_dirties w)(a := if n = 0 then None else Some n)\<rparr>)"

fun vreverts :: "state_env \<Rightarrow> snapshot_layer option \<Rightarrow> journalEntry list \<Rightarrow> ledger_view \<Rightarrow> ledger_view option" where
  "vreverts env snap [] w = Some w"
| "vreverts env snap (e # es) w =
     (case vrevert env snap e w of None \<Rightarrow> None | Some w \<Rightarrow> vreverts env snap es (vundirty e w))"

lemma vreverts_append:
  "vreverts env snap (es @ es') w =
     (case vreverts env snap es w of None \<Rightarrow> None | Some w \<Rightarrow> vreverts env snap es' w)"
  by (induction es arbitrary: w) (auto split: option.splits)

lemma vdirty_simps [simp]:
  "w_account (vdirty e w) = w_account w" "w_destructs (vdirty e w) = w_destructs w"
  "w_pending (vdirty e w) = w_pending w" "w_dirty (vdirty e w) = w_dirty w" "w_refund (vdirty e w) = w_refund w"
  "w_logs (vdirty e w) = w_logs w" "w_logSize (vdirty e w) = w_logSize w"
  "w_preimages (vdirty e w) = w_preimages w" "w_accessList (vdirty e w) = w_accessList w"
  "w_thash (vdirty e w) = w_thash w" "w_txIndex (vdirty e w) = w_txIndex w"
  by (simp_all add: vdirty_def split: option.splits)

lemma vundirty_vdirty:
  assumes "view_ok w"
  shows "vundirty e (vdirty e w) = w"
proof (cases "dirtied e")
  case (Some a)
  show ?thesis
  proof (cases "w_dirties w a")
    case None
    then show ?thesis using Some by (cases w) (simp add: vdirty_def vundirty_def fun_upd_idem)
  next
    case (Some n)
    then have "n > 0" using assms by (simp add: view_ok_def)
    then show ?thesis using Some \<open>dirtied e = Some a\<close>
      by (cases w) (simp add: vdirty_def vundirty_def Let_def fun_upd_idem)
  qed
qed (simp add: vdirty_def vundirty_def)

lemma vdirty_ok:
  assumes "view_ok w"
  shows "view_ok (vdirty e w)"
proof -
  have "0 < n" if "w_dirties (vdirty e w) a = Some n" for a n
    using that assms by (fastforce simp: vdirty_def view_ok_def split: option.splits if_splits)
  then show ?thesis using assms by (simp add: view_ok_def)
qed

subsection \<open>Changes of objects\<close>

text \<open>What the setters of an object do to its view. Only the scalar fields of the view change when the
  caches, the trie and the code stay.\<close>

lemma obj_view_scalars:
  assumes "pendingStorage s' = pendingStorage s" "originStorage s' = originStorage s" "dirtyStorage s' = dirtyStorage s"
    and "o_addrHash s' = o_addrHash s" "o_trie s' = o_trie s" "o_code s' = o_code s"
    and "acc_Root (o_data s') = acc_Root (o_data s)" "acc_CodeHash (o_data s') = acc_CodeHash (o_data s)"
  shows "obj_view env snap d s' = (obj_view env snap d s)\<lparr>v_nonce := acc_Nonce (o_data s'),
    v_balance := acc_Balance (o_data s'), v_suicided := suicided s', v_deleted := deleted s'\<rparr>"
proof -
  have m: "committed_view env snap d s' = committed_view env snap d s"
    using assms by (intro committed_view_cong storage_read_cong) simp_all
  then have "state_view env snap d s' = state_view env snap d s" using assms by (intro state_view_cong) simp_all
  moreover have "code_view env s' = code_view env s" using assms by (intro code_view_cong) simp_all
  ultimately show ?thesis using assms m by (simp add: obj_view_def)
qed

lemma obj_setBalance_view [simp]:
  "obj_view env snap d (obj_setBalance b s) = (obj_view env snap d s)\<lparr>v_balance := b\<rparr>"
  "obj_ok env (obj_setBalance b s) = obj_ok env s" "o_address (obj_setBalance b s) = o_address s"
  "o_addrHash (obj_setBalance b s) = o_addrHash s" "deleted (obj_setBalance b s) = deleted s"
  using obj_view_scalars [of "obj_setBalance b s" s] obj_ok_cong [of "obj_setBalance b s" s]
  by (simp_all add: obj_setBalance_def obj_view_def)

lemma obj_setNonce_view [simp]:
  "obj_view env snap d (obj_setNonce n s) = (obj_view env snap d s)\<lparr>v_nonce := n\<rparr>"
  "obj_ok env (obj_setNonce n s) = obj_ok env s" "o_address (obj_setNonce n s) = o_address s"
  "o_addrHash (obj_setNonce n s) = o_addrHash s" "deleted (obj_setNonce n s) = deleted s"
  using obj_view_scalars [of "obj_setNonce n s" s] obj_ok_cong [of "obj_setNonce n s" s]
  by (simp_all add: obj_setNonce_def obj_view_def)

lemma obj_suicided_view [simp]:
  "obj_view env snap d (s\<lparr>suicided := b\<rparr>) = (obj_view env snap d s)\<lparr>v_suicided := b\<rparr>"
  "obj_ok env (s\<lparr>suicided := b\<rparr>) = obj_ok env s"
  using obj_view_scalars [of "s\<lparr>suicided := b\<rparr>" s] obj_ok_cong [of "s\<lparr>suicided := b\<rparr>" s]
  by (simp_all add: obj_view_def)

lemma obj_setState_view [simp]:
  "obj_view env snap d (obj_setState k x s) =
     (obj_view env snap d s)\<lparr>v_state := (v_state (obj_view env snap d s))(k := x)\<rparr>"
  "obj_ok env (obj_setState k x s) = obj_ok env s" "o_address (obj_setState k x s) = o_address s"
  "o_addrHash (obj_setState k x s) = o_addrHash s" "deleted (obj_setState k x s) = deleted s"
proof -
  let ?s = "obj_setState k x s"
  have c: "code_view env ?s = code_view env s" by (rule code_view_cong) (simp_all add: obj_setState_def)
  have m: "committed_view env snap d ?s = committed_view env snap d s"
    by (intro committed_view_cong storage_read_cong) (simp_all add: obj_setState_def)
  have "dirtyStorage ?s = (dirtyStorage s)(k \<mapsto> x)" by (simp add: obj_setState_def)
  with m have "state_view env snap d ?s = (state_view env snap d s)(k := x)"
    by (auto simp: state_view_def cong: case_congs)
  with c m show "obj_view env snap d ?s =
     (obj_view env snap d s)\<lparr>v_state := (v_state (obj_view env snap d s))(k := x)\<rparr>"
    by (simp add: obj_view_def) (simp add: obj_setState_def)
  show "obj_ok env ?s = obj_ok env s" by (rule obj_ok_cong) (simp_all add: obj_setState_def)
qed (simp_all add: obj_setState_def)

lemma obj_setCode_view [simp]:
  "obj_view env snap d (obj_setCode h c s) = (obj_view env snap d s)\<lparr>v_codeHash := h, v_code := code_of env c h\<rparr>"
  "length h = 32 \<Longrightarrow> obj_ok env s \<Longrightarrow> obj_ok env (obj_setCode h c s)"
  "o_address (obj_setCode h c s) = o_address s" "o_addrHash (obj_setCode h c s) = o_addrHash s"
  "deleted (obj_setCode h c s) = deleted s"
proof -
  let ?s = "obj_setCode h c s"
  have "committed_view env snap d ?s = committed_view env snap d s"
    by (intro committed_view_cong storage_read_cong) (simp_all add: obj_setCode_def)
  then show "obj_view env snap d ?s = (obj_view env snap d s)\<lparr>v_codeHash := h, v_code := code_of env c h\<rparr>"
    using state_view_cong [of ?s s] by (simp add: obj_view_def code_view_code_of obj_setCode_def)
  show "obj_ok env ?s" if "length h = 32" "obj_ok env s"
    using that by (simp add: obj_setCode_def obj_ok_def cong: case_congs)
qed (simp_all add: obj_setCode_def)

lemma obj_view_select [simp]:
  "v_deleted (obj_view env snap d s) = deleted s" "v_balance (obj_view env snap d s) = acc_Balance (o_data s)"
  "v_nonce (obj_view env snap d s) = acc_Nonce (o_data s)" "v_suicided (obj_view env snap d s) = suicided s"
  "v_codeHash (obj_view env snap d s) = acc_CodeHash (o_data s)" "v_code (obj_view env snap d s) = code_view env s"
  "v_state (obj_view env snap d s) = state_view env snap d s"
  "v_committed (obj_view env snap d s) = committed_view env snap d s"
  by (simp_all add: obj_view_def)

lemma obj_view_restore [simp]:
  "(obj_view env snap d s)\<lparr>v_balance := acc_Balance (o_data s)\<rparr> = obj_view env snap d s"
  "(obj_view env snap d s)\<lparr>v_nonce := acc_Nonce (o_data s)\<rparr> = obj_view env snap d s"
  "(obj_view env snap d s)\<lparr>v_balance := acc_Balance (o_data s), v_suicided := suicided s\<rparr> = obj_view env snap d s"
  "(obj_view env snap d s)\<lparr>v_suicided := suicided s, v_balance := acc_Balance (o_data s)\<rparr> = obj_view env snap d s"
  "(obj_view env snap d s)\<lparr>v_state := state_view env snap d s\<rparr> = obj_view env snap d s"
  "(obj_view env snap d s)\<lparr>v_codeHash := acc_CodeHash (o_data s), v_code := code_view env s\<rparr> = obj_view env snap d s"
  by (simp_all add: obj_view_def)

subsection \<open>Reverting\<close>

text \<open>A state that undoing an entry may leave: the journal and the revisions are as they were.\<close>

definition undone :: "state_env \<Rightarrow> StateDB \<Rightarrow> StateDB \<Rightarrow> bool" where
  "undone env s s' \<longleftrightarrow> sdb_ok env s' \<and> same_base env s s' \<and> frame s s'"

lemma undone_trans: "undone env s s' \<Longrightarrow> undone env s' s'' \<Longrightarrow> undone env s s''"
  using same_base_trans by (auto simp: undone_def frame_def)

lemma reads_undone: "reads env s s' \<Longrightarrow> undone env s s'"
  by (simp add: reads_def undone_def)

lemma object_at_view:
  "length a = 20 \<Longrightarrow> w_account (sdb_view env s) a = Some v \<longleftrightarrow>
     (\<exists>obj. object_at env s a = Some obj \<and> v = show_object env s obj)"
  by (auto simp: sdb_view_def)

lemma live_at_view:
  "length a = 20 \<Longrightarrow> w_account (sdb_view env s) a = Some v \<Longrightarrow> \<not> v_deleted v \<Longrightarrow>
     \<exists>obj. object_at env s a = Some obj \<and> live_at env s a = Some obj \<and> v = show_object env s obj"
  by (auto simp: object_at_view live_at_def show_object_def)

lemma change_object:
  assumes "sdb_ok env s" "length (o_address obj') = 20" "obj_ok env obj'"
  shows "undone env s (setStateObject obj' s) \<and> sdb_view env (setStateObject obj' s) =
    (sdb_view env s)\<lparr>w_account := (w_account (sdb_view env s))(o_address obj' \<mapsto> show_object env s obj')\<rparr>"
  using setStateObject_ok [OF assms] setStateObject_view [OF assms(2)] by (simp add: undone_def frame_def)

lemma read_then_change:
  assumes "sdb_ok env s" "length a = 20" "object_at env s a = Some obj"
    and "o_address (f obj) = o_address obj" "obj_ok env (f obj)" "show_object env s (f obj) = g (show_object env s obj)"
    and "reads env s s1"
  shows "undone env s (setStateObject (f obj) s1) \<and> sdb_view env (setStateObject (f obj) s1) =
    (sdb_view env s)\<lparr>w_account := (w_account (sdb_view env s))(a \<mapsto> g (show_object env s obj))\<rparr>"
proof -
  have r: "sdb_ok env s1" "sdb_view env s1 = sdb_view env s" "undone env s s1"
    using assms(7) reads_undone by (auto simp: reads_def)
  then have "show_object env s1 = show_object env s"
    using assms(7) by (intro show_object_cong) (auto simp: reads_def same_base_def sdb_view_def)
  with change_object [OF r(1), of "f obj"] r object_ok_at [OF assms(1-3)] assms undone_trans [OF r(3)]
  show ?thesis by simp
qed

lemma with_object_view:
  assumes "sdb_ok env s" "length a = 20" "w_account (sdb_view env s) a = Some v" "\<not> v_deleted v"
    and f: "\<And>obj. obj_ok env obj \<Longrightarrow> o_address (f obj) = o_address obj \<and> o_addrHash (f obj) = o_addrHash obj \<and>
      obj_ok env (f obj) \<and> (\<forall>d. obj_view env (s_snap s) d (f obj) = g (obj_view env (s_snap s) d obj))"
  shows "\<exists>s'. with_object env a f s = Some s' \<and> undone env s s' \<and>
    sdb_view env s' = (sdb_view env s)\<lparr>w_account := (w_account (sdb_view env s))(a \<mapsto> g v)\<rparr>"
proof -
  from live_at_view [OF assms(2-4)] obtain obj where
    obj: "object_at env s a = Some obj" "live_at env s a = Some obj" "v = show_object env s obj" by blast
  from getStateObject_reads [OF assms(1,2)] obtain s1 where
    s1: "getStateObject env a s = Some (Some obj, s1)" "reads env s s1" using obj by auto
  have "show_object env s (f obj) = g v"
    using f [OF object_ok_at(1) [OF assms(1,2) obj(1)]] obj(3) by (simp add: show_object_def)
  with read_then_change [OF assms(1,2) obj(1) _ _ _ s1(2), of f g] f [OF object_ok_at(1) [OF assms(1,2) obj(1)]] s1(1) obj(3)
  show ?thesis by (simp add: with_object_def)
qed

text \<open>The set of destructed accounts concerns one account only, because their digests differ.\<close>

lemma obj_view_no_snap: "obj_view env None d s = obj_view env None d' s"
proof -
  have "committed_view env None d s = committed_view env None d' s" by (rule ext) (simp add: committed_view_def)
  moreover from this have "state_view env None d s = state_view env None d' s"
    by (intro ext) (simp only: state_view_def)
  ultimately show ?thesis by (simp only: obj_view_def)
qed

lemma reset_view:
  assumes "sdb_ok env s" "length (o_address obj) = 20" "obj_ok env obj"
    and "\<And>h. h \<noteq> o_addrHash obj \<Longrightarrow> h \<in> D \<longleftrightarrow> h \<in> snapDestructs s"
  shows "undone env s ((setStateObject obj s)\<lparr>snapDestructs := D\<rparr>) \<and>
    sdb_view env ((setStateObject obj s)\<lparr>snapDestructs := D\<rparr>) = (sdb_view env s)\<lparr>w_destructs := D,
      w_account := (w_account (sdb_view env s))(o_address obj \<mapsto> obj_view env (s_snap s) (o_addrHash obj \<in> D) obj)\<rparr>"
proof -
  let ?s = "(setStateObject obj s)\<lparr>snapDestructs := D\<rparr>"
  note s1 = setStateObject_ok [OF assms(1-3)]
  have sb: "same_base env (setStateObject obj s) ?s" using sdb_okD(7) [OF s1(1)] by (simp add: same_base_def)
  have ok: "sdb_ok env ?s" by (rule sdb_ok_cong [OF s1(1) sb]) simp_all
  have "object_at env ?s = object_at env (setStateObject obj s)"
    by (rule object_at_cong [OF load_object_same [OF sb]]) simp
  then have at: "object_at env ?s a = (if a = o_address obj then Some obj else object_at env s a)" for a
    by (simp add: object_at_set)
  have other: "show_object env ?s obj' = show_object env s obj'"
    if a: "length a = 20" "a \<noteq> o_address obj" "object_at env s a = Some obj'" for a obj'
  proof (cases "s_snap s = None")
    case True
    then show ?thesis using obj_view_no_snap by (simp add: show_object_def)
  next
    case False
    then have "inj_on (keccak env) {a. length a = 20}" by (rule sdb_ok_inj [OF assms(1)])
    then have "o_addrHash obj' \<noteq> o_addrHash obj"
      using object_ok_at [OF assms(1) a(1,3)] a(1,2) assms(2,3) by (auto simp: obj_ok_def dest: inj_onD)
    then show ?thesis using assms(4) by (simp add: show_object_def)
  qed
  have acc: "w_account (sdb_view env ?s) =
      (w_account (sdb_view env s))(o_address obj \<mapsto> obj_view env (s_snap s) (o_addrHash obj \<in> D) obj)"
  proof
    fix a show "w_account (sdb_view env ?s) a =
      ((w_account (sdb_view env s))(o_address obj \<mapsto> obj_view env (s_snap s) (o_addrHash obj \<in> D) obj)) a"
      using other [of a] assms(2) by (cases "object_at env s a") (auto simp: sdb_view_def at show_object_def)
  qed
  have "sdb_view env ?s = (sdb_view env s)\<lparr>w_destructs := D, w_account := w_account (sdb_view env ?s)\<rparr>"
    by (simp add: sdb_view_def)
  then show ?thesis
    unfolding acc using ok same_base_trans [OF s1(2) sb] by (simp add: undone_def frame_def)
qed

lemma revert_account:
  assumes "sdb_ok env s" "entry_ok env s e" "arevert env e v = Some v'" "dirtied e = Some a"
    and "w_account (sdb_view env s) a = Some v" "\<not> v_deleted v"
  shows "\<exists>s'. revert_entry env e s = Some s' \<and> undone env s s' \<and>
    sdb_view env s' = (sdb_view env s)\<lparr>w_account := (w_account (sdb_view env s))(a \<mapsto> v')\<rparr>"
proof (cases e)
  case (suicideChange a' p b)
  then have a: "a' = a" "length a = 20" using assms by simp_all
  let ?f = "\<lambda>obj. obj_setBalance b (obj\<lparr>suicided := p\<rparr>)"
  have "\<exists>s'. with_object env a ?f s = Some s' \<and> undone env s s' \<and>
    sdb_view env s' = (sdb_view env s)\<lparr>w_account := (w_account (sdb_view env s))(a \<mapsto> v')\<rparr>"
    using with_object_view [OF assms(1) a(2) assms(5,6), of ?f "\<lambda>v. v\<lparr>v_suicided := p, v_balance := b\<rparr>"]
      assms(3) suicideChange by simp
  then show ?thesis
    by (auto simp: suicideChange a with_object_def split: option.splits Option.bind_splits prod.splits)
next
  case (balanceChange a' b)
  then show ?thesis
    using with_object_view [OF assms(1) _ assms(5,6), of "obj_setBalance b" "\<lambda>v. v\<lparr>v_balance := b\<rparr>"] assms(2-4) by simp
next
  case (nonceChange a' n)
  then show ?thesis
    using with_object_view [OF assms(1) _ assms(5,6), of "obj_setNonce n" "\<lambda>v. v\<lparr>v_nonce := n\<rparr>"] assms(2-4) by simp
next
  case (storageChange a' k x)
  then show ?thesis
    using with_object_view [OF assms(1) _ assms(5,6), of "obj_setState k x" "\<lambda>v. v\<lparr>v_state := (v_state v)(k := x)\<rparr>"]
      assms(2-4) by simp
next
  case (codeChange a' c h)
  then show ?thesis
    using with_object_view [OF assms(1) _ assms(5,6), of "obj_setCode (BytesToHash h) c"
        "\<lambda>v. v\<lparr>v_codeHash := BytesToHash h, v_code := code_of env c (BytesToHash h)\<rparr>"] assms(2-4) by simp
qed (use assms in auto)

text \<open>Fields that are not part of the base may change freely.\<close>

lemma undone_fields:
  assumes "sdb_ok env s" "s_trie s' = s_trie s" "s_snap s' = s_snap s" "stateObjects s' = stateObjects s"
    and "stateObjectsPending s' = stateObjectsPending s" "stateObjectsDirty s' = stateObjectsDirty s" "frame s s'"
  shows "undone env s s'"
proof -
  have sb: "same_base env s s'" using assms(2,3) sdb_okD(7) [OF assms(1)] by (simp add: same_base_def)
  have "sdb_ok env s'" by (rule sdb_ok_cong [OF assms(1) sb]) (use assms in \<open>simp_all add: frame_def\<close>)
  then show ?thesis using sb assms(7) by (simp add: undone_def)
qed

lemma view_fields:
  assumes "s_trie s' = s_trie s" "s_snap s' = s_snap s" "stateObjects s' = stateObjects s" "snapDestructs s' = snapDestructs s"
  shows "w_account (sdb_view env s') = w_account (sdb_view env s)"
  using show_object_cong [of s' s env] object_at_cong [OF load_object_cong, of s' s env] assms
  by (simp add: sdb_view_def cong: if_cong)

lemma revert_create:
  assumes "sdb_ok env s" "length a = 20" "load_object env s a = None" "a \<notin> stateObjectsPending s"
  defines "s' \<equiv> s\<lparr>stateObjects := (stateObjects s)(a := None), stateObjectsDirty := stateObjectsDirty s - {a}\<rparr>"
  shows "undone env s s' \<and> sdb_view env s' =
    (sdb_view env s)\<lparr>w_account := (w_account (sdb_view env s))(a := None), w_dirty := w_dirty (sdb_view env s) - {a}\<rparr>"
proof -
  have sb: "same_base env s s'" using sdb_okD(7) [OF assms(1)] by (simp add: s'_def same_base_def)
  have "objects_ok env s'" using sdb_okD(2) [OF assms(1)] by (auto simp: objects_ok_def s'_def)
  moreover have "stateObjectsPending s' \<union> stateObjectsDirty s' \<subseteq> dom (stateObjects s')"
    using sdb_okD(3,4) [OF assms(1)] assms(4) by (auto simp: s'_def)
  moreover have "\<forall>e \<in> set (entries (s_journal s')). entry_ok env s' e"
    using sdb_okD(5) [OF assms(1)] entry_ok_same [OF sb] by (simp add: s'_def)
  ultimately have ok: "sdb_ok env s'" using base_ok_same [OF sb sdb_okD(1) [OF assms(1)]] by (simp add: sdb_ok_def)
  have "object_at env s' b = (if b = a then None else object_at env s b)" for b
    using load_object_same [OF sb] assms(3) by (simp add: object_at_def s'_def cong: case_congs)
  moreover have "show_object env s' = show_object env s" by (rule show_object_cong) (simp_all add: s'_def)
  ultimately have "w_account (sdb_view env s') = (w_account (sdb_view env s))(a := None)" by (auto simp: sdb_view_def)
  moreover have "sdb_view env s' = (sdb_view env s)\<lparr>w_account := w_account (sdb_view env s'),
      w_dirty := w_dirty (sdb_view env s) - {a}\<rparr>" by (simp add: sdb_view_def s'_def)
  ultimately show ?thesis using ok sb by (simp add: undone_def frame_def s'_def)
qed

lemma revert_entry_view:
  assumes "sdb_ok env s" "entry_ok env s e" "vrevert env (s_snap s) e (sdb_view env s) = Some w"
  shows "\<exists>s'. revert_entry env e s = Some s' \<and> undone env s s' \<and> sdb_view env s' = w"
proof -
  have fields: ?thesis if "revert_entry env e s = Some s'" "s_trie s' = s_trie s" "s_snap s' = s_snap s"
    "stateObjects s' = stateObjects s" "snapDestructs s' = snapDestructs s" "stateObjectsPending s' = stateObjectsPending s"
    "stateObjectsDirty s' = stateObjectsDirty s" "frame s s'"
    "w = (sdb_view env s')\<lparr>w_account := w_account (sdb_view env s)\<rparr>" for s'
    using that undone_fields [OF assms(1), of s'] view_fields [of s' s env] by simp
  have account: ?thesis if "dirtied e = Some a" "w_account (sdb_view env s) a = Some v" "\<not> v_deleted v"
    "arevert env e v = Some v'" "w = (sdb_view env s)\<lparr>w_account := (w_account (sdb_view env s))(a \<mapsto> v')\<rparr>" for a v v'
    using that revert_account [OF assms(1,2) that(4,1,2,3)] by simp
  show ?thesis
  proof (cases e)
    case (createObjectChange a)
    then show ?thesis using revert_create [OF assms(1), of a] assms(2,3) by simp
  next
    case (resetObjectChange prev pd)
    let ?D = "if \<not> pd \<and> s_snap s \<noteq> None then snapDestructs s - {o_addrHash prev} else snapDestructs s"
    have r: "revert_entry env e s = Some ((setStateObject prev s)\<lparr>snapDestructs := ?D\<rparr>)"
      by (simp add: resetObjectChange setStateObject_def)
    have w: "w = (sdb_view env s)\<lparr>w_destructs := ?D, w_account := (w_account (sdb_view env s))
        (o_address prev \<mapsto> obj_view env (s_snap s) (o_addrHash prev \<in> ?D) prev)\<rparr>"
      using assms(3) unfolding resetObjectChange vrevert.simps Let_def sdb_view_simps by (simp only: option.inject)
    have "undone env s ((setStateObject prev s)\<lparr>snapDestructs := ?D\<rparr>) \<and>
        sdb_view env ((setStateObject prev s)\<lparr>snapDestructs := ?D\<rparr>) = w"
      unfolding w using assms(2) resetObjectChange by (intro reset_view [OF assms(1)]) auto
    with r show ?thesis by blast
  next
    case (refundChange r)
    show ?thesis by (rule fields [of "s\<lparr>refund := r\<rparr>"]) (use assms(3) refundChange in \<open>simp_all add: frame_def sdb_view_def\<close>)
  next
    case (addLogChange h)
    then obtain ls where "logs s h = Some ls" "ls \<noteq> []"
      using assms(3) by (auto simp: sdb_view_def split: option.splits if_splits)
    then show ?thesis using addLogChange assms(3)
      by (intro fields [of "s\<lparr>logs := (logs s)(h := if length ls = 1 then None else Some (butlast ls)), logSize := logSize s - 1\<rparr>"])
        (auto simp: frame_def sdb_view_def)
  next
    case (addPreimageChange h)
    show ?thesis by (rule fields [of "s\<lparr>preimages := (preimages s)(h := None)\<rparr>"])
      (use assms(3) addPreimageChange in \<open>simp_all add: frame_def sdb_view_def\<close>)
  next
    case (touchChange a)
    show ?thesis by (rule fields [of s]) (use assms(3) touchChange in \<open>simp_all add: frame_def sdb_view_def\<close>)
  next
    case (accessListAddAccountChange a)
    show ?thesis by (rule fields [of "s\<lparr>s_accessList := DeleteAddress a (s_accessList s)\<rparr>"])
      (use assms(3) accessListAddAccountChange in \<open>simp_all add: frame_def sdb_view_def\<close>)
  next
    case (accessListAddSlotChange a x)
    then obtain al where al: "DeleteSlot a x (s_accessList s) = Some al" "w = (sdb_view env s)\<lparr>w_accessList := al\<rparr>"
      using assms(3) by (auto simp: sdb_view_def)
    show ?thesis by (rule fields [of "s\<lparr>s_accessList := al\<rparr>"])
      (use al accessListAddSlotChange in \<open>simp_all add: frame_def sdb_view_def\<close>)
  qed (use assms(2,3) account in \<open>auto split: option.splits if_splits\<close>)
qed

end
