(* ===== verification/StateDB_Steps.thy ===== *)
theory StateDB_Steps
  imports StateDB_Journal
begin

text \<open>
  The operations of the state database as steps: each appends entries to the journal that undo what
  it changed in the view. The lemmas say what every operation returns and what the view is after it.
\<close>

subsection \<open>Undoing a list of entries\<close>

lemma journal_undirty_entries [simp]: "entries (journal_undirty e j) = entries j"
  by (simp add: journal_undirty_def Let_def split: option.splits)

lemma undirty_view:
  fixes e :: journalEntry
  assumes "sdb_ok env s"
  defines "s' \<equiv> s\<lparr>s_journal := journal_undirty e (s_journal s)\<rparr>"
  shows "sdb_ok env s'" "same_base env s s'" "sdb_view env s' = vundirty e (sdb_view env s)"
proof -
  show sb: "same_base env s s'" using sdb_okD(7) [OF assms(1)] by (simp add: s'_def same_base_def)
  show "sdb_ok env s'" by (rule sdb_ok_cong [OF assms(1) sb]) (simp_all add: s'_def)
  have acc: "w_account (sdb_view env s') = w_account (sdb_view env s)" by (rule view_fields) (simp_all add: s'_def)
  have "sdb_view env s' = (sdb_view env s)\<lparr>w_account := w_account (sdb_view env s'),
      w_dirties := (dirties (s_journal s'))(ripemd := None)\<rparr>" by (simp add: sdb_view_def s'_def)
  also have "\<dots> = (sdb_view env s)\<lparr>w_dirties := (dirties (s_journal s'))(ripemd := None)\<rparr>"
    unfolding acc by simp
  also have "\<dots> = vundirty e (sdb_view env s)"
    by (auto simp: s'_def journal_undirty_def vundirty_def Let_def sdb_view_def fun_upd_twist split: option.splits)
  finally show "sdb_view env s' = vundirty e (sdb_view env s)" .
qed

lemma revert_loop_view:
  assumes "sdb_ok env s" "\<forall>e \<in> set es. entry_ok env s e" "vreverts env (s_snap s) es (sdb_view env s) = Some w"
  shows "\<exists>s'. revert_loop env es s = Some s' \<and> sdb_view env s' = w \<and> sdb_ok env s' \<and> same_base env s s' \<and>
    entries (s_journal s') = entries (s_journal s) \<and> validRevisions s' = validRevisions s \<and>
    nextRevisionId s' = nextRevisionId s \<and> stateObjectsDestruct s' = stateObjectsDestruct s"
  using assms
proof (induction es arbitrary: s)
  case Nil
  then show ?case using sdb_okD(7) by simp
next
  case (Cons e es)
  then obtain w1 where w1: "vrevert env (s_snap s) e (sdb_view env s) = Some w1"
    "vreverts env (s_snap s) es (vundirty e w1) = Some w" by (auto split: option.splits)
  from revert_entry_view [OF Cons.prems(1) _ w1(1)] Cons.prems(2) obtain s1 where
    s1: "revert_entry env e s = Some s1" "undone env s s1" "sdb_view env s1 = w1" by auto
  then have u: "sdb_ok env s1" "same_base env s s1" "frame s s1" by (simp_all add: undone_def)
  let ?s = "s1\<lparr>s_journal := journal_undirty e (s_journal s1)\<rparr>"
  note v = undirty_view [OF u(1), of e]
  have sb: "same_base env s ?s" using same_base_trans [OF u(2) v(2)] .
  have "\<forall>e' \<in> set es. entry_ok env ?s e'"
    using Cons.prems(2) entry_ok_same [OF sb] u(3) by (simp add: frame_def)
  moreover have "vreverts env (s_snap ?s) es (sdb_view env ?s) = Some w"
    using w1(2) v(3) s1(3) u(2) by (simp add: same_base_def)
  ultimately obtain s' where "revert_loop env es ?s = Some s'" "sdb_view env s' = w" "sdb_ok env s'" "same_base env ?s s'"
    "entries (s_journal s') = entries (s_journal ?s)" "validRevisions s' = validRevisions ?s"
    "nextRevisionId s' = nextRevisionId ?s" "stateObjectsDestruct s' = stateObjectsDestruct ?s"
    using Cons.IH [OF v(1)] by blast
  then show ?case using s1(1) u(3) same_base_trans [OF sb, of s'] by (simp add: frame_def)
qed

lemma journal_revert_view:
  assumes "sdb_ok env s" "n \<le> length (entries (s_journal s))"
    and "vreverts env (s_snap s) (rev (drop n (entries (s_journal s)))) (sdb_view env s) = Some w"
  shows "\<exists>s'. journal_revert env n s = Some s' \<and> sdb_view env s' = w \<and> sdb_ok env s' \<and> same_base env s s' \<and>
    entries (s_journal s') = take n (entries (s_journal s)) \<and> validRevisions s' = validRevisions s \<and>
    nextRevisionId s' = nextRevisionId s \<and> stateObjectsDestruct s' = stateObjectsDestruct s"
proof -
  have "\<forall>e \<in> set (rev (drop n (entries (s_journal s)))). entry_ok env s e"
    using sdb_okD(5) [OF assms(1)] by (auto dest: in_set_dropD)
  from revert_loop_view [OF assms(1) this assms(3)] obtain s1 where
    s1: "revert_loop env (rev (drop n (entries (s_journal s)))) s = Some s1" "sdb_view env s1 = w" "sdb_ok env s1"
      "same_base env s s1" "entries (s_journal s1) = entries (s_journal s)" "validRevisions s1 = validRevisions s"
      "nextRevisionId s1 = nextRevisionId s" "stateObjectsDestruct s1 = stateObjectsDestruct s" by blast
  let ?s = "s1\<lparr>s_journal := (s_journal s1)\<lparr>entries := take n (entries (s_journal s))\<rparr>\<rparr>"
  have sb: "same_base env s1 ?s" using sdb_okD(7) [OF s1(3)] by (simp add: same_base_def)
  have "\<forall>e \<in> set (entries (s_journal ?s)). entry_ok env ?s e"
    using sdb_okD(5) [OF s1(3)] s1(5) entry_ok_same [OF sb] by (auto dest: in_set_takeD)
  then have "sdb_ok env ?s"
    using sdb_okD [OF s1(3)] base_ok_same [OF sb] by (simp add: sdb_ok_def objects_ok_def)
  moreover have "w_account (sdb_view env ?s) = w_account (sdb_view env s1)" by (rule view_fields) simp_all
  then have "sdb_view env ?s = sdb_view env s1" by (simp add: sdb_view_def)
  ultimately show ?thesis
    using s1 assms(2) same_base_trans [OF s1(4) sb] by (simp add: journal_revert_def)
qed

subsection \<open>Steps\<close>

definition good :: "state_env \<Rightarrow> StateDB \<Rightarrow> bool" where
  "good env s \<longleftrightarrow> sdb_ok env s \<and> view_ok (sdb_view env s)"

definition steps :: "state_env \<Rightarrow> StateDB \<Rightarrow> StateDB \<Rightarrow> bool" where
  "steps env s s' \<longleftrightarrow> good env s' \<and> same_base env s s' \<and> validRevisions s' = validRevisions s \<and>
     nextRevisionId s' = nextRevisionId s \<and> stateObjectsDestruct s' = stateObjectsDestruct s \<and>
     (\<exists>es. entries (s_journal s') = entries (s_journal s) @ es \<and>
        vreverts env (s_snap s) (rev es) (sdb_view env s') = Some (sdb_view env s))"

lemma goodD: "good env s \<Longrightarrow> sdb_ok env s" "good env s \<Longrightarrow> view_ok (sdb_view env s)"
  by (simp_all add: good_def)

lemma stepsD: "steps env s s' \<Longrightarrow> good env s'" "steps env s s' \<Longrightarrow> s_snap s' = s_snap s"
  by (simp_all add: steps_def same_base_def)

lemma steps_trans:
  assumes "steps env s s'" "steps env s' s''"
  shows "steps env s s''"
proof -
  from assms obtain es es' where
    "entries (s_journal s') = entries (s_journal s) @ es" "entries (s_journal s'') = entries (s_journal s') @ es'"
    "vreverts env (s_snap s) (rev es) (sdb_view env s') = Some (sdb_view env s)"
    "vreverts env (s_snap s') (rev es') (sdb_view env s'') = Some (sdb_view env s')"
    by (auto simp: steps_def)
  then have "entries (s_journal s'') = entries (s_journal s) @ (es @ es')"
    "vreverts env (s_snap s) (rev (es @ es')) (sdb_view env s'') = Some (sdb_view env s)"
    using stepsD(2) [OF assms(1)] by (simp_all add: vreverts_append)
  with assms same_base_trans show ?thesis unfolding steps_def by (metis (full_types))
qed

lemma reads_steps: "good env s \<Longrightarrow> reads env s s' \<Longrightarrow> steps env s s'"
  by (auto simp: steps_def good_def reads_def frame_def)

lemma steps_refl [simp]: "good env s \<Longrightarrow> steps env s s"
  using reads_steps reads_refl goodD(1) by blast

subsection \<open>Appending an entry\<close>

lemma log_change_simps [simp]:
  "s_trie (log_change e s) = s_trie s" "s_snap (log_change e s) = s_snap s"
  "snapDestructs (log_change e s) = snapDestructs s" "stateObjects (log_change e s) = stateObjects s"
  "stateObjectsPending (log_change e s) = stateObjectsPending s"
  "stateObjectsDirty (log_change e s) = stateObjectsDirty s"
  "stateObjectsDestruct (log_change e s) = stateObjectsDestruct s"
  "refund (log_change e s) = refund s" "logs (log_change e s) = logs s" "logSize (log_change e s) = logSize s"
  "preimages (log_change e s) = preimages s" "s_accessList (log_change e s) = s_accessList s"
  "thash (log_change e s) = thash s" "txIndex (log_change e s) = txIndex s"
  "validRevisions (log_change e s) = validRevisions s" "nextRevisionId (log_change e s) = nextRevisionId s"
  "entries (s_journal (log_change e s)) = entries (s_journal s) @ [e]"
  by (simp_all add: log_change_def journal_append_def journal_dirty_def Let_def split: option.splits)

lemma log_change_view:
  "sdb_view env (log_change e s) = vdirty e (sdb_view env s)"
proof -
  have acc: "w_account (sdb_view env (log_change e s)) = w_account (sdb_view env s)" by (rule view_fields) simp_all
  have d: "(dirties (s_journal (log_change e s)))(ripemd := None) = w_dirties (vdirty e (sdb_view env s))"
    by (auto simp: log_change_def journal_append_def journal_dirty_def vdirty_def Let_def fun_upd_twist split: option.splits)
  have "sdb_view env (log_change e s) = (sdb_view env s)\<lparr>w_account := w_account (sdb_view env (log_change e s)),
      w_dirties := (dirties (s_journal (log_change e s)))(ripemd := None)\<rparr>" by (simp add: sdb_view_def)
  also have "\<dots> = vdirty e (sdb_view env s)" unfolding acc d by (simp add: vdirty_def split: option.splits)
  finally show ?thesis .
qed

lemma log_change_ok:
  assumes "sdb_ok env s" "entry_ok env s e"
  shows "sdb_ok env (log_change e s)" "same_base env s (log_change e s)"
proof -
  show sb: "same_base env s (log_change e s)" using sdb_okD(7) [OF assms(1)] by (simp add: same_base_def)
  have "\<forall>e' \<in> set (entries (s_journal (log_change e s))). entry_ok env (log_change e s) e'"
    using sdb_okD(5) [OF assms(1)] assms(2) entry_ok_same [OF sb] by auto
  then show "sdb_ok env (log_change e s)"
    using sdb_okD [OF assms(1)] base_ok_same [OF sb] by (simp add: sdb_ok_def objects_ok_def)
qed

text \<open>One entry, and a change of the view that it undoes.\<close>

lemma single_step:
  assumes "good env s" "entry_ok env s e" "undone env (log_change e s) s'"
    and "view_ok (sdb_view env s')" "vrevert env (s_snap s) e (sdb_view env s') = Some w" "vundirty e w = sdb_view env s"
  shows "steps env s s'"
  using assms log_change_ok [OF goodD(1) [OF assms(1)] assms(2)] same_base_trans
  by (auto simp: steps_def good_def undone_def frame_def)

lemma vrevert_account:
  "arevert env e v = Some v' \<Longrightarrow> dirtied e = Some a \<Longrightarrow> w_account w a = Some v \<Longrightarrow> \<not> v_deleted v \<Longrightarrow>
   vrevert env snap e w = Some (w\<lparr>w_account := (w_account w)(a \<mapsto> v')\<rparr>)"
  by (cases e) auto

lemma change_steps:
  assumes "good env s" "stateObjects s a = Some obj" "o_address obj' = a" "obj_ok env obj'" "\<not> deleted obj'"
    and "dirtied e = Some a" "entry_ok env s e" "arevert env e (show_object env s obj') = Some (show_object env s obj)"
  defines "s' \<equiv> setStateObject obj' (log_change e s)"
  shows "steps env s s' \<and> w_account (sdb_view env s') = (w_account (sdb_view env s))(a \<mapsto> show_object env s obj')"
proof -
  let ?s = "log_change e s"
  note ok = goodD(1) [OF assms(1)]
  have a: "length a = 20" using assms(2) sdb_okD(2) [OF ok] by (auto simp: objects_ok_def)
  have sh: "show_object env ?s = show_object env s" by (rule show_object_cong) simp_all
  have ch: "undone env ?s s'" "sdb_view env s' =
      (vdirty e (sdb_view env s))\<lparr>w_account := (w_account (sdb_view env s))(a \<mapsto> show_object env s obj')\<rparr>"
    using change_object [OF log_change_ok(1) [OF ok assms(7)], of obj'] a assms(3,4) sh
    by (simp_all add: s'_def log_change_view)
  have w: "w_account (sdb_view env s) a = Some (show_object env s obj)"
    using assms(2) a by (simp add: sdb_view_def object_at_def)
  have "\<not> v_deleted (show_object env s obj')" using assms(5) by (simp add: show_object_def)
  then have "vrevert env (s_snap s) e (sdb_view env s') =
      Some ((sdb_view env s')\<lparr>w_account := (w_account (sdb_view env s'))(a \<mapsto> show_object env s obj)\<rparr>)"
    using assms(6,8) ch(2) by (intro vrevert_account) simp_all
  also have "(sdb_view env s')\<lparr>w_account := (w_account (sdb_view env s'))(a \<mapsto> show_object env s obj)\<rparr> = vdirty e (sdb_view env s)"
    using ch(2) w by (simp add: fun_upd_idem)
  finally have "steps env s s'"
    using ch(2) vdirty_ok [OF goodD(2) [OF assms(1)], of e] vundirty_vdirty [OF goodD(2) [OF assms(1)]]
    by (intro single_step [OF assms(1,7) ch(1)]) (simp_all add: view_ok_def)
  then show ?thesis using ch(2) by simp
qed

end
