(* ===== verification/StateDB_Ops.thy ===== *)
theory StateDB_Ops
  imports StateDB_Steps
begin

text \<open>
  Every operation on accounts: it returns, it is a step of the journal, and it changes the view of one
  account as stated. An account that does not exist or was deleted is created on demand.
\<close>

definition fresh_account :: "state_env \<Rightarrow> account_view" where
  "fresh_account env =
     \<lparr>v_nonce = 0, v_balance = 0, v_root = emptyRoot, v_codeHash = emptyCodeHash env, v_code = None,
      v_suicided = False, v_deleted = False, v_committed = (\<lambda>_. zeroHash), v_state = (\<lambda>_. zeroHash)\<rparr>"

text \<open>The account that an address has, \<open>None\<close> when there is none.\<close>

definition live :: "(address \<Rightarrow> account_view option) \<Rightarrow> address \<Rightarrow> account_view option" where
  "live m a = (case m a of None \<Rightarrow> None | Some v \<Rightarrow> if v_deleted v then None else Some v)"

definition account :: "state_env \<Rightarrow> (address \<Rightarrow> account_view option) \<Rightarrow> address \<Rightarrow> account_view" where
  "account env m a = (case live m a of None \<Rightarrow> fresh_account env | Some v \<Rightarrow> v)"

definition same_rest :: "StateDB \<Rightarrow> StateDB \<Rightarrow> bool" where
  "same_rest s s' \<longleftrightarrow> refund s' = refund s \<and> logs s' = logs s \<and> logSize s' = logSize s \<and> preimages s' = preimages s \<and>
     s_accessList s' = s_accessList s \<and> thash s' = thash s \<and> txIndex s' = txIndex s"

lemma same_rest_refl [simp]: "same_rest s s"
  by (simp add: same_rest_def)

lemma same_rest_trans: "same_rest s s' \<Longrightarrow> same_rest s' s'' \<Longrightarrow> same_rest s s''"
  by (simp add: same_rest_def)

lemma reads_rest:
  assumes "reads env s s'"
  shows "same_rest s s'"
proof -
  have "sdb_view env s' = sdb_view env s" using assms by (simp add: reads_def)
  from arg_cong [OF this, of w_refund] arg_cong [OF this, of w_logs] arg_cong [OF this, of w_logSize]
    arg_cong [OF this, of w_preimages] arg_cong [OF this, of w_accessList] arg_cong [OF this, of w_thash]
    arg_cong [OF this, of w_txIndex]
  show ?thesis by (simp add: same_rest_def)
qed

lemma setStateObject_rest [simp]:
  "same_rest s (setStateObject obj s') \<longleftrightarrow> same_rest s s'" "same_rest (setStateObject obj s) s' \<longleftrightarrow> same_rest s s'"
  by (simp_all add: same_rest_def)

lemma log_change_rest [simp]: "same_rest s (log_change e s') \<longleftrightarrow> same_rest s s'"
  by (simp add: same_rest_def)

lemma reads_account: "reads env s s' \<Longrightarrow> w_account (sdb_view env s') = w_account (sdb_view env s)"
  by (simp add: reads_def)

lemma reads_fields:
  assumes "reads env s s'"
  shows "s_snap s' = s_snap s" "snapDestructs s' = snapDestructs s" "stateObjectsDirty s' = stateObjectsDirty s"
  using assms sdb_view_simps by (metis reads_def same_base_def)+

lemma reads_show: "reads env s s' \<Longrightarrow> show_object env s' = show_object env s"
  using reads_fields by (intro show_object_cong)

lemma live_live_at: "length a = 20 \<Longrightarrow> live (w_account (sdb_view env s)) a = map_option (show_object env s) (live_at env s a)"
  by (auto simp: live_def live_at_def sdb_view_def show_object_def split: option.splits)

subsection \<open>New objects\<close>

abbreviation new_object :: "state_env \<Rightarrow> address \<Rightarrow> stateObject" where
  "new_object env a \<equiv> newObject env a 0 None zeroHash None"

lemma trie_read_empty:
  assumes "NewSecure (nodes env) emptyRoot = Inr t"
  shows "trie_read env t key = []"
proof -
  obtain u where "NewSecure (nodes env) emptyRoot = Inr u" "sec_denotes (keccak env) (nodes env) u Map.empty"
    using NewSecure_empty by blast
  with assms sec_TryGet_denotes [of "keccak env" "nodes env" t Map.empty key] show ?thesis by (auto simp: trie_read_def)
qed

lemma new_object_simps [simp]:
  "o_address (new_object env a) = a" "o_addrHash (new_object env a) = keccak env a" "\<not> deleted (new_object env a)"
  by (simp_all add: newObject_def)

lemma new_object_ok: "hash32 (keccak env) \<Longrightarrow> obj_ok env (new_object env a)"
  by (rule newObject_ok) simp_all

lemma new_object_view:
  assumes "sdb_ok env s" "length a = 20" "d \<or> s_snap s = None \<or> load_object env s a = None"
  shows "obj_view env (s_snap s) d (new_object env a) = fresh_account env"
proof -
  have "storage_read env (new_object env a) k = []" for k
    using NewSecure_empty [of emptyRoot "nodes env" "keccak env"] trie_read_empty
    by (auto simp: storage_read_def newObject_def)
  moreover have "slot_value e = zeroHash"
    if "s_snap s = Some layer" "\<not> d" "snap_Storage layer (keccak env a) (keccak env k) = Inr e" for layer k e
    using that assms sdb_okD(1) [OF assms(1)] unfolding base_ok_def by fastforce
  ultimately have "committed_view env (s_snap s) d (new_object env a) k = zeroHash" for k
    by (auto simp: committed_view_def slot_value_def newObject_def split: option.splits sum.splits)
  moreover from this have "state_view env (s_snap s) d (new_object env a) k = zeroHash" for k
    by (simp add: state_view_def) (simp add: newObject_def)
  ultimately show ?thesis
    by (simp add: obj_view_def fresh_account_def code_view_def fun_eq_iff) (simp add: newObject_def)
qed

text \<open>Undoing the creation of an object forgets what was done to it.\<close>

lemma create_steps:
  assumes "good env s" "entry_ok env s e" "undone env (log_change e s) s'" "view_ok (sdb_view env s')"
    and "vrevert env (s_snap s) e (sdb_view env s') = Some w" "vundirty e w = sdb_view env s"
    and "e = createObjectChange a \<or> (\<exists>p pd. e = resetObjectChange p pd \<and> o_address p = a)"
    and "o_address obj' = a" "length a = 20" "obj_ok env obj'"
  shows "steps env s (setStateObject obj' s')"
proof (rule single_step [OF assms(1,2) _ _ _ assms(6)])
  have ok: "sdb_ok env s'" using assms(3) by (simp add: undone_def)
  note ch = change_object [OF ok _ assms(10), unfolded assms(8), OF assms(9)]
  show "undone env (log_change e s) (setStateObject obj' s')" using undone_trans [OF assms(3)] ch by blast
  show "view_ok (sdb_view env (setStateObject obj' s'))" using ch assms(4) by (simp add: view_ok_def)
  have "vrevert env (s_snap s) e (w\<lparr>w_account := (w_account w)(a \<mapsto> v)\<rparr>) = vrevert env (s_snap s) e w" for w v
    using assms(7) by (auto simp: Let_def)
  then show "vrevert env (s_snap s) e (sdb_view env (setStateObject obj' s')) = Some w"
    using ch assms(5) by simp
qed

lemma createObject_steps:
  assumes "good env s" "length a = 20"
  shows "\<exists>s'. createObject env a s = Some ((new_object env a, live_at env s a), s') \<and> steps env s s' \<and> same_rest s s' \<and>
    stateObjects s' a = Some (new_object env a) \<and> show_object env s' (new_object env a) = fresh_account env \<and>
    w_account (sdb_view env s') = (w_account (sdb_view env s))(a \<mapsto> fresh_account env) \<and>
    (\<forall>obj'. o_address obj' = a \<longrightarrow> obj_ok env obj' \<longrightarrow> steps env s (setStateObject obj' s'))"
proof -
  note ok = goodD(1) [OF assms(1)]
  from getDeletedStateObject_reads [OF ok assms(2)] obtain s1 where
    s1: "getDeletedStateObject env a s = Some (object_at env s a, s1)" "reads env s s1"
      "stateObjects s1 a = object_at env s a" by blast
  have ok1: "sdb_ok env s1" and v1: "sdb_view env s1 = sdb_view env s" and g1: "good env s1"
    using s1(2) goodD [OF assms(1)] by (auto simp: reads_def good_def)
  have new: "obj_ok env (new_object env a)" using new_object_ok sdb_okD(6) [OF ok] .
  show ?thesis
  proof (cases "object_at env s a")
    case None
    let ?e = "createObjectChange a" and ?s = "setStateObject (new_object env a) (log_change (createObjectChange a) s1)"
    have created: "createObject env a s = Some ((new_object env a, live_at env s a), ?s)"
      using s1(1) None by (simp add: createObject_def live_at_def Let_def)
    have load: "load_object env s1 a = None" "stateObjects s1 a = None"
      using None s1(3) load_object_same [of env s s1] s1(2) by (auto simp: object_at_def reads_def split: option.splits)
    then have e: "entry_ok env s1 ?e" using assms(2) sdb_okD(3) [OF ok1] by auto
    note lc = log_change_ok [OF ok1 e]
    have fresh: "show_object env (log_change ?e s1) (new_object env a) = fresh_account env"
      using new_object_view [OF lc(1) assms(2)] load_object_same [OF lc(2)] load(1) by (simp add: show_object_def)
    have ch: "undone env (log_change ?e s1) ?s" "sdb_view env ?s =
        (vdirty ?e (sdb_view env s))\<lparr>w_account := (w_account (sdb_view env s))(a \<mapsto> fresh_account env)\<rparr>"
      using change_object [OF lc(1), of "new_object env a"] assms(2) new fresh v1 by (simp_all add: log_change_view)
    have none: "w_account (sdb_view env s) a = None" "a \<notin> stateObjectsDirty s1" "stateObjectsDirty s1 = stateObjectsDirty s"
      using None assms(2) sdb_okD(4) [OF ok1] load(2) reads_fields(3) [OF s1(2)] by (auto simp: sdb_view_def)
    have "vrevert env (s_snap s1) ?e (sdb_view env ?s) = Some ((vdirty ?e (sdb_view env s))
        \<lparr>w_account := w_account (vdirty ?e (sdb_view env s)), w_dirty := w_dirty (vdirty ?e (sdb_view env s))\<rparr>)"
      using none by (simp add: ch(2) fun_upd_idem)
    then have "vrevert env (s_snap s1) ?e (sdb_view env ?s) = Some (vdirty ?e (sdb_view env s))"
      unfolding ledger_view_self .
    moreover have "view_ok (sdb_view env ?s)" "vundirty ?e (vdirty ?e (sdb_view env s)) = sdb_view env s1"
      using ch(2) vdirty_ok [OF goodD(2) [OF assms(1)], of ?e] vundirty_vdirty [OF goodD(2) [OF assms(1)]] v1
      by (simp_all add: view_ok_def)
    ultimately have "steps env s1 ?s" and "\<And>obj'. o_address obj' = a \<Longrightarrow> obj_ok env obj' \<Longrightarrow> steps env s1 (setStateObject obj' ?s)"
      using single_step [OF g1 e ch(1)] create_steps [OF g1 e ch(1), of _ a] assms(2) by blast+
    moreover have "show_object env ?s (new_object env a) = fresh_account env"
      using fresh by (simp add: show_object_def)
    ultimately show ?thesis
      using created steps_trans [OF reads_steps [OF assms(1) s1(2)]] reads_rest [OF s1(2)] ch(2) by simp
  next
    case (Some p)
    note p = object_ok_at [OF ok assms(2) Some]
    define pd where "pd = (s_snap s1 \<noteq> None \<and> o_addrHash p \<in> snapDestructs s1)"
    define D where "D = (if s_snap s1 \<noteq> None \<and> \<not> pd then insert (o_addrHash p) (snapDestructs s1) else snapDestructs s1)"
    let ?e = "resetObjectChange p pd"
    let ?s = "(setStateObject (new_object env a) (log_change ?e s1))\<lparr>snapDestructs := D\<rparr>"
    have created: "createObject env a s = Some ((new_object env a, live_at env s a), ?s)"
      using s1(1) Some
      by (auto simp: createObject_def live_at_def D_def pd_def log_change_def setStateObject_def Let_def)
    have e: "entry_ok env s1 ?e" using p assms(2) by simp
    note lc = log_change_ok [OF ok1 e]
    have same: "s_snap s1 = s_snap s" "snapDestructs s1 = snapDestructs s"
      using reads_fields [OF s1(2)] by simp_all
    have "keccak env a \<in> D \<or> s_snap s1 = None" using p by (auto simp: D_def pd_def)
    then have fresh: "obj_view env (s_snap s1) (keccak env a \<in> D) (new_object env a) = fresh_account env"
      using new_object_view [OF ok1 assms(2)] by blast
    have ch: "undone env (log_change ?e s1) ?s" "sdb_view env ?s =
        (sdb_view env s)\<lparr>w_destructs := D, w_account := (w_account (sdb_view env s))(a \<mapsto> fresh_account env)\<rparr>"
      using reset_view [OF lc(1), of "new_object env a" D] assms(2) new fresh v1 p
      by (simp_all add: log_change_view vdirty_def D_def)
    have pv: "w_account (sdb_view env s) a = Some (obj_view env (s_snap s) (o_addrHash p \<in> snapDestructs s) p)"
      using Some assms(2) by (simp add: sdb_view_def show_object_def)
    have d: "(if \<not> pd \<and> s_snap s1 \<noteq> None then D - {o_addrHash p} else D) = snapDestructs s"
      using same by (auto simp: D_def pd_def)
    have wd: "w_destructs (sdb_view env ?s) = D" by (simp add: ch(2))
    have "vrevert env (s_snap s1) ?e (sdb_view env ?s) = Some ((sdb_view env ?s)\<lparr>w_destructs := snapDestructs s,
        w_account := (w_account (sdb_view env ?s))(o_address p \<mapsto> obj_view env (s_snap s1) (o_addrHash p \<in> snapDestructs s) p)\<rparr>)"
      by (simp only: vrevert.simps Let_def wd d)
    then have "vrevert env (s_snap s1) ?e (sdb_view env ?s) = Some ((sdb_view env s)\<lparr>w_destructs := snapDestructs s,
        w_account := (w_account (sdb_view env s))(a \<mapsto> obj_view env (s_snap s) (o_addrHash p \<in> snapDestructs s) p)\<rparr>)"
      using p(2) same(1) by (simp add: ch(2))
    also have "(sdb_view env s)\<lparr>w_destructs := snapDestructs s,
        w_account := (w_account (sdb_view env s))(a \<mapsto> obj_view env (s_snap s) (o_addrHash p \<in> snapDestructs s) p)\<rparr> =
        sdb_view env s"
    proof -
      have "(w_account (sdb_view env s))(a \<mapsto> obj_view env (s_snap s) (o_addrHash p \<in> snapDestructs s) p) =
        w_account (sdb_view env s)" using pv by (rule fun_upd_idem)
      then show ?thesis by (simp add: sdb_view_def)
    qed
    finally have "vrevert env (s_snap s1) ?e (sdb_view env ?s) = Some (sdb_view env s)" .
    moreover have "view_ok (sdb_view env ?s)" "vundirty ?e (sdb_view env s) = sdb_view env s1"
      using ch(2) goodD(2) [OF assms(1)] v1 by (simp_all add: view_ok_def vundirty_def)
    ultimately have "steps env s1 ?s" and "\<And>obj'. o_address obj' = a \<Longrightarrow> obj_ok env obj' \<Longrightarrow> steps env s1 (setStateObject obj' ?s)"
      using single_step [OF g1 e ch(1)] create_steps [OF g1 e ch(1), of _ a] assms(2) p(2) by blast+
    moreover have "show_object env ?s (new_object env a) = fresh_account env"
      using fresh by (simp add: show_object_def)
    moreover have "same_rest s1 ?s" by (simp add: same_rest_def)
    ultimately show ?thesis
      using created steps_trans [OF reads_steps [OF assms(1) s1(2)]] same_rest_trans [OF reads_rest [OF s1(2)], of ?s] ch(2)
      by simp
  qed
qed

lemma GetOrNewStateObject_steps:
  assumes "good env s" "length a = 20"
  shows "\<exists>obj s'. GetOrNewStateObject env a s = Some (obj, s') \<and> steps env s s' \<and> same_rest s s' \<and>
    stateObjects s' a = Some obj \<and> \<not> deleted obj \<and>
    show_object env s' obj = account env (w_account (sdb_view env s)) a \<and>
    w_account (sdb_view env s') = (w_account (sdb_view env s))(a \<mapsto> account env (w_account (sdb_view env s)) a)"
proof -
  from getStateObject_reads [OF goodD(1) [OF assms(1)] assms(2)] obtain s1 where
    s1: "getStateObject env a s = Some (live_at env s a, s1)" "reads env s s1" "stateObjects s1 a = object_at env s a"
    by blast
  note st = reads_steps [OF assms(1) s1(2)]
  show ?thesis
  proof (cases "live_at env s a")
    case None
    from createObject_steps [OF stepsD(1) [OF st] assms(2)] obtain s' where
      s': "createObject env a s1 = Some ((new_object env a, live_at env s1 a), s')" "steps env s1 s'" "same_rest s1 s'"
        "stateObjects s' a = Some (new_object env a)" "show_object env s' (new_object env a) = fresh_account env"
        "w_account (sdb_view env s') = (w_account (sdb_view env s1))(a \<mapsto> fresh_account env)" by blast
    have "account env (w_account (sdb_view env s)) a = fresh_account env"
      using None live_live_at [OF assms(2), of env s] by (simp add: account_def)
    with None s1 s' steps_trans [OF st s'(2)] same_rest_trans [OF reads_rest [OF s1(2)] s'(3)] reads_account [OF s1(2)]
    show ?thesis by (simp add: GetOrNewStateObject_def)
  next
    case (Some obj)
    then have "object_at env s a = Some obj" "\<not> deleted obj" by (auto simp: live_at_def split: option.splits if_splits)
    moreover have acc: "account env (w_account (sdb_view env s)) a = show_object env s obj"
      using Some live_live_at [OF assms(2), of env s] by (simp add: account_def)
    moreover have "w_account (sdb_view env s) a = Some (show_object env s obj)"
      using calculation(1) assms(2) by (simp add: sdb_view_def)
    ultimately show ?thesis
      using Some s1 st reads_rest [OF s1(2)] reads_account [OF s1(2)] reads_show [OF s1(2)]
      by (simp add: GetOrNewStateObject_def fun_upd_idem)
  qed
qed

subsection \<open>Setters\<close>

text \<open>A setter finds or creates the object and changes it with a journal entry.\<close>

definition sets_account ::
  "state_env \<Rightarrow> address \<Rightarrow> (account_view \<Rightarrow> account_view) \<Rightarrow> StateDB \<Rightarrow> StateDB \<Rightarrow> bool" where
  "sets_account env a g s s' \<longleftrightarrow> steps env s s' \<and> same_rest s s' \<and>
     w_account (sdb_view env s') = (w_account (sdb_view env s))(a \<mapsto> g (account env (w_account (sdb_view env s)) a))"

definition changes_object ::
  "state_env \<Rightarrow> stateObject \<Rightarrow> (account_view \<Rightarrow> account_view) \<Rightarrow> StateDB \<Rightarrow> StateDB \<Rightarrow> bool" where
  "changes_object env obj g s s' \<longleftrightarrow> steps env s s' \<and> same_rest s s' \<and>
     w_account (sdb_view env s') = (w_account (sdb_view env s))(o_address obj \<mapsto> g (show_object env s obj))"

lemma GetOrNew_then:
  assumes "good env s" "length a = 20"
    and "\<And>s1 obj. good env s1 \<Longrightarrow> stateObjects s1 a = Some obj \<Longrightarrow> \<not> deleted obj \<Longrightarrow> o_address obj = a \<Longrightarrow>
      obj_ok env obj \<Longrightarrow> \<exists>s2. G obj s1 = Some s2 \<and> changes_object env obj g s1 s2"
  shows "\<exists>s'. do { (obj, s) \<leftarrow> GetOrNewStateObject env a s; G obj s } = Some s' \<and> sets_account env a g s s'"
proof -
  from GetOrNewStateObject_steps [OF assms(1,2)] obtain obj s1 where
    s1: "GetOrNewStateObject env a s = Some (obj, s1)" "steps env s s1" "same_rest s s1" "stateObjects s1 a = Some obj"
      "\<not> deleted obj" "show_object env s1 obj = account env (w_account (sdb_view env s)) a"
      "w_account (sdb_view env s1) = (w_account (sdb_view env s))(a \<mapsto> account env (w_account (sdb_view env s)) a)" by blast
  have g1: "good env s1" using stepsD(1) [OF s1(2)] .
  have obj: "o_address obj = a" "obj_ok env obj"
    using s1(4) sdb_okD(2) [OF goodD(1) [OF g1]] by (auto simp: objects_ok_def)
  from assms(3) [OF g1 s1(4,5) obj] obtain s2 where "G obj s1 = Some s2" "changes_object env obj g s1 s2" by blast
  with s1 obj show ?thesis
    using steps_trans same_rest_trans by (auto simp: changes_object_def sets_account_def)
qed

lemma change_object_steps:
  assumes "good env s" "stateObjects s a = Some obj" "o_address obj' = a" "obj_ok env obj'" "\<not> deleted obj'"
    and "dirtied e = Some a" "entry_ok env s e" "arevert env e (show_object env s obj') = Some (show_object env s obj)"
    and "show_object env s obj' = g (show_object env s obj)" "o_address obj = a"
  shows "changes_object env obj g s (setStateObject obj' (log_change e s))"
  using change_steps [OF assms(1-8)] assms(9,10) by (simp add: changes_object_def)

lemma obj_SetBalance_steps:
  assumes "good env s" "stateObjects s a = Some obj" "\<not> deleted obj" "o_address obj = a" "obj_ok env obj"
  shows "changes_object env obj (\<lambda>v. v\<lparr>v_balance := b\<rparr>) s (obj_SetBalance b obj s)"
proof -
  have "length a = 20" using assms(1,2) sdb_okD(2) by (auto simp: good_def objects_ok_def)
  then show ?thesis
    unfolding obj_SetBalance_def using assms
    by (intro change_object_steps [OF assms(1,2)]) (simp_all add: show_object_def)
qed

lemma obj_touch_steps:
  assumes "good env s" "stateObjects s a = Some obj" "o_address obj = a"
  shows "changes_object env obj (\<lambda>v. v) s (obj_touch obj s)"
proof -
  let ?e = "touchChange a"
  have a: "length a = 20" using assms(1,2) sdb_okD(2) by (auto simp: good_def objects_ok_def)
  let ?s = "log_change ?e s"
  have lc: "sdb_ok env ?s" "same_base env s ?s" using log_change_ok [OF goodD(1) [OF assms(1)], of ?e] by simp_all
  have s': "obj_touch obj s = (if a = ripemd then ?s\<lparr>s_journal := journal_dirty a (s_journal ?s)\<rparr> else ?s)"
    using assms(3) by (simp add: obj_touch_def Let_def)
  have view: "sdb_view env (obj_touch obj s) = vdirty ?e (sdb_view env s)"
  proof -
    have "sdb_view env (?s\<lparr>s_journal := journal_dirty ripemd (s_journal ?s)\<rparr>) = sdb_view env ?s"
      using view_fields [of "?s\<lparr>s_journal := journal_dirty ripemd (s_journal ?s)\<rparr>" ?s env]
      by (simp add: sdb_view_def journal_dirty_def log_change_def [of "touchChange ripemd" s] cong: if_cong)
    then show ?thesis using s' by (cases "a = ripemd") (simp_all add: log_change_view)
  qed
  have "entries (s_journal (obj_touch obj s)) = entries (s_journal s) @ [?e]"
    using s' by (simp add: journal_dirty_def)
  moreover have "same_base env s (obj_touch obj s)" using lc(2) s' by (simp add: same_base_def)
  moreover have "sdb_ok env (obj_touch obj s)"
    by (rule sdb_ok_cong [OF lc(1)]) (use lc s' sdb_okD(7) in \<open>simp_all add: same_base_def journal_dirty_def\<close>)
  ultimately have "steps env s (obj_touch obj s)"
    using view vdirty_ok [OF goodD(2) [OF assms(1)], of ?e] vundirty_vdirty [OF goodD(2) [OF assms(1)], of ?e] s'
    by (simp add: steps_def good_def)
  moreover have "w_account (sdb_view env s) a = Some (show_object env s obj)"
    using assms(2) a by (simp add: sdb_view_def object_at_def)
  moreover have "same_rest s (obj_touch obj s)" using s' by (simp add: same_rest_def)
  ultimately show ?thesis using view assms(3) by (simp add: changes_object_def fun_upd_idem)
qed

lemma unchanged_object:
  assumes "good env s" "reads env s s'" "stateObjects s a = Some obj" "o_address obj = a"
  shows "changes_object env obj (\<lambda>v. v) s s'"
proof -
  have "length a = 20" using assms(1,3) sdb_okD(2) by (auto simp: good_def objects_ok_def)
  then have "w_account (sdb_view env s) a = Some (show_object env s obj)"
    using assms(3) by (simp add: sdb_view_def object_at_def)
  then show ?thesis
    using assms reads_steps reads_rest reads_account by (simp add: changes_object_def fun_upd_idem)
qed

lemma obj_AddBalance_steps:
  assumes "good env s" "stateObjects s a = Some obj" "\<not> deleted obj" "o_address obj = a" "obj_ok env obj"
  shows "changes_object env obj (\<lambda>v. v\<lparr>v_balance := v_balance v + x\<rparr>) s (obj_AddBalance env x obj s)"
  using obj_SetBalance_steps [OF assms, of "acc_Balance (o_data obj) + x"] obj_touch_steps [OF assms(1,2,4)]
    unchanged_object [OF assms(1) reads_refl [OF goodD(1) [OF assms(1)]] assms(2,4)]
  by (auto simp: obj_AddBalance_def changes_object_def show_object_def)

lemma obj_SubBalance_steps:
  assumes "good env s" "stateObjects s a = Some obj" "\<not> deleted obj" "o_address obj = a" "obj_ok env obj"
  shows "changes_object env obj (\<lambda>v. v\<lparr>v_balance := v_balance v - x\<rparr>) s (obj_SubBalance env x obj s)"
  using obj_SetBalance_steps [OF assms, of "acc_Balance (o_data obj) - x"] obj_touch_steps [OF assms(1,2,4)]
    unchanged_object [OF assms(1) reads_refl [OF goodD(1) [OF assms(1)]] assms(2,4)]
  by (auto simp: obj_SubBalance_def changes_object_def show_object_def)

lemma obj_SetNonce_steps:
  assumes "good env s" "stateObjects s a = Some obj" "\<not> deleted obj" "o_address obj = a" "obj_ok env obj"
  shows "changes_object env obj (\<lambda>v. v\<lparr>v_nonce := n\<rparr>) s (obj_SetNonce n obj s)"
proof -
  have "length a = 20" using assms(1,2) sdb_okD(2) by (auto simp: good_def objects_ok_def)
  then show ?thesis
    unfolding obj_SetNonce_def using assms
    by (intro change_object_steps [OF assms(1,2)]) (simp_all add: show_object_def)
qed

text \<open>A change of an object after a read of it.\<close>

lemma changes_after_read:
  assumes "good env s" "stateObjects s a = Some obj" "same_object env (s_snap s) (o_addrHash obj \<in> snapDestructs s) obj obj1"
    and "obj_ok env obj" "\<And>s1. good env s1 \<Longrightarrow> stateObjects s1 a = Some obj1 \<Longrightarrow> s_snap s1 = s_snap s \<Longrightarrow>
      snapDestructs s1 = snapDestructs s \<Longrightarrow> changes_object env obj1 g s1 (F s1)"
    and "F (setStateObject obj1 s) = F s"
  shows "changes_object env obj g s (F s)"
proof -
  let ?s = "setStateObject obj1 s"
  have r: "reads env s ?s" by (rule reads_same_object [OF goodD(1) [OF assms(1)] assms(2,3)])
  then have g1: "good env ?s" using reads_steps [OF assms(1)] stepsD(1) by blast
  have a: "o_address obj = a" "o_address obj1 = a"
    using assms(1-3) sdb_okD(2) by (auto simp: good_def objects_ok_def same_object_def)
  then have c: "changes_object env obj1 g ?s (F s)" using assms(5) [OF g1] assms(6) by simp
  have "show_object env ?s obj1 = show_object env s obj"
    using assms(3,4) reads_show [OF r] by (simp add: same_object_def show_object_def obj_ok_def)
  moreover have "steps env s (F s)"
    using steps_trans [OF reads_steps [OF assms(1) r]] c by (simp add: changes_object_def)
  ultimately show ?thesis using a c reads_account [OF r] by (simp add: changes_object_def)
qed

lemma setStateObject_twice [simp]:
  "o_address obj = o_address obj' \<Longrightarrow> setStateObject obj (setStateObject obj' s) = setStateObject obj s"
  "o_address obj = o_address obj' \<Longrightarrow>
    setStateObject obj (log_change e (setStateObject obj' s)) = setStateObject obj (log_change e s)"
  by (simp_all add: setStateObject_def log_change_def)

lemma obj_SetCode_steps:
  assumes "good env s" "stateObjects s a = Some obj" "\<not> deleted obj" "o_address obj = a" "obj_ok env obj" "length h = 32"
  shows "changes_object env obj (\<lambda>v. v\<lparr>v_codeHash := h, v_code := code_of env c h\<rparr>) s (obj_SetCode env h c obj s)"
proof -
  let ?d = "o_addrHash obj \<in> snapDestructs s"
  from obj_Code_same [OF assms(5)] obtain obj1
    where obj1: "obj_Code env obj = (code_view env obj, obj1)" "same_object env (s_snap s) ?d obj obj1" by blast
  have same: "o_address obj1 = a" "obj_ok env obj1" "\<not> deleted obj1" "code_view env obj1 = code_view env obj"
    using obj1(2) assms(3,4) by (auto simp: same_object_def obj_view_def)
  have h1: "length (acc_CodeHash (o_data obj1)) = 32" using same(2) by (simp add: obj_ok_def)
  let ?e = "codeChange a (code_view env obj) (acc_CodeHash (o_data obj1))"
  let ?F = "\<lambda>s. setStateObject (obj_setCode h c obj1) (log_change ?e s)"
  have "changes_object env obj1 (\<lambda>v. v\<lparr>v_codeHash := h, v_code := code_of env c h\<rparr>) s1 (?F s1)"
    if "good env s1" "stateObjects s1 a = Some obj1" for s1
  proof (rule change_object_steps [OF that])
    have "length a = 20" using that sdb_okD(2) by (auto simp: good_def objects_ok_def)
    then show "entry_ok env s1 ?e" using h1 by simp
    have code: "code_of env (code_view env obj) (acc_CodeHash (o_data obj1)) = code_view env obj1"
      using same(4) code_of_idem by (metis code_view_code_of)
    then show "arevert env ?e (show_object env s1 (obj_setCode h c obj1)) = Some (show_object env s1 obj1)"
      using h1 by (simp add: show_object_def)
  qed (use same assms(6) in \<open>simp_all add: show_object_def\<close>)
  then show ?thesis
    using changes_after_read [OF assms(1,2) obj1(2) assms(5), of _ ?F] same(1) assms(4) obj1(1)
    by (simp add: obj_SetCode_def)
qed

lemma obj_SetState_steps:
  assumes "good env s" "stateObjects s a = Some obj" "\<not> deleted obj" "o_address obj = a" "obj_ok env obj"
  shows "\<exists>s'. obj_SetState env k x obj s = Some s' \<and> changes_object env obj (\<lambda>v. v\<lparr>v_state := (v_state v)(k := x)\<rparr>) s s'"
proof -
  let ?d = "o_addrHash obj \<in> snapDestructs s"
  from obj_GetState_same [OF assms(5) refl, where snap = "s_snap s" and ds = "snapDestructs s" and key = k] obtain obj1
    where obj1: "obj_GetState env (s_snap s) (snapDestructs s) obj k = Some (state_view env (s_snap s) ?d obj k, obj1)"
      "same_object env (s_snap s) ?d obj obj1" by blast
  have same: "o_address obj1 = a" "obj_ok env obj1" "\<not> deleted obj1" "o_addrHash obj1 = o_addrHash obj"
      "state_view env (s_snap s) ?d obj1 = state_view env (s_snap s) ?d obj"
    using obj1(2) assms(3,4,5) by (auto simp: same_object_def obj_view_def obj_ok_def)
  define p where "p = state_view env (s_snap s) ?d obj k"
  show ?thesis
  proof (cases "p = x")
    case True
    have "changes_object env obj (\<lambda>v. v) s (setStateObject obj1 s)"
      by (rule unchanged_object [OF assms(1) reads_same_object [OF goodD(1) [OF assms(1)] assms(2) obj1(2)] assms(2,4)])
    then show ?thesis
      using True obj1(1) by (auto simp: obj_SetState_def p_def changes_object_def show_object_def fun_upd_idem)
  next
    case False
    let ?F = "\<lambda>s. setStateObject (obj_setState k x obj1) (log_change (storageChange a k p) s)"
    have "changes_object env obj1 (\<lambda>v. v\<lparr>v_state := (v_state v)(k := x)\<rparr>) s1 (?F s1)"
      if "good env s1" "stateObjects s1 a = Some obj1" "s_snap s1 = s_snap s" "snapDestructs s1 = snapDestructs s" for s1
    proof (rule change_object_steps [OF that(1,2)])
      show "entry_ok env s1 (storageChange a k p)" using that sdb_okD(2) by (auto simp: good_def objects_ok_def)
      have "v_state (show_object env s1 obj1) k = p" using that(3,4) same(4,5) by (simp add: show_object_def p_def)
      then show "arevert env (storageChange a k p) (show_object env s1 (obj_setState k x obj1)) = Some (show_object env s1 obj1)"
        by (simp add: show_object_def fun_upd_idem)
    qed (use same in \<open>simp_all add: show_object_def\<close>)
    then have "changes_object env obj (\<lambda>v. v\<lparr>v_state := (v_state v)(k := x)\<rparr>) s (?F s)"
      using changes_after_read [OF assms(1,2) obj1(2) assms(5), of _ ?F] same(1) assms(4) by simp
    then show ?thesis using False obj1(1) same(1) by (simp add: obj_SetState_def p_def)
  qed
qed

lemma setters:
  assumes "good env s" "length a = 20"
  shows AddBalance_steps: "\<exists>s'. AddBalance env a x s = Some s' \<and> sets_account env a (\<lambda>v. v\<lparr>v_balance := v_balance v + x\<rparr>) s s'"
    and SubBalance_steps: "\<exists>s'. SubBalance env a x s = Some s' \<and> sets_account env a (\<lambda>v. v\<lparr>v_balance := v_balance v - x\<rparr>) s s'"
    and SetBalance_steps: "\<exists>s'. SetBalance env a x s = Some s' \<and> sets_account env a (\<lambda>v. v\<lparr>v_balance := x\<rparr>) s s'"
    and SetNonce_steps: "\<exists>s'. SetNonce env a n s = Some s' \<and> sets_account env a (\<lambda>v. v\<lparr>v_nonce := n\<rparr>) s s'"
    and SetState_steps: "\<exists>s'. SetState env a k y s = Some s' \<and> sets_account env a (\<lambda>v. v\<lparr>v_state := (v_state v)(k := y)\<rparr>) s s'"
  unfolding AddBalance_def SubBalance_def SetBalance_def SetNonce_def SetState_def
  by (rule GetOrNew_then [OF assms]; use obj_AddBalance_steps obj_SubBalance_steps obj_SetBalance_steps
        obj_SetNonce_steps obj_SetState_steps in \<open>simp; blast?\<close>)+

lemma SetCode_steps:
  fixes code :: "bytes option"
  assumes "good env s" "length a = 20"
  defines "h \<equiv> keccak env (case code of None \<Rightarrow> [] | Some c \<Rightarrow> c)"
  shows "\<exists>s'. SetCode env a code s = Some s' \<and> sets_account env a (\<lambda>v. v\<lparr>v_codeHash := h, v_code := code\<rparr>) s s'"
proof -
  have h: "length h = 32" using sdb_okD(6) [OF goodD(1) [OF assms(1)]] by (simp add: h_def hash32_def)
  have code: "code_of env code h = code" by (cases code) (simp_all add: code_of_def h_def emptyCodeHash_def)
  show ?thesis
    unfolding SetCode_def h_def [symmetric]
  proof (rule GetOrNew_then [OF assms(1,2)])
    fix s1 obj
    assume "good env s1" "stateObjects s1 a = Some obj" "\<not> deleted obj" "o_address obj = a" "obj_ok env obj"
    from obj_SetCode_steps [OF this h, of code] code
    show "\<exists>s2. Some (obj_SetCode env h code obj s1) = Some s2 \<and>
        changes_object env obj (\<lambda>v. v\<lparr>v_codeHash := h, v_code := code\<rparr>) s1 s2" by simp
  qed
qed

end
