(* ===== verification/StateDB_Refines.thy ===== *)
theory StateDB_Refines
  imports StateDB_Ops
begin

text \<open>
  The state database as a refinement of a plain ledger. The ledger maps addresses to accounts; a
  snapshot of it is a copy of the whole ledger, and reverting puts the copy back. The journal, the
  lazily loaded objects and the caches of the state database implement just this.
\<close>

subsection \<open>The ledger\<close>

record ledger =
  l_account :: "address \<Rightarrow> account_view option"
  l_refund :: u64
  l_logs :: "hash \<Rightarrow> Log list option"
  l_logSize :: u64
  l_preimages :: "hash \<Rightarrow> bytes option"
  l_addrs :: "address set"
  l_slots :: "(address \<times> hash) set"
  l_thash :: hash
  l_txIndex :: int

definition ledger_of :: "ledger_view \<Rightarrow> ledger" where
  "ledger_of w =
     \<lparr>l_account = w_account w, l_refund = w_refund w, l_logs = w_logs w, l_logSize = w_logSize w,
      l_preimages = w_preimages w, l_addrs = al_addrs (w_accessList w), l_slots = al_pairs (w_accessList w),
      l_thash = w_thash w, l_txIndex = w_txIndex w\<rparr>"

datatype sdb_op =
    OpCreateAccount address
  | OpAddBalance address int
  | OpSubBalance address int
  | OpSetBalance address int
  | OpSetNonce address u64
  | OpSetCode address "bytes option"
  | OpSetState address hash hash
  | OpSuicide address
  | OpAddLog Log
  | OpAddPreimage hash bytes
  | OpAddRefund u64
  | OpSubRefund u64
  | OpAddAddress address
  | OpAddSlot address hash
  | OpGetBalance address
  | OpGetNonce address
  | OpGetCode address
  | OpGetCodeSize address
  | OpGetCodeHash address
  | OpGetState address hash
  | OpGetCommittedState address hash
  | OpHasSuicided address
  | OpExist address
  | OpEmpty address
  | OpGetRefund
  | OpSlotInAccessList address hash
  | OpSnapshot
  | OpRevert int

datatype sdb_result =
    RNone
  | RInt int
  | RWord u64
  | RCode "bytes option"
  | RSize nat
  | RHash hash
  | RBool bool
  | RBools bool bool

fun op_addresses :: "sdb_op \<Rightarrow> address list" where
  "op_addresses (OpCreateAccount a) = [a]"
| "op_addresses (OpAddBalance a _) = [a]"
| "op_addresses (OpSubBalance a _) = [a]"
| "op_addresses (OpSetBalance a _) = [a]"
| "op_addresses (OpSetNonce a _) = [a]"
| "op_addresses (OpSetCode a _) = [a]"
| "op_addresses (OpSetState a _ _) = [a]"
| "op_addresses (OpSuicide a) = [a]"
| "op_addresses (OpGetBalance a) = [a]"
| "op_addresses (OpGetNonce a) = [a]"
| "op_addresses (OpGetCode a) = [a]"
| "op_addresses (OpGetCodeSize a) = [a]"
| "op_addresses (OpGetCodeHash a) = [a]"
| "op_addresses (OpGetState a _) = [a]"
| "op_addresses (OpGetCommittedState a _) = [a]"
| "op_addresses (OpHasSuicided a) = [a]"
| "op_addresses (OpExist a) = [a]"
| "op_addresses (OpEmpty a) = [a]"
| "op_addresses _ = []"

definition op_ok :: "sdb_op \<Rightarrow> bool" where
  "op_ok op \<longleftrightarrow> (\<forall>a \<in> set (op_addresses op). length a = 20)"

text \<open>The operations of the state database; \<open>None\<close> is a panic.\<close>

fun run_op :: "state_env \<Rightarrow> sdb_op \<Rightarrow> StateDB \<Rightarrow> (sdb_result \<times> StateDB) option" where
  "run_op env (OpCreateAccount a) s = map_option (Pair RNone) (CreateAccount env a s)"
| "run_op env (OpAddBalance a x) s = map_option (Pair RNone) (AddBalance env a x s)"
| "run_op env (OpSubBalance a x) s = map_option (Pair RNone) (SubBalance env a x s)"
| "run_op env (OpSetBalance a x) s = map_option (Pair RNone) (SetBalance env a x s)"
| "run_op env (OpSetNonce a n) s = map_option (Pair RNone) (SetNonce env a n s)"
| "run_op env (OpSetCode a c) s = map_option (Pair RNone) (SetCode env a c s)"
| "run_op env (OpSetState a k x) s = map_option (Pair RNone) (SetState env a k x s)"
| "run_op env (OpSuicide a) s = map_option (map_prod RBool id) (Suicide env a s)"
| "run_op env (OpAddLog l) s = Some (RNone, AddLog l s)"
| "run_op env (OpAddPreimage h p) s = Some (RNone, AddPreimage h p s)"
| "run_op env (OpAddRefund g) s = Some (RNone, AddRefund g s)"
| "run_op env (OpSubRefund g) s = map_option (Pair RNone) (SubRefund g s)"
| "run_op env (OpAddAddress a) s = Some (RNone, AddAddressToAccessList a s)"
| "run_op env (OpAddSlot a k) s = map_option (Pair RNone) (AddSlotToAccessList a k s)"
| "run_op env (OpGetBalance a) s = map_option (map_prod RInt id) (GetBalance env a s)"
| "run_op env (OpGetNonce a) s = map_option (map_prod RWord id) (GetNonce env a s)"
| "run_op env (OpGetCode a) s = map_option (map_prod RCode id) (GetCode env a s)"
| "run_op env (OpGetCodeSize a) s = map_option (map_prod RSize id) (GetCodeSize env a s)"
| "run_op env (OpGetCodeHash a) s = map_option (map_prod RHash id) (GetCodeHash env a s)"
| "run_op env (OpGetState a k) s = map_option (map_prod RHash id) (GetState env a k s)"
| "run_op env (OpGetCommittedState a k) s = map_option (map_prod RHash id) (GetCommittedState env a k s)"
| "run_op env (OpHasSuicided a) s = map_option (map_prod RBool id) (HasSuicided env a s)"
| "run_op env (OpExist a) s = map_option (map_prod RBool id) (Exist env a s)"
| "run_op env (OpEmpty a) s = map_option (map_prod RBool id) (sdb_Empty env a s)"
| "run_op env OpGetRefund s = Some (RWord (refund s), s)"
| "run_op env (OpSlotInAccessList a k) s = map_option (\<lambda>(x, y). (RBools x y, s)) (SlotInAccessList a k s)"
| "run_op env OpSnapshot s = Some (map_prod RInt id (sdb_Snapshot s))"
| "run_op env (OpRevert i) s = map_option (Pair RNone) (RevertToSnapshot env i s)"

text \<open>The same operations on the ledger.\<close>

definition set_account :: "state_env \<Rightarrow> address \<Rightarrow> (account_view \<Rightarrow> account_view) \<Rightarrow> ledger \<Rightarrow> ledger" where
  "set_account env a g l = l\<lparr>l_account := (l_account l)(a \<mapsto> g (account env (l_account l) a))\<rparr>"

definition add_log :: "Log \<Rightarrow> ledger \<Rightarrow> ledger" where
  "add_log lg l =
     l\<lparr>l_logs := (l_logs l)(l_thash l \<mapsto> (case l_logs l (l_thash l) of None \<Rightarrow> [] | Some ls \<Rightarrow> ls) @
         [lg\<lparr>log_TxHash := l_thash l, log_TxIndex := of_int (l_txIndex l), log_Index := l_logSize l\<rparr>]),
       l_logSize := l_logSize l + 1\<rparr>"

fun spec_op :: "state_env \<Rightarrow> sdb_op \<Rightarrow> ledger \<Rightarrow> (sdb_result \<times> ledger) option" where
  "spec_op env (OpCreateAccount a) l =
     Some (RNone, l\<lparr>l_account := (l_account l)(a \<mapsto> (fresh_account env)\<lparr>v_balance :=
       case live (l_account l) a of None \<Rightarrow> 0 | Some v \<Rightarrow> v_balance v\<rparr>)\<rparr>)"
| "spec_op env (OpAddBalance a x) l = Some (RNone, set_account env a (\<lambda>v. v\<lparr>v_balance := v_balance v + x\<rparr>) l)"
| "spec_op env (OpSubBalance a x) l = Some (RNone, set_account env a (\<lambda>v. v\<lparr>v_balance := v_balance v - x\<rparr>) l)"
| "spec_op env (OpSetBalance a x) l = Some (RNone, set_account env a (\<lambda>v. v\<lparr>v_balance := x\<rparr>) l)"
| "spec_op env (OpSetNonce a n) l = Some (RNone, set_account env a (\<lambda>v. v\<lparr>v_nonce := n\<rparr>) l)"
| "spec_op env (OpSetCode a c) l = Some (RNone, set_account env a (\<lambda>v. v\<lparr>v_codeHash :=
     keccak env (case c of None \<Rightarrow> [] | Some b \<Rightarrow> b), v_code := c\<rparr>) l)"
| "spec_op env (OpSetState a k x) l = Some (RNone, set_account env a (\<lambda>v. v\<lparr>v_state := (v_state v)(k := x)\<rparr>) l)"
| "spec_op env (OpSuicide a) l =
     (case live (l_account l) a of
        None \<Rightarrow> Some (RBool False, l)
      | Some v \<Rightarrow> Some (RBool True, l\<lparr>l_account := (l_account l)(a \<mapsto> v\<lparr>v_suicided := True, v_balance := 0\<rparr>)\<rparr>))"
| "spec_op env (OpAddLog lg) l = Some (RNone, add_log lg l)"
| "spec_op env (OpAddPreimage h p) l =
     Some (RNone, if l_preimages l h = None then l\<lparr>l_preimages := (l_preimages l)(h \<mapsto> p)\<rparr> else l)"
| "spec_op env (OpAddRefund g) l = Some (RNone, l\<lparr>l_refund := l_refund l + g\<rparr>)"
| "spec_op env (OpSubRefund g) l = (if g > l_refund l then None else Some (RNone, l\<lparr>l_refund := l_refund l - g\<rparr>))"
| "spec_op env (OpAddAddress a) l = Some (RNone, l\<lparr>l_addrs := insert a (l_addrs l)\<rparr>)"
| "spec_op env (OpAddSlot a k) l =
     Some (RNone, l\<lparr>l_addrs := insert a (l_addrs l), l_slots := insert (a, k) (l_slots l)\<rparr>)"
| "spec_op env (OpGetBalance a) l = Some (RInt (v_balance (account env (l_account l) a)), l)"
| "spec_op env (OpGetNonce a) l = Some (RWord (v_nonce (account env (l_account l) a)), l)"
| "spec_op env (OpGetCode a) l = Some (RCode (v_code (account env (l_account l) a)), l)"
| "spec_op env (OpGetCodeSize a) l =
     Some (RSize (case v_code (account env (l_account l) a) of None \<Rightarrow> 0 | Some c \<Rightarrow> length c), l)"
| "spec_op env (OpGetCodeHash a) l =
     Some (RHash (case live (l_account l) a of None \<Rightarrow> zeroHash | Some v \<Rightarrow> v_codeHash v), l)"
| "spec_op env (OpGetState a k) l = Some (RHash (v_state (account env (l_account l) a) k), l)"
| "spec_op env (OpGetCommittedState a k) l = Some (RHash (v_committed (account env (l_account l) a) k), l)"
| "spec_op env (OpHasSuicided a) l = Some (RBool (v_suicided (account env (l_account l) a)), l)"
| "spec_op env (OpExist a) l = Some (RBool (live (l_account l) a \<noteq> None), l)"
| "spec_op env (OpEmpty a) l =
     Some (RBool (let v = account env (l_account l) a
       in v_nonce v = 0 \<and> v_balance v = 0 \<and> v_codeHash v = emptyCodeHash env), l)"
| "spec_op env OpGetRefund l = Some (RWord (l_refund l), l)"
| "spec_op env (OpSlotInAccessList a k) l = Some (RBools (a \<in> l_addrs l) ((a, k) \<in> l_slots l), l)"
| "spec_op env _ l = None"

type_synonym ledger_machine = "ledger \<times> (int \<times> ledger) list \<times> int"

fun spec_step :: "state_env \<Rightarrow> sdb_op \<Rightarrow> ledger_machine \<Rightarrow> (sdb_result \<times> ledger_machine) option" where
  "spec_step env OpSnapshot (l, saved, nxt) = Some (RInt nxt, (l, saved @ [(nxt, l)], nxt + 1))"
| "spec_step env (OpRevert i) (l, saved, nxt) =
     (case map_of saved i of
        None \<Rightarrow> None
      | Some l' \<Rightarrow> Some (RNone, (l', takeWhile (\<lambda>(j, _). j \<noteq> i) saved, nxt)))"
| "spec_step env op (l, saved, nxt) = map_option (\<lambda>(r, l). (r, (l, saved, nxt))) (spec_op env op l)"

fun run_all :: "('op \<Rightarrow> 's \<Rightarrow> ('r \<times> 's) option) \<Rightarrow> 'op list \<Rightarrow> 's \<Rightarrow> ('r list \<times> 's) option" where
  "run_all f [] s = Some ([], s)"
| "run_all f (op # ops) s =
     (case f op s of
        None \<Rightarrow> None
      | Some (r, s) \<Rightarrow> map_option (map_prod (Cons r) id) (run_all f ops s))"

subsection \<open>Reading\<close>

lemma read_result:
  assumes "good env s" "length a = 20"
  obtains s' where "getStateObject env a s = Some (live_at env s a, s')" "reads env s s'" "steps env s s'"
    "ledger_of (sdb_view env s') = ledger_of (sdb_view env s)" "stateObjects s' a = object_at env s a"
  using getStateObject_reads [OF goodD(1) [OF assms(1)] assms(2)] reads_steps [OF assms(1)] that
  by (metis reads_def)

definition reads_ledger :: "state_env \<Rightarrow> StateDB \<Rightarrow> StateDB \<Rightarrow> bool" where
  "reads_ledger env s s' \<longleftrightarrow> steps env s s' \<and> ledger_of (sdb_view env s') = ledger_of (sdb_view env s)"

lemma live_cases:
  assumes "length a = 20"
  shows "(live_at env s a = None \<and> live (w_account (sdb_view env s)) a = None \<and>
      account env (w_account (sdb_view env s)) a = fresh_account env) \<or>
    (\<exists>obj. live_at env s a = Some obj \<and> object_at env s a = Some obj \<and> \<not> deleted obj \<and>
      live (w_account (sdb_view env s)) a = Some (show_object env s obj) \<and>
      account env (w_account (sdb_view env s)) a = show_object env s obj)"
  using live_live_at [OF assms, of env s]
  by (cases "live_at env s a") (auto simp: account_def live_at_def split: option.splits if_splits)

lemma plain_reads:
  assumes "good env s" "length a = 20"
  defines "v \<equiv> account env (w_account (sdb_view env s)) a"
  shows "\<exists>s'. GetBalance env a s = Some (v_balance v, s') \<and> reads_ledger env s s'"
    and "\<exists>s'. GetNonce env a s = Some (v_nonce v, s') \<and> reads_ledger env s s'"
    and "\<exists>s'. HasSuicided env a s = Some (v_suicided v, s') \<and> reads_ledger env s s'"
    and "\<exists>s'. Exist env a s = Some (live (w_account (sdb_view env s)) a \<noteq> None, s') \<and> reads_ledger env s s'"
    and "\<exists>s'. GetCodeHash env a s = Some (case live (w_account (sdb_view env s)) a of None \<Rightarrow> zeroHash | Some v \<Rightarrow> v_codeHash v, s') \<and>
      reads_ledger env s s'"
    and "\<exists>s'. sdb_Empty env a s = Some (v_nonce v = 0 \<and> v_balance v = 0 \<and> v_codeHash v = emptyCodeHash env, s') \<and> reads_ledger env s s'"
proof -
  obtain s' where s': "getStateObject env a s = Some (live_at env s a, s')" "reads_ledger env s s'"
    using read_result [OF assms(1,2)] unfolding reads_ledger_def by metis
  have "length (acc_CodeHash (o_data obj)) = 32" if "object_at env s a = Some obj" for obj
    using object_ok_at(1) [OF goodD(1) [OF assms(1)] assms(2) that] by (simp add: obj_ok_def)
  with s' live_cases [OF assms(2), of env s]
  show "\<exists>s'. GetBalance env a s = Some (v_balance v, s') \<and> reads_ledger env s s'"
    "\<exists>s'. GetNonce env a s = Some (v_nonce v, s') \<and> reads_ledger env s s'"
    "\<exists>s'. HasSuicided env a s = Some (v_suicided v, s') \<and> reads_ledger env s s'"
    "\<exists>s'. Exist env a s = Some (live (w_account (sdb_view env s)) a \<noteq> None, s') \<and> reads_ledger env s s'"
    "\<exists>s'. GetCodeHash env a s = Some (case live (w_account (sdb_view env s)) a of None \<Rightarrow> zeroHash | Some v \<Rightarrow> v_codeHash v, s') \<and>
      reads_ledger env s s'"
    "\<exists>s'. sdb_Empty env a s = Some (v_nonce v = 0 \<and> v_balance v = 0 \<and> v_codeHash v = emptyCodeHash env, s') \<and> reads_ledger env s s'"
    by (auto simp: v_def GetBalance_def GetNonce_def HasSuicided_def Exist_def GetCodeHash_def sdb_Empty_def obj_empty_def
        fresh_account_def show_object_def)
qed

text \<open>Reads that also load something into the object.\<close>

lemma object_read:
  assumes "good env s" "reads env s s1" "stateObjects s1 a = Some obj"
    and "same_object env (s_snap s) (o_addrHash obj \<in> snapDestructs s) obj obj'"
  shows "reads_ledger env s (setStateObject obj' s1)"
proof -
  have ok: "sdb_ok env s1" using assms(2) by (simp add: reads_def)
  have "reads env s (setStateObject obj' s1)"
    using reads_trans [OF assms(2) reads_same_object [OF ok assms(3)]] assms(4) reads_fields [OF assms(2)] by simp
  then show ?thesis using reads_steps [OF assms(1)] by (simp add: reads_ledger_def reads_def)
qed

lemma loading_reads:
  assumes "good env s" "length a = 20"
  defines "v \<equiv> account env (w_account (sdb_view env s)) a"
  shows "\<exists>s'. GetCode env a s = Some (v_code v, s') \<and> reads_ledger env s s'"
    and "\<exists>s'. GetCodeSize env a s = Some (case v_code v of None \<Rightarrow> 0 | Some c \<Rightarrow> length c, s') \<and> reads_ledger env s s'"
    and "\<exists>s'. GetState env a k s = Some (v_state v k, s') \<and> reads_ledger env s s'"
    and "\<exists>s'. GetCommittedState env a k s = Some (v_committed v k, s') \<and> reads_ledger env s s'"
proof -
  obtain s1 where s1: "getStateObject env a s = Some (live_at env s a, s1)" "reads env s s1" "reads_ledger env s s1"
    "stateObjects s1 a = object_at env s a"
    using read_result [OF assms(1,2)] unfolding reads_ledger_def by metis
  note f = reads_fields [OF s1(2)]
  have all: "(\<exists>s'. GetCode env a s = Some (v_code v, s') \<and> reads_ledger env s s') \<and>
    (\<exists>s'. GetCodeSize env a s = Some (case v_code v of None \<Rightarrow> 0 | Some c \<Rightarrow> length c, s') \<and> reads_ledger env s s') \<and>
    (\<exists>s'. GetState env a k s = Some (v_state v k, s') \<and> reads_ledger env s s') \<and>
    (\<exists>s'. GetCommittedState env a k s = Some (v_committed v k, s') \<and> reads_ledger env s s')"
    using live_cases [OF assms(2), of env s]
  proof (elim disjE exE conjE)
    assume "live_at env s a = None" "account env (w_account (sdb_view env s)) a = fresh_account env"
    with s1 show ?thesis
      by (auto simp: v_def GetCode_def GetCodeSize_def GetState_def GetCommittedState_def fresh_account_def)
  next
    fix obj assume obj: "live_at env s a = Some obj" "object_at env s a = Some obj"
      "account env (w_account (sdb_view env s)) a = show_object env s obj"
    note ok = object_ok_at(1) [OF goodD(1) [OF assms(1)] assms(2) obj(2)]
    have at: "stateObjects s1 a = Some obj" using s1(4) obj(2) by simp
    note rd = object_read [OF assms(1) s1(2) at]
    let ?d = "o_addrHash obj \<in> snapDestructs s"
    from obj_Code_same [OF ok] obtain o1
      where o1: "obj_Code env obj = (code_view env obj, o1)" "same_object env (s_snap s) ?d obj o1" by blast
    from obj_CodeSize_same [OF ok] obtain o2 where
      o2: "obj_CodeSize env obj = (case code_view env obj of None \<Rightarrow> 0 | Some c \<Rightarrow> length c, o2)"
        "same_object env (s_snap s) ?d obj o2" by blast
    from obj_GetState_same [OF ok refl] obtain o3 where
      o3: "obj_GetState env (s_snap s) (snapDestructs s) obj k = Some (state_view env (s_snap s) ?d obj k, o3)"
        "same_object env (s_snap s) ?d obj o3" by blast
    from obj_GetCommittedState_same [OF ok refl] obtain o4 where
      o4: "obj_GetCommittedState env (s_snap s) (snapDestructs s) obj k = Some (committed_view env (s_snap s) ?d obj k, o4)"
        "same_object env (s_snap s) ?d obj o4" by blast
    show ?thesis
      using s1(1) obj f o1 o2 o3 o4 rd [OF o1(2)] rd [OF o2(2)] rd [OF o3(2)] rd [OF o4(2)]
      by (simp add: v_def GetCode_def GetCodeSize_def GetState_def GetCommittedState_def show_object_def)
  qed
  then show "\<exists>s'. GetCode env a s = Some (v_code v, s') \<and> reads_ledger env s s'"
    "\<exists>s'. GetCodeSize env a s = Some (case v_code v of None \<Rightarrow> 0 | Some c \<Rightarrow> length c, s') \<and> reads_ledger env s s'"
    "\<exists>s'. GetState env a k s = Some (v_state v k, s') \<and> reads_ledger env s s'"
    "\<exists>s'. GetCommittedState env a k s = Some (v_committed v k, s') \<and> reads_ledger env s s'" by blast+
qed

subsection \<open>Changing accounts\<close>

lemma sets_account_ledger:
  "sets_account env a g s s' \<Longrightarrow> ledger_of (sdb_view env s') = set_account env a g (ledger_of (sdb_view env s))"
  by (simp add: sets_account_def set_account_def ledger_of_def same_rest_def)

lemma CreateAccount_ledger:
  assumes "good env s" "length a = 20"
  shows "\<exists>s'. CreateAccount env a s = Some s' \<and> steps env s s' \<and>
    Some (RNone, ledger_of (sdb_view env s')) = spec_op env (OpCreateAccount a) (ledger_of (sdb_view env s))"
proof -
  from createObject_steps [OF assms] obtain s1 where
    s1: "createObject env a s = Some ((new_object env a, live_at env s a), s1)" "steps env s s1" "same_rest s s1"
      "show_object env s1 (new_object env a) = fresh_account env"
      "w_account (sdb_view env s1) = (w_account (sdb_view env s))(a \<mapsto> fresh_account env)"
      "\<And>obj'. o_address obj' = a \<Longrightarrow> obj_ok env obj' \<Longrightarrow> steps env s (setStateObject obj' s1)" by blast
  have new: "obj_ok env (new_object env a)" using new_object_ok sdb_okD(6) [OF goodD(1) [OF assms(1)]] .
  show ?thesis
    using live_cases [OF assms(2), of env s]
  proof (elim disjE exE conjE)
    assume "live_at env s a = None" "live (w_account (sdb_view env s)) a = None"
    moreover have "(fresh_account env)\<lparr>v_balance := 0\<rparr> = fresh_account env" by (simp add: fresh_account_def)
    ultimately show ?thesis using s1 by (simp add: CreateAccount_def ledger_of_def same_rest_def)
  next
    fix p assume p: "live_at env s a = Some p" "live (w_account (sdb_view env s)) a = Some (show_object env s p)"
    let ?o = "obj_setBalance (acc_Balance (o_data p)) (new_object env a)"
    have "steps env s (setStateObject ?o s1)" using s1(6) new by simp
    moreover have "show_object env s1 ?o = (fresh_account env)\<lparr>v_balance := acc_Balance (o_data p)\<rparr>"
      using s1(4) by (simp add: show_object_def)
    ultimately show ?thesis
      using s1 p setStateObject_view [of ?o env s1] assms(2)
      by (simp add: CreateAccount_def ledger_of_def same_rest_def show_object_def [of env s])
  qed
qed

lemma Suicide_ledger:
  assumes "good env s" "length a = 20"
  shows "\<exists>b s'. Suicide env a s = Some (b, s') \<and> steps env s s' \<and>
    Some (RBool b, ledger_of (sdb_view env s')) = spec_op env (OpSuicide a) (ledger_of (sdb_view env s))"
proof -
  from read_result [OF assms] obtain s1 where
    s1: "getStateObject env a s = Some (live_at env s a, s1)" "reads env s s1" "steps env s s1"
      "ledger_of (sdb_view env s1) = ledger_of (sdb_view env s)" "stateObjects s1 a = object_at env s a" .
  show ?thesis
    using live_cases [OF assms(2), of env s]
  proof (elim disjE exE conjE)
    assume "live_at env s a = None" "live (w_account (sdb_view env s)) a = None"
    with s1 show ?thesis by (intro exI [of _ False] exI [of _ s1]) (simp add: Suicide_def, simp add: ledger_of_def)
  next
    fix obj assume obj: "live_at env s a = Some obj" "object_at env s a = Some obj" "\<not> deleted obj"
      "live (w_account (sdb_view env s)) a = Some (show_object env s obj)"
    note ok = object_ok_at [OF goodD(1) [OF assms(1)] assms(2) obj(2)]
    let ?o = "obj_setBalance 0 (obj\<lparr>suicided := True\<rparr>)" and ?e = "suicideChange a (suicided obj) (acc_Balance (o_data obj))"
    let ?s = "setStateObject ?o (log_change ?e s1)"
    have "changes_object env obj (\<lambda>v. v\<lparr>v_suicided := True, v_balance := 0\<rparr>) s1 ?s"
      by (rule change_object_steps [OF stepsD(1) [OF s1(3)], of a])
        (use s1(5) obj ok assms(2) in \<open>simp_all add: show_object_def\<close>)
    then have ch: "steps env s1 ?s" "same_rest s1 ?s" "w_account (sdb_view env ?s) = (w_account (sdb_view env s1))
        (a \<mapsto> (show_object env s1 obj)\<lparr>v_suicided := True, v_balance := 0\<rparr>)"
      using ok(2) by (simp_all add: changes_object_def)
    have "ledger_of (sdb_view env ?s) = (ledger_of (sdb_view env s1))\<lparr>l_account := (l_account (ledger_of (sdb_view env s1)))
        (a \<mapsto> (show_object env s1 obj)\<lparr>v_suicided := True, v_balance := 0\<rparr>)\<rparr>"
      using ch(2,3) by (simp add: ledger_of_def same_rest_def)
    then show ?thesis
      using s1 obj(1,4) steps_trans [OF s1(3) ch(1)] reads_show [OF s1(2)]
      by (intro exI [of _ True] exI [of _ ?s]) (simp add: Suicide_def, simp add: ledger_of_def)
  qed
qed

subsection \<open>Logs, preimages, refunds and the access list\<close>

text \<open>A change of fields beside the accounts, with its entry.\<close>

definition set_fields ::
  "u64 \<Rightarrow> (hash \<Rightarrow> Log list option) \<Rightarrow> u64 \<Rightarrow> (hash \<Rightarrow> bytes option) \<Rightarrow> accessList \<Rightarrow> ledger_view \<Rightarrow> ledger_view" where
  "set_fields r ls n ps al w =
     w\<lparr>w_refund := r, w_logs := ls, w_logSize := n, w_preimages := ps, w_accessList := al\<rparr>"

lemma field_op:
  assumes "good env s" "dirtied e = None" "entry_ok env s e" "al_wf al" "\<forall>h. ls h \<noteq> Some []"
    and "vrevert env (s_snap s) e (set_fields r ls n ps al (sdb_view env s)) = Some (sdb_view env s)"
    and s': "s' = (log_change e s)\<lparr>refund := r, logs := ls, logSize := n, preimages := ps, s_accessList := al\<rparr>"
  shows "steps env s s' \<and> ledger_of (sdb_view env s') = (ledger_of (sdb_view env s))\<lparr>l_refund := r, l_logs := ls,
    l_logSize := n, l_preimages := ps, l_addrs := al_addrs al, l_slots := al_pairs al\<rparr>"
proof -
  have d: "dirties (s_journal (log_change e s)) = dirties (s_journal s)"
    using assms(2) by (simp add: log_change_def journal_append_def Let_def)
  have "w_account (sdb_view env s') = w_account (sdb_view env s)" by (rule view_fields) (simp_all add: s')
  then have v: "sdb_view env s' = set_fields r ls n ps al (sdb_view env s)"
    by (simp add: sdb_view_def set_fields_def s' d)
  have "undone env (log_change e s) s'"
    by (rule undone_fields [OF log_change_ok(1) [OF goodD(1) [OF assms(1)] assms(3)]]) (simp_all add: s' frame_def)
  then have "steps env s s'"
    by (rule single_step [OF assms(1,3)])
      (use assms(2,4-6) goodD(2) [OF assms(1)] v in \<open>simp_all add: vundirty_def view_ok_def set_fields_def\<close>)
  then show ?thesis by (simp add: v set_fields_def ledger_of_def)
qed

lemma set_fields_restore:
  "set_fields (refund s) (logs s) (logSize s) (preimages s) (s_accessList s) (sdb_view env s) = sdb_view env s"
  by (simp add: set_fields_def sdb_view_def)

lemma fields_same:
  "(log_change e s)\<lparr>refund := refund s\<rparr> = log_change e s" "(log_change e s)\<lparr>logs := logs s\<rparr> = log_change e s"
  "(log_change e s)\<lparr>logSize := logSize s\<rparr> = log_change e s" "(log_change e s)\<lparr>preimages := preimages s\<rparr> = log_change e s"
  "(log_change e s)\<lparr>s_accessList := s_accessList s\<rparr> = log_change e s"
  by (cases s, simp add: log_change_def)+

lemma good_fields: "good env s \<Longrightarrow> al_wf (s_accessList s)" "good env s \<Longrightarrow> \<forall>h. logs s h \<noteq> Some []"
  by (simp_all add: good_def view_ok_def)

lemma AddRefund_ledger:
  assumes "good env s"
  shows "steps env s (AddRefund g s) \<and>
    Some (RNone, ledger_of (sdb_view env (AddRefund g s))) = spec_op env (OpAddRefund g) (ledger_of (sdb_view env s))"
proof -
  have s': "AddRefund g s = (log_change (refundChange (refund s)) s)\<lparr>refund := refund s + g, logs := logs s,
      logSize := logSize s, preimages := preimages s, s_accessList := s_accessList s\<rparr>"
    by (cases s) (simp add: AddRefund_def Let_def log_change_def)
  show ?thesis
    using field_op [OF assms _ _ good_fields [OF assms] _ s'] set_fields_restore [of s env]
    by (simp add: set_fields_def ledger_of_def)
qed

lemma SubRefund_ledger:
  assumes "good env s" "\<not> refund s < g"
  shows "\<exists>s'. SubRefund g s = Some s' \<and> steps env s s' \<and>
    Some (RNone, ledger_of (sdb_view env s')) = spec_op env (OpSubRefund g) (ledger_of (sdb_view env s))"
proof -
  define s' where "s' = (log_change (refundChange (refund s)) s)\<lparr>refund := refund s - g, logs := logs s,
      logSize := logSize s, preimages := preimages s, s_accessList := s_accessList s\<rparr>"
  have "SubRefund g s = Some s'"
    using assms(2) by (cases s) (simp add: s'_def SubRefund_def Let_def log_change_def)
  then show ?thesis
    using field_op [OF assms(1) _ _ good_fields [OF assms(1)] _ s'_def] set_fields_restore [of s env] assms(2)
    by (simp add: set_fields_def ledger_of_def)
qed

lemma AddLog_ledger:
  assumes "good env s"
  shows "steps env s (AddLog l s) \<and>
    Some (RNone, ledger_of (sdb_view env (AddLog l s))) = spec_op env (OpAddLog l) (ledger_of (sdb_view env s))"
proof -
  let ?l = "l\<lparr>log_TxHash := thash s, log_TxIndex := of_int (txIndex s), log_Index := logSize s\<rparr>"
  let ?ls = "(logs s)(thash s \<mapsto> (case logs s (thash s) of None \<Rightarrow> [] | Some ls \<Rightarrow> ls) @ [?l])"
  have s': "AddLog l s = (log_change (addLogChange (thash s)) s)\<lparr>refund := refund s, logs := ?ls,
      logSize := logSize s + 1, preimages := preimages s, s_accessList := s_accessList s\<rparr>"
    by (cases s) (simp add: AddLog_def Let_def log_change_def)
  have "if (case logs s (thash s) of None \<Rightarrow> [] | Some ls \<Rightarrow> ls) = [] then (logs s)(thash s := None) = logs s
      else (logs s)(thash s \<mapsto> case logs s (thash s) of None \<Rightarrow> [] | Some ls \<Rightarrow> ls) = logs s"
    using good_fields(2) [OF assms, rule_format, of "thash s"] by (cases "logs s (thash s)") (auto simp: fun_upd_idem)
  then have "vrevert env (s_snap s) (addLogChange (thash s))
      (set_fields (refund s) ?ls (logSize s + 1) (preimages s) (s_accessList s) (sdb_view env s)) = Some (sdb_view env s)"
    by (simp add: set_fields_def sdb_view_def split: if_splits)
  then show ?thesis
    using field_op [OF assms _ _ good_fields(1) [OF assms] _ _ s'] good_fields(2) [OF assms]
    by (simp add: ledger_of_def add_log_def)
qed

lemma AddPreimage_ledger:
  assumes "good env s"
  shows "steps env s (AddPreimage h p s) \<and>
    Some (RNone, ledger_of (sdb_view env (AddPreimage h p s))) = spec_op env (OpAddPreimage h p) (ledger_of (sdb_view env s))"
proof (cases "preimages s h = None")
  case True
  have s': "AddPreimage h p s = (log_change (addPreimageChange h) s)\<lparr>refund := refund s, logs := logs s,
      logSize := logSize s, preimages := (preimages s)(h \<mapsto> p), s_accessList := s_accessList s\<rparr>"
    using True by (cases s) (simp add: AddPreimage_def Let_def log_change_def)
  show ?thesis
    using field_op [OF assms _ _ good_fields [OF assms] _ s'] set_fields_restore [of s env] True
    by (simp add: set_fields_def ledger_of_def fun_upd_idem)
next
  case False
  then show ?thesis using assms by (auto simp: AddPreimage_def ledger_of_def)
qed

lemma AddAddressToAccessList_ledger:
  assumes "good env s"
  shows "steps env s (AddAddressToAccessList a s) \<and> Some (RNone, ledger_of (sdb_view env (AddAddressToAccessList a s))) =
    spec_op env (OpAddAddress a) (ledger_of (sdb_view env s))"
proof -
  obtain c al where al: "AddAddress a (s_accessList s) = (c, al)" by fastforce
  note add = AddAddress_correct [OF good_fields(1) [OF assms] al]
  show ?thesis
  proof (cases c)
    case True
    have s': "AddAddressToAccessList a s = (log_change (accessListAddAccountChange a) s)\<lparr>refund := refund s, logs := logs s,
        logSize := logSize s, preimages := preimages s, s_accessList := al\<rparr>"
      using True al by (cases s) (simp add: AddAddressToAccessList_def log_change_def)
    have "DeleteAddress a al = s_accessList s" using DeleteAddress_AddAddress al True by simp
    then show ?thesis
      using field_op [OF assms _ _ add(1) good_fields(2) [OF assms] _ s'] set_fields_restore [of s env] add(3,4)
      by (simp add: set_fields_def ledger_of_def)
  next
    case False
    then have "al = s_accessList s" "a \<in> al_addrs (s_accessList s)"
      using al add(2) by (auto simp: AddAddress_def split: if_splits)
    moreover have "s\<lparr>s_accessList := s_accessList s\<rparr> = s" by (cases s) simp
    ultimately show ?thesis
      using assms al False by (simp add: AddAddressToAccessList_def) (simp add: ledger_of_def insert_absorb)
  qed
qed

lemma AddSlotToAccessList_ledger:
  assumes "good env s"
  shows "\<exists>s'. AddSlotToAccessList a k s = Some s' \<and> steps env s s' \<and>
    Some (RNone, ledger_of (sdb_view env s')) = spec_op env (OpAddSlot a k) (ledger_of (sdb_view env s))"
proof -
  note wf = good_fields(1) [OF assms]
  from AddSlot_correct [OF wf, of a k] obtain al where al: "AddSlot a k (s_accessList s) =
      Some ((a \<notin> al_addrs (s_accessList s), (a, k) \<notin> al_pairs (s_accessList s)), al)"
    "al_wf al" "al_addrs al = insert a (al_addrs (s_accessList s))" "al_pairs al = insert (a, k) (al_pairs (s_accessList s))"
    by blast
  show ?thesis
  proof (cases "(a, k) \<in> al_pairs (s_accessList s)")
    case True
    then have "a \<in> al_addrs (s_accessList s)" "al = s_accessList s"
      using al_pairs_addrs al(1) AddSlot_present [OF wf True] by auto
    moreover have "s\<lparr>s_accessList := s_accessList s\<rparr> = s" by (cases s) simp
    ultimately show ?thesis
      using assms al True by (simp add: AddSlotToAccessList_def) (simp add: ledger_of_def insert_absorb)
  next
    case False
    obtain al0 where al0: "DeleteSlot a k al = Some al0"
      "(if a \<notin> al_addrs (s_accessList s) then DeleteAddress a al0 else al0) = s_accessList s"
      using DeleteSlot_AddSlot [OF wf, of a k "a \<notin> al_addrs (s_accessList s)" al] al(1) False by auto
    show ?thesis
    proof (cases "a \<in> al_addrs (s_accessList s)")
      case True
      define s' where "s' = (log_change (accessListAddSlotChange a k) s)\<lparr>refund := refund s, logs := logs s,
          logSize := logSize s, preimages := preimages s, s_accessList := al\<rparr>"
      have "AddSlotToAccessList a k s = Some s'"
        using al(1) True False by (cases s) (simp add: AddSlotToAccessList_def s'_def log_change_def)
      moreover have "vrevert env (s_snap s) (accessListAddSlotChange a k)
          (set_fields (refund s) (logs s) (logSize s) (preimages s) al (sdb_view env s)) = Some (sdb_view env s)"
        using set_fields_restore [of s env] al0 True by (simp add: set_fields_def)
      ultimately show ?thesis
        using field_op [OF assms _ _ al(2) good_fields(2) [OF assms] _ s'_def] al(3,4) by (simp add: ledger_of_def)
    next
      case new: False
      let ?e1 = "accessListAddAccountChange a" and ?e2 = "accessListAddSlotChange a k"
      define s' where "s' = (log_change ?e2 (log_change ?e1 s))\<lparr>s_accessList := al\<rparr>"
      have run: "AddSlotToAccessList a k s = Some s'"
        using al(1) new False by (cases s) (simp add: AddSlotToAccessList_def s'_def log_change_def)
      have lc: "sdb_ok env (log_change ?e1 s)" "sdb_ok env (log_change ?e2 (log_change ?e1 s))"
        using log_change_ok [OF goodD(1) [OF assms], of ?e1] log_change_ok [of env "log_change ?e1 s" ?e2] by auto
      then have u: "undone env (log_change ?e2 (log_change ?e1 s)) s'"
        by (intro undone_fields) (simp_all add: s'_def frame_def)
      have "w_account (sdb_view env s') = w_account (sdb_view env s)" by (rule view_fields) (simp_all add: s'_def)
      then have v: "sdb_view env s' = (sdb_view env s)\<lparr>w_accessList := al\<rparr>"
        by (simp add: sdb_view_def s'_def log_change_def journal_append_def Let_def)
      have "vreverts env (s_snap s) (rev [?e1, ?e2]) (sdb_view env s') =
          Some ((sdb_view env s)\<lparr>w_accessList := s_accessList s\<rparr>)"
        using al0 new by (simp add: v vundirty_def)
      also have "(sdb_view env s)\<lparr>w_accessList := s_accessList s\<rparr> = sdb_view env s" by (simp add: sdb_view_def)
      finally have "vreverts env (s_snap s) (rev [?e1, ?e2]) (sdb_view env s') = Some (sdb_view env s)" .
      moreover have "entries (s_journal s') = entries (s_journal s) @ [?e1, ?e2]" by (simp add: s'_def)
      moreover have "good env s'" using u v goodD(2) [OF assms] al(2) by (simp add: good_def undone_def view_ok_def)
      moreover have "same_base env s s'" using sdb_okD(7) [OF goodD(1) [OF assms]] by (simp add: s'_def same_base_def)
      ultimately have "steps env s s'" unfolding steps_def by (auto simp: s'_def)
      then show ?thesis using run al(3,4) unfolding v by (simp add: v) (simp add: ledger_of_def)
    qed
  qed
qed

lemma run_op_spec:
  assumes "good env s" "op_ok op" "op \<noteq> OpSnapshot" "\<forall>i. op \<noteq> OpRevert i"
  shows "case spec_op env op (ledger_of (sdb_view env s)) of
      None \<Rightarrow> run_op env op s = None
    | Some (r, l) \<Rightarrow> \<exists>s'. run_op env op s = Some (r, s') \<and> steps env s s' \<and> ledger_of (sdb_view env s') = l"
proof -
  have acc: "l_account (ledger_of (sdb_view env s)) = w_account (sdb_view env s)" by (simp add: ledger_of_def)
  have sets: "\<exists>s'. map_option (Pair RNone) r = Some (RNone, s') \<and> steps env s s' \<and>
      ledger_of (sdb_view env s') = set_account env a g (ledger_of (sdb_view env s))"
    if "\<exists>s'. r = Some s' \<and> sets_account env a g s s'" for r a g
    using that sets_account_ledger by (auto simp: sets_account_def)
  have a: "\<And>a. a \<in> set (op_addresses op) \<Longrightarrow> length a = 20" using assms(2) by (simp add: op_ok_def)
  show ?thesis
  proof (cases op)
    case (OpCreateAccount b)
    then show ?thesis using CreateAccount_ledger [OF assms(1), of b] a by auto
  next
    case (OpSuicide b)
    then show ?thesis using Suicide_ledger [OF assms(1), of b] a by (auto split: option.splits)
  next
    case (OpAddLog l)
    then show ?thesis using AddLog_ledger [OF assms(1), of l] by simp
  next
    case (OpAddPreimage h p)
    then show ?thesis using AddPreimage_ledger [OF assms(1), of h p] by simp
  next
    case (OpAddRefund g)
    then show ?thesis using AddRefund_ledger [OF assms(1), of g] by simp
  next
    case (OpSubRefund g)
    then show ?thesis
      using SubRefund_ledger [OF assms(1), of g] by (cases "refund s < g") (auto simp: SubRefund_def Let_def ledger_of_def)
  next
    case (OpAddAddress b)
    then show ?thesis using AddAddressToAccessList_ledger [OF assms(1), of b] by simp
  next
    case (OpAddSlot b k)
    then show ?thesis using AddSlotToAccessList_ledger [OF assms(1), of b k] by auto
  next
    case (OpSlotInAccessList b k)
    then show ?thesis
      using assms(1) al_Contains_correct [OF good_fields(1) [OF assms(1)], of b k]
      by (simp add: SlotInAccessList_def) (simp add: ledger_of_def)
  next
    case OpGetRefund
    then show ?thesis using assms(1) by simp (simp add: ledger_of_def)
  next
    case (OpAddBalance b x)
    then show ?thesis using sets [OF AddBalance_steps [OF assms(1), of b x]] a by simp
  next
    case (OpSubBalance b x)
    then show ?thesis using sets [OF SubBalance_steps [OF assms(1), of b x]] a by simp
  next
    case (OpSetBalance b x)
    then show ?thesis using sets [OF SetBalance_steps [OF assms(1), of b x]] a by simp
  next
    case (OpSetNonce b x)
    then show ?thesis using sets [OF SetNonce_steps [OF assms(1), of b x]] a by simp
  next
    case (OpSetCode b x)
    then show ?thesis using sets [OF SetCode_steps [OF assms(1), of b x]] a by simp
  next
    case (OpSetState b k x)
    then show ?thesis using sets [OF SetState_steps [OF assms(1), of b k x]] a by simp
  next
    case (OpGetBalance b)
    then show ?thesis using plain_reads(1) [OF assms(1), of b] a acc by (auto simp: reads_ledger_def Let_def)
  next
    case (OpGetNonce b)
    then show ?thesis using plain_reads(2) [OF assms(1), of b] a acc by (auto simp: reads_ledger_def Let_def)
  next
    case (OpHasSuicided b)
    then show ?thesis using plain_reads(3) [OF assms(1), of b] a acc by (auto simp: reads_ledger_def Let_def)
  next
    case (OpExist b)
    then show ?thesis using plain_reads(4) [OF assms(1), of b] a acc by (auto simp: reads_ledger_def Let_def)
  next
    case (OpGetCodeHash b)
    then show ?thesis using plain_reads(5) [OF assms(1), of b] a acc by (auto simp: reads_ledger_def Let_def)
  next
    case (OpEmpty b)
    then show ?thesis using plain_reads(6) [OF assms(1), of b] a acc by (auto simp: reads_ledger_def Let_def)
  next
    case (OpGetCode b)
    then show ?thesis using loading_reads(1) [OF assms(1), of b] a acc by (auto simp: reads_ledger_def Let_def)
  next
    case (OpGetCodeSize b)
    then show ?thesis using loading_reads(2) [OF assms(1), of b] a acc by (auto simp: reads_ledger_def Let_def)
  next
    case (OpGetState b k)
    then show ?thesis using loading_reads(3) [OF assms(1), of b k] a acc by (auto simp: reads_ledger_def Let_def)
  next
    case (OpGetCommittedState b k)
    then show ?thesis using loading_reads(4) [OF assms(1), of b k] a acc by (auto simp: reads_ledger_def Let_def)
  qed (use assms(3,4) in auto)
qed

end
