(* ===== verification/StateDB_Snapshots.thy ===== *)
theory StateDB_Snapshots
  imports StateDB_Refines
begin

text \<open>
  Snapshots: the binary search for a revision, the relation between the revisions of a state database
  and the saved copies of a ledger, and the simulation of whole runs of operations.
\<close>

subsection \<open>Finding a revision\<close>

lemma sort_Search_loop_correct:
  assumes "\<And>a b. a \<le> b \<Longrightarrow> b < n \<Longrightarrow> f a \<Longrightarrow> f b" "i \<le> j" "j \<le> n" "\<forall>k < i. \<not> f k" "j < n \<longrightarrow> f j"
  shows "sort_Search_loop f i j \<le> n \<and> (\<forall>k < sort_Search_loop f i j. \<not> f k) \<and>
    (sort_Search_loop f i j < n \<longrightarrow> f (sort_Search_loop f i j))"
  using assms
proof (induction f i j rule: sort_Search_loop.induct)
  case (1 f i j)
  let ?h = "(i + j) div 2"
  show ?case
  proof (cases "i < j")
    case True
    then have h: "i \<le> ?h" "?h < j" by auto
    show ?thesis
    proof (cases "f ?h")
      case f: True
      then have "sort_Search_loop f i j = sort_Search_loop f i ?h"
        using True by (simp add: sort_Search_loop.simps [of f i j])
      moreover have "?h \<le> n" "?h < n \<longrightarrow> f ?h" using f h 1(5) by auto
      ultimately show ?thesis
        using "1.IH"(2) [OF True refl _ 1(3) h(1) _ 1(6)] f by simp
    next
      case False
      then have "\<forall>k < ?h + 1. \<not> f k"
        using h(2) 1(3) [of _ ?h] 1(5) by (metis Suc_eq_plus1 less_Suc_eq_le order_less_le_trans)
      moreover have "sort_Search_loop f i j = sort_Search_loop f (?h + 1) j"
        using True False by (simp add: sort_Search_loop.simps [of f i j])
      ultimately show ?thesis
        using "1.IH"(1) [OF True refl False 1(3) _ 1(5) _ 1(7)] h by simp
    qed
  next
    case False
    then have "sort_Search_loop f i j = i" by (simp add: sort_Search_loop.simps [of f i j])
    moreover have "i = j" using False 1(4) by simp
    ultimately show ?thesis using 1(5-7) by simp
  qed
qed

lemma sort_Search_correct:
  assumes "\<forall>a b. a \<le> b \<longrightarrow> b < n \<longrightarrow> f a \<longrightarrow> f b"
  shows "sort_Search n f \<le> n" "k < sort_Search n f \<Longrightarrow> \<not> f k" "sort_Search n f < n \<Longrightarrow> f (sort_Search n f)"
  using sort_Search_loop_correct [of n f 0 n] assms by (auto simp: sort_Search_def)

lemma sort_Search_loop_cong:
  "(\<And>k. k < j \<Longrightarrow> f k = g k) \<Longrightarrow> sort_Search_loop f i j = sort_Search_loop g i j"
proof (induction f i j rule: sort_Search_loop.induct)
  case (1 f i j)
  let ?h = "(i + j) div 2"
  show ?case
  proof (cases "i < j")
    case True
    then have h: "?h < j" by auto
    show ?thesis
      using True h 1(3) [OF h] "1.IH" [OF True refl] 1(3)
      by (simp add: sort_Search_loop.simps [of f i j] sort_Search_loop.simps [of g i j] Let_def)
  qed (simp add: sort_Search_loop.simps [of f i j] sort_Search_loop.simps [of g i j])
qed

lemma sort_Search_cong: "(\<And>k. k < n \<Longrightarrow> f k = g k) \<Longrightarrow> sort_Search n f = sort_Search n g"
  unfolding sort_Search_def by (rule sort_Search_loop_cong)

lemma sort_Search_find:
  fixes ids :: "int list" and i :: int
  assumes "sorted_wrt (<) ids"
  defines "r \<equiv> sort_Search (length ids) (\<lambda>k. i \<le> ids ! k)"
  shows "r \<le> length ids" "i \<in> set ids \<longleftrightarrow> r < length ids \<and> ids ! r = i" "k < r \<Longrightarrow> ids ! k \<noteq> i"
proof -
  have mono: "\<forall>a b. a \<le> b \<longrightarrow> b < length ids \<longrightarrow> i \<le> ids ! a \<longrightarrow> i \<le> ids ! b"
  proof (intro allI impI)
    fix a b assume "a \<le> b" "b < length ids" "i \<le> ids ! a"
    moreover from this have "a = b \<or> ids ! a < ids ! b"
      using assms(1) by (cases "a = b") (simp_all add: sorted_wrt_iff_nth_less)
    ultimately show "i \<le> ids ! b" by auto
  qed
  note c = sort_Search_correct [of "length ids" "\<lambda>k. i \<le> ids ! k", OF mono, folded r_def]
  show "r \<le> length ids" by (rule c(1))
  show "k < r \<Longrightarrow> ids ! k \<noteq> i" using c(2) [where k = k] by auto
  show "i \<in> set ids \<longleftrightarrow> r < length ids \<and> ids ! r = i"
  proof
    assume "i \<in> set ids"
    then obtain k where k: "k < length ids" "ids ! k = i" by (auto simp: in_set_conv_nth)
    then have "r \<le> k" using c(2) [where k = k] by (metis not_le order_refl)
    moreover have "\<not> r < k" using c(3) k assms(1) by (force simp: sorted_wrt_iff_nth_less)
    ultimately show "r < length ids \<and> ids ! r = i" using k by auto
  qed (auto simp: in_set_conv_nth)
qed

lemma takeWhile_ids:
  assumes "r < length xs" "fst (xs ! r) = i" "\<And>k. k < r \<Longrightarrow> fst (xs ! k) \<noteq> i"
  shows "takeWhile (\<lambda>(j, _). j \<noteq> i) xs = take r xs" "map_of xs i = Some (snd (xs ! r))"
proof -
  show "takeWhile (\<lambda>(j, _). j \<noteq> i) xs = take r xs"
    using assms by (intro takeWhile_eq_take_P_nth) (simp_all add: case_prod_unfold)
  have "map_of (take r xs) i = None" using assms(3) by (force simp: map_of_eq_None_iff in_set_conv_nth)
  moreover have "map_of (xs ! r # drop (Suc r) xs) i = Some (snd (xs ! r))"
    using assms(2) by (cases "xs ! r") simp
  ultimately have "map_of (take r xs @ xs ! r # drop (Suc r) xs) i = Some (snd (xs ! r))"
    by (simp add: map_add_def del: map_of.simps)
  then show "map_of xs i = Some (snd (xs ! r))" using id_take_nth_drop [OF assms(1)] by simp
qed

subsection \<open>The simulation\<close>

text \<open>Undoing the journal down to \<open>n\<close> gives a view of the ledger \<open>l\<close>.\<close>

definition restores :: "state_env \<Rightarrow> StateDB \<Rightarrow> nat \<Rightarrow> ledger \<Rightarrow> bool" where
  "restores env s n l \<longleftrightarrow> n \<le> length (entries (s_journal s)) \<and>
     (\<exists>w. view_ok w \<and> ledger_of w = l \<and>
        vreverts env (s_snap s) (rev (drop n (entries (s_journal s)))) (sdb_view env s) = Some w)"

fun sim :: "state_env \<Rightarrow> StateDB \<Rightarrow> ledger_machine \<Rightarrow> bool" where
  "sim env s (l, saved, nxt) \<longleftrightarrow>
     good env s \<and> ledger_of (sdb_view env s) = l \<and> nextRevisionId s = nxt \<and>
     map fst saved = map fst (validRevisions s) \<and>
     (\<forall>k < length saved. restores env s (snd (validRevisions s ! k)) (snd (saved ! k))) \<and>
     sorted_wrt (<) (map fst (validRevisions s)) \<and> (\<forall>i \<in> set (map fst (validRevisions s)). i < nxt) \<and>
     sorted (map snd (validRevisions s))"

lemma restores_steps:
  assumes "restores env s n l" "steps env s s'"
  shows "restores env s' n l"
proof -
  from assms(2) obtain es where es: "entries (s_journal s') = entries (s_journal s) @ es"
    "vreverts env (s_snap s) (rev es) (sdb_view env s') = Some (sdb_view env s)" by (auto simp: steps_def)
  with assms(1) stepsD(2) [OF assms(2)] show ?thesis by (auto simp: restores_def vreverts_append)
qed

text \<open>An earlier revision stays in reach after a later one is restored.\<close>

lemma restores_back:
  assumes "restores env s m l" "m \<le> n" "n \<le> length (entries (s_journal s))"
    and "vreverts env (s_snap s) (rev (drop n (entries (s_journal s)))) (sdb_view env s) = Some (sdb_view env s')"
    and "entries (s_journal s') = take n (entries (s_journal s))" "s_snap s' = s_snap s"
  shows "restores env s' m l"
proof -
  have "drop m (entries (s_journal s)) = drop m (take n (entries (s_journal s))) @ drop n (entries (s_journal s))"
    using assms(2,3) by (metis append_take_drop_id diff_is_0_eq drop0 drop_append length_take min.absorb2)
  then show ?thesis using assms by (auto simp: restores_def vreverts_append)
qed

lemma sim_steps:
  assumes "sim env s (l, saved, nxt)" "steps env s s'"
  shows "sim env s' (ledger_of (sdb_view env s'), saved, nxt)"
proof -
  have "validRevisions s' = validRevisions s" "nextRevisionId s' = nextRevisionId s" "good env s'"
    using assms(2) by (simp_all add: steps_def)
  then show ?thesis using assms restores_steps by auto
qed

lemma sim_Snapshot:
  assumes "sim env s (l, saved, nxt)"
  shows "sdb_Snapshot s = (nxt, snd (sdb_Snapshot s)) \<and> sim env (snd (sdb_Snapshot s)) (l, saved @ [(nxt, l)], nxt + 1)"
proof -
  let ?s = "s\<lparr>nextRevisionId := nextRevisionId s + 1,
      validRevisions := validRevisions s @ [(nextRevisionId s, length (entries (s_journal s)))]\<rparr>"
  have "w_account (sdb_view env ?s) = w_account (sdb_view env s)" by (rule view_fields) simp_all
  then have v: "sdb_view env ?s = sdb_view env s" by (simp add: sdb_view_def)
  have g: "good env s" using assms by simp
  have "sdb_ok env ?s"
    by (rule sdb_ok_cong [OF goodD(1) [OF g]]) (use sdb_okD(7) [OF goodD(1) [OF g]] in \<open>simp_all add: same_base_def\<close>)
  then have g': "good env ?s" using g v by (simp add: good_def)
  have len: "length saved = length (validRevisions s)" using assms by (metis length_map sim.simps)
  have idx: "n \<le> length (entries (s_journal s))" if "n \<in> set (map snd (validRevisions s))" for n
  proof -
    from that obtain k where "k < length (validRevisions s)" "n = snd (validRevisions s ! k)"
      by (auto simp: in_set_conv_nth simp del: set_map)
    with assms len show ?thesis by (simp add: restores_def)
  qed
  have r: "restores env ?s n x" if "restores env s n x" for n x
    using that v by (simp add: restores_def)
  have r0: "restores env ?s (length (entries (s_journal s))) l"
    using assms goodD(2) [OF g] v by (auto simp: restores_def)
  have nxt: "nextRevisionId s = nxt" "ledger_of (sdb_view env s) = l" using assms by simp_all
  have nth: "restores env ?s (snd (validRevisions ?s ! k)) (snd ((saved @ [(nxt, l)]) ! k))" if "k < Suc (length saved)" for k
  proof (cases "k < length saved")
    case True
    then have "restores env s (snd (validRevisions s ! k)) (snd (saved ! k))" using assms by simp
    then show ?thesis using True len r by (simp add: nth_append)
  next
    case False
    then show ?thesis using that len r0 by (simp add: nth_append)
  qed
  have "sorted (map snd (validRevisions ?s))" "sorted_wrt (<) (map fst (validRevisions ?s))"
    "\<forall>i \<in> set (map fst (validRevisions ?s)). i < nxt + 1" "map fst (saved @ [(nxt, l)]) = map fst (validRevisions ?s)"
    using assms idx nxt by (auto simp: sorted_append sorted_wrt_append)
  then have "sim env ?s (l, saved @ [(nxt, l)], nxt + 1)"
    using g' v nth nxt unfolding sim.simps by simp
  then show ?thesis using nxt by (simp add: sdb_Snapshot_def Let_def)
qed

lemma sim_Revert:
  assumes sim: "sim env s (l, saved, nxt)"
  shows "case spec_step env (OpRevert i) (l, saved, nxt) of
      None \<Rightarrow> RevertToSnapshot env i s = None
    | Some (r, m) \<Rightarrow> \<exists>s'. RevertToSnapshot env i s = Some s' \<and> r = RNone \<and> sim env s' m \<and>
        stateObjectsDestruct s' = stateObjectsDestruct s"
proof -
  let ?revs = "validRevisions s"
  define r where "r = sort_Search (length ?revs) (\<lambda>k. i \<le> map fst ?revs ! k)"
  have inc: "sorted_wrt (<) (map fst ?revs)" and ids: "map fst saved = map fst ?revs" and g: "good env s"
    using sim by simp_all
  note f = sort_Search_find [OF inc, where i = i, unfolded length_map, folded r_def]
  have len: "length saved = length ?revs" using ids by (metis length_map)
  have id: "fst (saved ! k) = fst (?revs ! k)" if "k < length ?revs" for k
    using that ids len by (metis nth_map)
  have r: "sort_Search (length ?revs) (\<lambda>k. i \<le> fst (?revs ! k)) = r"
    unfolding r_def by (rule sort_Search_cong) simp
  show ?thesis
  proof (cases "i \<in> set (map fst ?revs)")
    case False
    then have "map_of saved i = None" using ids by (simp add: map_of_eq_None_iff flip: set_map)
    moreover have "r = length ?revs \<or> fst (?revs ! r) \<noteq> i" using False f(1,2) by (cases "r < length ?revs") auto
    ultimately show ?thesis by (simp add: RevertToSnapshot_def r)
  next
    case True
    then have i: "r < length ?revs" "fst (?revs ! r) = i" using f(2) by auto
    have first: "\<And>k. k < r \<Longrightarrow> fst (saved ! k) \<noteq> i" using f(3) i(1) id by (metis less_trans nth_map)
    note w = takeWhile_ids [of r saved i, OF _ _ first]
    let ?n = "snd (?revs ! r)"
    have "restores env s ?n (snd (saved ! r))" using sim i(1) len by simp
    then obtain v where v: "?n \<le> length (entries (s_journal s))" "view_ok v" "ledger_of v = snd (saved ! r)"
      "vreverts env (s_snap s) (rev (drop ?n (entries (s_journal s)))) (sdb_view env s) = Some v"
      by (auto simp: restores_def)
    from journal_revert_view [OF goodD(1) [OF g] v(1,4)] obtain s1 where
      s1: "journal_revert env ?n s = Some s1" "sdb_view env s1 = v" "sdb_ok env s1" "same_base env s s1"
        "entries (s_journal s1) = take ?n (entries (s_journal s))" "nextRevisionId s1 = nextRevisionId s"
        "stateObjectsDestruct s1 = stateObjectsDestruct s" by blast
    let ?s = "s1\<lparr>validRevisions := take r ?revs\<rparr>"
    have view: "sdb_view env ?s = v"
      using view_fields [of ?s s1 env] s1(2) by (simp add: sdb_view_def)
    have "sdb_ok env ?s"
      by (rule sdb_ok_cong [OF s1(3)]) (use sdb_okD(7) [OF s1(3)] in \<open>simp_all add: same_base_def\<close>)
    then have good: "good env ?s" using v(2) view by (simp add: good_def)
    have "restores env ?s (snd (?revs ! k)) (snd (saved ! k))" if k: "k < r" for k
    proof (rule restores_back [OF _ _ v(1)])
      show "restores env s (snd (?revs ! k)) (snd (saved ! k))" using sim k i(1) len by simp
      show "snd (?revs ! k) \<le> ?n"
        using sim k i(1) sorted_iff_nth_mono_less [of "map snd ?revs"] by (simp add: less_trans)
    qed (use s1 view v(4) in \<open>simp_all add: same_base_def\<close>)
    moreover have "map fst (take r saved) = map fst (take r ?revs)" by (simp only: ids take_map [symmetric])
    moreover have "sorted_wrt (<) (map fst (take r ?revs))" "sorted (map snd (take r ?revs))"
      using sim by (simp_all add: take_map [symmetric] sorted_wrt_take)
    moreover have "\<forall>j \<in> set (map fst (take r ?revs)). j < nxt" using sim by (auto dest: in_set_takeD)
    moreover have "nextRevisionId s = nxt" using sim by simp
    ultimately have "sim env ?s (snd (saved ! r), take r saved, nxt)"
      using good view v(3) s1(6) i(1) len unfolding sim.simps by simp
    then show ?thesis using w i id [OF i(1)] len s1(1,7) by (simp add: RevertToSnapshot_def r)
  qed
qed

subsection \<open>Runs\<close>

lemma sim_step:
  assumes "sim env s m" "op_ok op"
  shows "case spec_step env op m of
      None \<Rightarrow> run_op env op s = None
    | Some (r, m') \<Rightarrow> \<exists>s'. run_op env op s = Some (r, s') \<and> sim env s' m' \<and>
        stateObjectsDestruct s' = stateObjectsDestruct s"
proof -
  obtain l saved nxt where m: "m = (l, saved, nxt)" by (cases m) auto
  consider "op = OpSnapshot" | i where "op = OpRevert i" | "op \<noteq> OpSnapshot" "\<forall>i. op \<noteq> OpRevert i" by blast
  then show ?thesis
  proof cases
    case 1
    note snap = sim_Snapshot [OF assms(1) [unfolded m]]
    then obtain s' where "sdb_Snapshot s = (nxt, s')" by blast
    moreover from this have "stateObjectsDestruct s' = stateObjectsDestruct s" by (auto simp: sdb_Snapshot_def Let_def)
    ultimately show ?thesis using 1 m snap by (simp del: sim.simps)
  next
    case (2 i)
    then show ?thesis using sim_Revert [OF assms(1) [unfolded m], of i] m by (auto simp del: sim.simps split: option.splits)
  next
    case 3
    have l: "ledger_of (sdb_view env s) = l" and g: "good env s" using assms(1) m by simp_all
    have "spec_step env op m = map_option (\<lambda>(r, l). (r, (l, saved, nxt))) (spec_op env op l)"
      using 3 m by (cases op) simp_all
    then show ?thesis
      using run_op_spec [OF g assms(2) 3] sim_steps [OF assms(1) [unfolded m]] by (auto simp: l steps_def simp del: sim.simps split: option.splits)
  qed
qed

lemma sim_run:
  assumes "sim env s m" "\<forall>op \<in> set ops. op_ok op"
  shows "case run_all (spec_step env) ops m of
      None \<Rightarrow> run_all (run_op env) ops s = None
    | Some (rs, m') \<Rightarrow> \<exists>s'. run_all (run_op env) ops s = Some (rs, s') \<and> sim env s' m' \<and>
        stateObjectsDestruct s' = stateObjectsDestruct s"
  using assms
proof (induction ops arbitrary: s m)
  case (Cons op ops)
  show ?case
  proof (cases "spec_step env op m")
    case None
    then show ?thesis using sim_step [OF Cons.prems(1), of op] Cons.prems(2) by simp
  next
    case (Some p)
    obtain r m1 where p: "p = (r, m1)" by (cases p)
    then obtain s1 where s1: "run_op env op s = Some (r, s1)" "sim env s1 m1" "stateObjectsDestruct s1 = stateObjectsDestruct s"
      using Some sim_step [OF Cons.prems(1), of op] Cons.prems(2) by auto
    then show ?thesis
      using Cons.IH [OF s1(2)] Cons.prems(2) Some p s1(1,3) by (cases "run_all (spec_step env) ops m1") auto
  qed
qed simp

lemma sim_start:
  "good env s \<Longrightarrow> validRevisions s = [] \<Longrightarrow> sim env s (ledger_of (sdb_view env s), [], nextRevisionId s)"
  by simp

end
