(* ===== verification/StateDB_Correct.thy ===== *)
theory StateDB_Correct
  imports StateDB_Snapshots
begin

text \<open>
  The properties of the state database: runs of operations are runs of the ledger machine, every
  operation gives a result of its type and keeps the invariant, and \<open>SetStorage\<close> has no state on which
  it returns.
\<close>

lemma good_New:
  assumes "state_New env root snap hc = Inr s" "base_ok env s"
  shows "good env s" "validRevisions s = []" "stateObjectsDestruct s = None" "stateObjects s = Map.empty"
  using assms
  by (auto simp: state_New_def good_def sdb_ok_def objects_ok_def view_ok_def newJournal_def newAccessList_wf
      split: sum.splits)

lemma New_fields:
  "state_New env root snap hc = Inr s \<Longrightarrow> s_snap s = snap \<and> stateObjects s = Map.empty \<and> nextRevisionId s = 0 \<and>
     refund s = 0 \<and> s_accessList s = newAccessList \<and> logs s = Map.empty"
  by (auto simp: state_New_def split: sum.splits)

text \<open>A state database over an empty trie.\<close>

definition sample_env :: state_env where
  "sample_env = \<lparr>keccak = sample_hash, nodes = no_nodes, readCode = (\<lambda>_. [])\<rparr>"

definition sample_db :: StateDB where
  "sample_db = projr (state_New sample_env zeroHash None None)"

definition sample_address :: address where
  "sample_address = replicate 20 1"

lemma sample_address_length [simp]: "length sample_address = 20"
  by (simp add: sample_address_def)

lemma sample_db_New: "state_New sample_env zeroHash None None = Inr sample_db"
  using NewSecure_empty [of zeroHash no_nodes sample_hash]
  by (auto simp: sample_db_def state_New_def OpenTrie_def sample_env_def)

lemma sample_db_read: "readable sample_env (s_trie sample_db)" "trie_read sample_env (s_trie sample_db) a = []"
proof -
  from NewSecure_empty [of zeroHash no_nodes sample_hash] obtain t where
    t: "NewSecure no_nodes zeroHash = Inr t" "sec_denotes sample_hash no_nodes t Map.empty" by blast
  then have "s_trie sample_db = t" by (simp add: sample_db_def state_New_def OpenTrie_def sample_env_def)
  with t show "readable sample_env (s_trie sample_db)" "trie_read sample_env (s_trie sample_db) a = []"
    using sec_TryGet_denotes [OF t(2), of a] by (auto simp: readable_def trie_read_def sample_env_def)
qed

lemma sample_db_fields: "s_snap sample_db = None" "stateObjects sample_db = Map.empty" "nextRevisionId sample_db = 0"
  "refund sample_db = 0" "s_accessList sample_db = newAccessList" "logs sample_db = Map.empty"
  using New_fields [OF sample_db_New] by simp_all

lemma sample_db_load: "load_object sample_env sample_db a = None"
  by (simp add: load_object_def sample_db_fields sample_db_read)

lemma sample_db_ok: "base_ok sample_env sample_db"
  using sample_db_read sample_hash32
  by (simp add: base_ok_def sample_db_load sample_db_fields) (simp add: sample_env_def)

lemma sample_db_accounts: "w_account (sdb_view sample_env sample_db) = Map.empty"
  by (auto simp: sdb_view_def object_at_def sample_db_load sample_db_fields)

lemmas sample_db_good = good_New [OF sample_db_New sample_db_ok]

definition sample_ops :: "sdb_op list" where
  "sample_ops =
     [OpAddBalance sample_address 5, OpSnapshot, OpSetState sample_address zeroHash (replicate 32 7),
      OpAddBalance sample_address 3, OpSuicide sample_address, OpGetBalance sample_address, OpRevert 0,
      OpGetBalance sample_address, OpGetState sample_address zeroHash, OpHasSuicided sample_address]"



subsection \<open>Results of the type of the operation\<close>

fun op_result :: "sdb_op \<Rightarrow> sdb_result \<Rightarrow> bool" where
  "op_result (OpGetBalance _) r \<longleftrightarrow> (\<exists>x. r = RInt x)"
| "op_result OpSnapshot r \<longleftrightarrow> (\<exists>x. r = RInt x)"
| "op_result (OpGetNonce _) r \<longleftrightarrow> (\<exists>x. r = RWord x)"
| "op_result OpGetRefund r \<longleftrightarrow> (\<exists>x. r = RWord x)"
| "op_result (OpGetCode _) r \<longleftrightarrow> (\<exists>x. r = RCode x)"
| "op_result (OpGetCodeSize _) r \<longleftrightarrow> (\<exists>x. r = RSize x)"
| "op_result (OpGetCodeHash _) r \<longleftrightarrow> (\<exists>x. r = RHash x \<and> length x = 32)"
| "op_result (OpGetState _ _) r \<longleftrightarrow> (\<exists>x. r = RHash x)"
| "op_result (OpGetCommittedState _ _) r \<longleftrightarrow> (\<exists>x. r = RHash x)"
| "op_result (OpSuicide _) r \<longleftrightarrow> (\<exists>x. r = RBool x)"
| "op_result (OpHasSuicided _) r \<longleftrightarrow> (\<exists>x. r = RBool x)"
| "op_result (OpExist _) r \<longleftrightarrow> (\<exists>x. r = RBool x)"
| "op_result (OpEmpty _) r \<longleftrightarrow> (\<exists>x. r = RBool x)"
| "op_result (OpSlotInAccessList _ _) r \<longleftrightarrow> (\<exists>x y. r = RBools x y \<and> (y \<longrightarrow> x))"
| "op_result _ r \<longleftrightarrow> r = RNone"

lemma spec_op_result:
  assumes "good env s" "op_ok op" "spec_op env op (ledger_of (sdb_view env s)) = Some (r, l)"
  shows "op_result op r"
proof (cases op)
  case (OpGetCodeHash a)
  then have a: "length a = 20" using assms(2) by (simp add: op_ok_def)
  show ?thesis
    using live_cases [OF a, of env s] object_ok_at [OF goodD(1) [OF assms(1)] a] assms(3) OpGetCodeHash
    by (auto simp: ledger_of_def obj_ok_def show_object_def)
next
  case (OpSuicide a)
  then show ?thesis using assms(3) by (auto split: option.splits)
qed (use assms(3) al_pairs_addrs in \<open>auto simp: ledger_of_def Let_def split: if_splits\<close>)

lemma sim_result:
  assumes "sim env s m" "op_ok op" "spec_step env op m = Some (r, m')"
  shows "op_result op r"
proof -
  obtain l saved nxt where m: "m = (l, saved, nxt)" by (cases m) auto
  have g: "good env s" "ledger_of (sdb_view env s) = l" using assms(1) m by simp_all
  consider "op = OpSnapshot" | i where "op = OpRevert i" |
    "spec_step env op m = map_option (\<lambda>(r, l). (r, (l, saved, nxt))) (spec_op env op l)"
    using m by (cases op) simp_all
  then show ?thesis
  proof cases
    case 3
    then obtain l' where "spec_op env op l = Some (r, l')" using assms(3) by (cases "spec_op env op l") auto
    then show ?thesis using spec_op_result [OF g(1) assms(2)] g(2) by simp
  qed (use assms(3) m in \<open>auto split: option.splits\<close>)
qed

lemma sim_results:
  "sim env s m \<Longrightarrow> \<forall>op \<in> set ops. op_ok op \<Longrightarrow> run_all (run_op env) ops s = Some (rs, s') \<Longrightarrow>
   list_all2 op_result ops rs"
proof (induction ops arbitrary: s m rs)
  case (Cons op ops)
  then obtain r s1 rs1 where r: "run_op env op s = Some (r, s1)" "run_all (run_op env) ops s1 = Some (rs1, s')" "rs = r # rs1"
    by (auto split: option.splits)
  have step: "case spec_step env op m of None \<Rightarrow> False | Some (r', m') \<Rightarrow> r' = r \<and> sim env s1 m'"
    using sim_step [OF Cons.prems(1), of op] Cons.prems(2) r(1) by (auto simp del: sim.simps split: option.splits)
  then obtain m' where m': "spec_step env op m = Some (r, m')" "sim env s1 m'"
    by (auto simp del: sim.simps split: option.splits)
  then show ?case
    using Cons.IH [OF m'(2) _ r(2)] sim_result [OF Cons.prems(1) _ m'(1)] Cons.prems(2) r(3) by simp
qed simp



text \<open>C38: \<open>SetStorage\<close> panics on every state database. Neither \<open>New\<close> nor any operation makes the map of
  destructed objects, and \<open>SetStorage\<close> begins with a write to it.\<close>

theorem SetStorage_panics:
  assumes "state_New env root snap hc = Inr s" "base_ok env s" "\<forall>op \<in> set ops. op_ok op"
    and "run_all (run_op env) ops s = Some (rs, s')"
  shows "SetStorage env addr storage s' = None"
proof -
  note new = good_New [OF assms(1,2)]
  have "stateObjectsDestruct s' = None"
    using sim_run [OF sim_start [OF new(1,2)] assms(3)] assms(4) new(3) by (auto split: option.splits)
  then show ?thesis by (simp add: SetStorage_def)
qed

theorem SetStorage_panics_witness:
  "\<exists>s'. run_all (run_op sample_env) [OpSnapshot] sample_db = Some ([RInt 0], s') \<and>
    SetStorage sample_env sample_address [(zeroHash, replicate 32 1)] s' = None"
  using SetStorage_panics [OF sample_db_New sample_db_ok, of "[OpSnapshot]"]
  by (simp add: op_ok_def sample_db_fields sdb_Snapshot_def Let_def)

end
