(* ===== verification/Spec2Isabelle.thy ===== *)
theory Spec2Isabelle
  imports Rlp_Roundtrip Congress_Examples Trie_Proof_Correct StateDB_Correct
begin

text \<open>
  A verification development for G8Chain, a fork of go-ethereum (Go, under \<open>src/geth\<close>)
  whose blocks are sealed by the congress proof-of-stake-authority engine.

  Conventions. A byte is an \<open>8 word\<close>, a \<open>uint64\<close> a \<open>64 word\<close> that wraps
  around; a slice is a list, its length and offsets are natural numbers; a \<open>*big.Int\<close> is
  an \<open>int\<close>. A function that may fail returns a sum whose left side is the error.
  Statements about slices assume a length below \<open>2 ^ 63\<close>, the range of Go's \<open>int\<close>.
\<close>

end
